(* ===== verification/Prelude.thy ===== *)
theory Prelude
  imports Main "HOL-Library.Word" "HOL-Library.Char_ord" "HOL-Library.List_Lexorder" "HOL-Library.Sublist"
begin

unbundle bit_operations_syntax

text \<open>
  Shared vocabulary of the development: the byte strings every component works on, the
  standard-library searches (\<open>std::find_if\<close>, \<open>std::find\<close>, \<open>std::count\<close>) as functions on lists,
  occurrences of one string in another, and the generic lemmas the component theories share.

  A \<open>char\<close> of HOL is one byte (eight bits), so \<open>string\<close> models both \<open>std::string\<close> and a
  \<open>const char*\<close> range. An iterator or pointer into a range is modelled by its offset (a \<open>nat\<close>)
  from the start of the range; the past-the-end iterator is the length.
\<close>

named_theorems search_simps \<open>facts on first-hit searches\<close>
named_theorems split_rules \<open>case splits for results of the model's operations\<close>

declare option.splits [split_rules] sum.splits [split_rules] prod.splits [split_rules]
  list.splits [split_rules] if_splits [split_rules]

text \<open>The byte \<open>'\n'\<close>, the only line terminator the scanner knows.\<close>

abbreviation NL :: char where
  "NL \<equiv> CHR 0x0A"

abbreviation NUL :: char where
  "NUL \<equiv> CHR 0x00"

text \<open>\<open>std::string::npos\<close> and the all-ones \<open>size_t\<close>.\<close>

definition SIZE_MAX :: nat where
  "SIZE_MAX = 2 ^ 64 - 1"

subsection \<open>First-hit searches\<close>

text \<open>
  \<open>std::find_if(begin, end, P)\<close> as the offset of its result: the offset of the first element that
  satisfies \<open>P\<close>, the length of the range when there is none.
\<close>

fun find_if :: "('a \<Rightarrow> bool) \<Rightarrow> 'a list \<Rightarrow> nat" where
  "find_if P [] = 0"
| "find_if P (x # xs) = (if P x then 0 else Suc (find_if P xs))"

lemma find_if_le [simp, search_simps]: "find_if P xs \<le> length xs"
  by (induction xs) auto

lemma find_if_lt_iff [search_simps]: "find_if P xs < length xs \<longleftrightarrow> (\<exists>x \<in> set xs. P x)"
  by (induction xs) auto

lemma find_if_hit [search_simps]: "find_if P xs < length xs \<Longrightarrow> P (xs ! find_if P xs)"
  by (induction xs) auto

lemma find_if_miss [search_simps]: "i < find_if P xs \<Longrightarrow> \<not> P (xs ! i)"
  by (induction xs arbitrary: i) (auto simp: nth_Cons split: nat.splits if_splits)

lemma find_if_none: "find_if P xs = length xs \<longleftrightarrow> (\<forall>x \<in> set xs. \<not> P x)"
  by (induction xs) auto

lemma find_if_eqI:
  assumes "k \<le> length xs" and "\<And>i. i < k \<Longrightarrow> \<not> P (xs ! i)" and "k < length xs \<Longrightarrow> P (xs ! k)"
  shows "find_if P xs = k"
  using assms
proof (induction xs arbitrary: k)
  case (Cons x xs)
  show ?case
  proof (cases k)
    case 0
    with Cons.prems show ?thesis by simp
  next
    case (Suc k')
    have "\<not> P x" using Cons.prems(2)[of 0] Suc by simp
    moreover have "find_if P xs = k'"
    proof (rule Cons.IH)
      show "\<not> P (xs ! i)" if "i < k'" for i
        using Cons.prems(2)[of "Suc i"] that Suc by simp
    qed (use Cons.prems Suc in auto)
    ultimately show ?thesis using Suc by simp
  qed
qed simp

lemma take_find_if: "take (find_if P xs) xs = takeWhile (\<lambda>x. \<not> P x) xs"
  by (induction xs) auto

lemma drop_find_if: "drop (find_if P xs) xs = dropWhile (\<lambda>x. \<not> P x) xs"
  by (induction xs) auto

lemma find_if_append:
  "find_if P (xs @ ys) = (if \<exists>x \<in> set xs. P x then find_if P xs else length xs + find_if P ys)"
  by (induction xs) auto

lemma find_if_map [simp]: "find_if P (map f xs) = find_if (\<lambda>x. P (f x)) xs"
  by (induction xs) auto

lemma find_if_cong [cong]:
  "xs = ys \<Longrightarrow> (\<And>x. x \<in> set ys \<Longrightarrow> P x = Q x) \<Longrightarrow> find_if P xs = find_if Q ys"
  by (induction xs arbitrary: ys) auto

subsection \<open>Counting bytes\<close>

text \<open>\<open>std::count(begin, end, c)\<close>.\<close>

abbreviation count_byte :: "char \<Rightarrow> string \<Rightarrow> nat" where
  "count_byte c s \<equiv> count_list s c"

lemma count_list_eq_card: "count_list xs c = card {i. i < length xs \<and> xs ! i = c}"
proof (induction xs rule: rev_induct)
  case (snoc x xs)
  have eq: "{i. i < length (xs @ [x]) \<and> (xs @ [x]) ! i = c} =
        {i. i < length xs \<and> xs ! i = c} \<union> (if x = c then {length xs} else {})"
    by (auto simp: nth_append less_Suc_eq)
  show ?case unfolding eq using snoc by (auto simp: card_insert_if)
qed simp

lemma count_list_take_drop:
  "a \<le> b \<Longrightarrow> count_list (take b xs) c = count_list (take a xs) c + count_list (take (b - a) (drop a xs)) c"
proof -
  assume "a \<le> b"
  then have "take b xs = take a xs @ take (b - a) (drop a xs)"
    by (metis le_add_diff_inverse take_add)
  then show ?thesis by simp
qed

subsection \<open>Sub-ranges and occurrences\<close>

text \<open>The bytes of the half-open range \<open>[a, b)\<close> of a buffer, as a \<open>std::string(p+a, p+b)\<close>.\<close>

definition sub_range :: "nat \<Rightarrow> nat \<Rightarrow> 'a list \<Rightarrow> 'a list" where
  "sub_range a b xs = take (b - a) (drop a xs)"

lemma length_sub_range [simp]: "b \<le> length xs \<Longrightarrow> length (sub_range a b xs) = b - a"
  by (simp add: sub_range_def)

lemma sub_range_nth [simp]:
  "i < b - a \<Longrightarrow> b \<le> length xs \<Longrightarrow> sub_range a b xs ! i = xs ! (a + i)"
  by (simp add: sub_range_def)

lemma sub_range_append: "a \<le> b \<Longrightarrow> b \<le> c \<Longrightarrow> sub_range a b xs @ sub_range b c xs = sub_range a c xs"
proof -
  assume "a \<le> b" "b \<le> c"
  then have "c - a = (b - a) + (c - b)" and "drop b xs = drop (b - a) (drop a xs)" by auto
  then show ?thesis unfolding sub_range_def by (metis take_add)
qed

lemma set_sub_range: "b \<le> length xs \<Longrightarrow> x \<in> set (sub_range a b xs) \<longleftrightarrow> (\<exists>i. a \<le> i \<and> i < b \<and> xs ! i = x)"
proof
  assume b: "b \<le> length xs"
  { assume "x \<in> set (sub_range a b xs)"
    then obtain i where "i < length (sub_range a b xs)" and "sub_range a b xs ! i = x"
      by (metis in_set_conv_nth)
    with b have "i < b - a" and "xs ! (a + i) = x" by auto
    then show "\<exists>i. a \<le> i \<and> i < b \<and> xs ! i = x" by (intro exI[of _ "a + i"]) auto }
  { assume "\<exists>i. a \<le> i \<and> i < b \<and> xs ! i = x"
    then obtain i where i: "a \<le> i" "i < b" "xs ! i = x" by auto
    then have "sub_range a b xs ! (i - a) = x" using b by simp
    then show "x \<in> set (sub_range a b xs)" using i b by (metis diff_less_mono length_sub_range nth_mem) }
qed

lemma count_sub_range:
  "a \<le> b \<Longrightarrow> count_list (take b xs) c = count_list (take a xs) c + count_list (sub_range a b xs) c"
  unfolding sub_range_def by (rule count_list_take_drop)

text \<open>\<open>pat\<close> occurs in \<open>xs\<close> at offset \<open>i\<close>, entirely inside it.\<close>

definition occurs_at :: "'a list \<Rightarrow> 'a list \<Rightarrow> nat \<Rightarrow> bool" where
  "occurs_at pat xs i \<longleftrightarrow> i + length pat \<le> length xs \<and> take (length pat) (drop i xs) = pat"

lemma occurs_at_nth:
  "occurs_at pat xs i \<longleftrightarrow>
     i + length pat \<le> length xs \<and> (\<forall>k < length pat. xs ! (i + k) = pat ! k)"
  unfolding occurs_at_def by (auto simp: list_eq_iff_nth_eq min_def add.commute)

subsection \<open>Characters\<close>

text \<open>\<open>std::isspace\<close> in the C locale.\<close>

definition isspace :: "char \<Rightarrow> bool" where
  "isspace c \<longleftrightarrow> c \<in> {CHR '' '', CHR 0x09, CHR 0x0A, CHR 0x0B, CHR 0x0C, CHR 0x0D}"

end
