(* ===== verification/StringUtil.thy ===== *)
theory StringUtil
  imports Prelude
begin

text \<open>
  The string helpers of \<open>src/libext/string.hpp\<close>: \<open>split\<close>, which cuts a string at a delimiter and
  drops empty elements, and \<open>join\<close>, which concatenates a container of strings with a separator.
  The command-line and file-type parsers are built on them.
\<close>

subsection \<open>Definitions\<close>

text \<open>
  \<open>std::getline(stream, element, delimiter)\<close> on a string stream that still holds \<open>s\<close>: it fails
  (\<open>None\<close>) when nothing is left to extract; otherwise it extracts up to the delimiter or the end,
  and discards the delimiter.
\<close>

definition getline :: "char \<Rightarrow> string \<Rightarrow> (string \<times> string) option" where
  "getline d s =
     (if s = [] then None
      else Some (takeWhile (\<lambda>c. c \<noteq> d) s, drop 1 (dropWhile (\<lambda>c. c \<noteq> d) s)))"

lemma getline_shorter: "getline d s = Some (e, r) \<Longrightarrow> length r < length s"
  using length_dropWhile_le[of "\<lambda>c. c \<noteq> d" s]
  by (cases s) (auto simp: getline_def intro: le_less_trans[OF diff_le_mono])

text \<open>The loop of \<open>split\<close>: \<open>retval\<close> is the vector built so far.\<close>

function split_loop :: "char \<Rightarrow> string \<Rightarrow> string list \<Rightarrow> string list" where
  "split_loop d ss retval =
     (case getline d ss of
        None \<Rightarrow> retval
      | Some (element, rest) \<Rightarrow>
          split_loop d rest (if element \<noteq> [] then retval @ [element] else retval))"
  by pat_completeness auto
termination
  by (relation "measure (\<lambda>(d, ss, retval). length ss)") (auto dest: getline_shorter)

declare split_loop.simps [simp del]

definition split :: "string \<Rightarrow> char \<Rightarrow> string list" where
  "split s delimiter = split_loop delimiter s []"

text \<open>
  \<open>join\<close>: a separator goes in front of an entry only when the result so far is non-empty and the
  separator is. (The first pass over the container only reserves memory.)
\<close>

fun join_loop :: "string \<Rightarrow> string list \<Rightarrow> string \<Rightarrow> string" where
  "join_loop separator [] retval = retval"
| "join_loop separator (entry # es) retval =
     join_loop separator es
       ((if length retval \<noteq> 0 \<and> length separator \<noteq> 0 then retval @ separator else retval) @ entry)"

definition join :: "string list \<Rightarrow> string \<Rightarrow> string" where
  "join container separator = join_loop separator container []"

subsection \<open>Splitting\<close>

text \<open>The fields of a string: what lies between delimiters, empty fields included.\<close>

fun str_fields :: "char \<Rightarrow> string \<Rightarrow> string list" where
  "str_fields d [] = [[]]"
| "str_fields d (c # cs) =
     (if c = d then [] # str_fields d cs
      else (case str_fields d cs of f # fs \<Rightarrow> (c # f) # fs | [] \<Rightarrow> [[c]]))"

lemma fields_nonempty [simp]: "str_fields d s \<noteq> []"
  by (induction s) (auto split: list.splits)

lemma fields_unfold:
  "str_fields d s =
     (if d \<in> set s
      then takeWhile (\<lambda>c. c \<noteq> d) s # str_fields d (drop 1 (dropWhile (\<lambda>c. c \<noteq> d) s))
      else [s])"
  by (induction s) auto

lemma split_loop_fields: "split_loop d s retval = retval @ filter (\<lambda>f. f \<noteq> []) (str_fields d s)"
proof (induction d s retval rule: split_loop.induct)
  case (1 d ss retval)
  show ?case
  proof (cases "ss = []")
    case True
    then show ?thesis by (subst split_loop.simps) (simp add: getline_def)
  next
    case False
    define e where "e = takeWhile (\<lambda>c. c \<noteq> d) ss"
    define r where "r = drop 1 (dropWhile (\<lambda>c. c \<noteq> d) ss)"
    from False have g: "getline d ss = Some (e, r)" by (simp add: getline_def e_def r_def)
    have "split_loop d ss retval = split_loop d r (if e \<noteq> [] then retval @ [e] else retval)"
      by (subst split_loop.simps) (simp add: g)
    also have "\<dots> = (if e \<noteq> [] then retval @ [e] else retval) @ filter (\<lambda>f. f \<noteq> []) (str_fields d r)"
      using "1.IH"[OF g] by simp
    also have "\<dots> = retval @ filter (\<lambda>f. f \<noteq> []) (str_fields d ss)"
    proof (cases "d \<in> set ss")
      case True
      then show ?thesis by (subst (2) fields_unfold) (simp add: e_def r_def)
    next
      case d: False
      then have "takeWhile (\<lambda>c. c \<noteq> d) ss = ss" and "dropWhile (\<lambda>c. c \<noteq> d) ss = []"
        by (auto simp: takeWhile_eq_all_conv dropWhile_eq_Nil_conv)
      then have "e = ss" and "r = []" by (simp_all only: e_def r_def drop_Nil)
      with d show ?thesis using False by (subst (2) fields_unfold) simp
    qed
    finally show ?thesis .
  qed
qed

lemma split_fields: "split s d = filter (\<lambda>f. f \<noteq> []) (str_fields d s)"
  by (simp add: split_def split_loop_fields)

lemma fields_no_delimiter: "f \<in> set (str_fields d s) \<Longrightarrow> d \<notin> set f"
proof (induction s arbitrary: f)
  case (Cons c s)
  then show ?case by (auto split: list.splits if_splits) 
qed simp

lemma fields_subset: "f \<in> set (str_fields d s) \<Longrightarrow> set f \<subseteq> set s"
proof (induction s arbitrary: f)
  case (Cons c s)
  then show ?case by (fastforce split: list.splits if_splits)
qed simp

lemma split_subset: "e \<in> set (split s d) \<Longrightarrow> set e \<subseteq> set s"
  by (auto simp: split_fields dest: fields_subset)

lemma split_elements: "e \<in> set (split s d) \<Longrightarrow> e \<noteq> [] \<and> d \<notin> set e"
  by (auto simp: split_fields dest: fields_no_delimiter)

lemma fields_single: "d \<notin> set s \<Longrightarrow> str_fields d s = [s]"
  by (subst fields_unfold) simp

lemma fields_append: "d \<notin> set s \<Longrightarrow> str_fields d (s @ d # t) = s # str_fields d t"
  by (induction s) auto

lemma split_no_delimiter: "d \<notin> set s \<Longrightarrow> split s d = (if s = [] then [] else [s])"
  by (simp add: split_fields fields_single)

lemma split_append: "d \<notin> set s \<Longrightarrow> split (s @ d # t) d = (if s = [] then [] else [s]) @ split t d"
  by (simp add: split_fields fields_append)

subsection \<open>Joining\<close>

lemma join_loop_nonempty:
  "retval \<noteq> [] \<Longrightarrow> separator \<noteq> [] \<Longrightarrow>
     join_loop separator es retval = retval @ concat (map (\<lambda>e. separator @ e) es)"
  by (induction es arbitrary: retval) auto

lemma join_Nil [simp]: "join [] sep = []"
  by (simp add: join_def)

lemma join_singleton [simp]: "join [e] sep = e"
  by (simp add: join_def)

lemma join_Cons:
  "e \<noteq> [] \<Longrightarrow> sep \<noteq> [] \<Longrightarrow> join (e # es) sep = e @ concat (map (\<lambda>x. sep @ x) es)"
  by (simp add: join_def join_loop_nonempty)

lemma join_Cons2:
  "e \<noteq> [] \<Longrightarrow> f \<noteq> [] \<Longrightarrow> sep \<noteq> [] \<Longrightarrow> join (e # f # es) sep = e @ sep @ join (f # es) sep"
  by (simp add: join_Cons)

lemma split_join_roundtrip:
  assumes "\<And>e. e \<in> set es \<Longrightarrow> e \<noteq> [] \<and> d \<notin> set e"
  shows "split (join es [d]) d = es"
  using assms
proof (induction es)
  case Nil
  show ?case by (simp add: split_no_delimiter)
next
  case (Cons e es)
  show ?case
  proof (cases es)
    case Nil
    with Cons.prems show ?thesis by (simp add: split_no_delimiter)
  next
    case (Cons f fs)
    have IH: "split (join es [d]) d = es" using Cons.IH Cons.prems by simp
    have "join (e # es) [d] = e @ d # join es [d]"
      using Cons.prems Cons by (simp add: join_Cons2)
    with IH Cons.prems show ?thesis by (simp add: split_append)
  qed
qed

end
