(* ===== verification/Integers.thy ===== *)
theory Integers
  imports Prelude
begin

unbundle bit_operations_syntax

text \<open>
  The fixed-width integer helpers of \<open>src/libext/integer.hpp\<close>: power-of-two test, clamping, the
  byte tricks the microstrings use (\<open>countnonzeros\<close>, \<open>bswap\<close>, \<open>host_to_be\<close>) and the bit scans of
  the vectorised searches (\<open>popcount16\<close>, \<open>find_first_set_bit\<close>). Values are words of the code's
  width. The host is little-endian, the only byte order the code's byte-swapping branch serves;
  the compiler builtins (\<open>__builtin_bswap64\<close>, \<open>__builtin_ffs\<close>) are written out as documented.
\<close>

subsection \<open>Definitions\<close>

definition is_power_of_2 :: "'a::len word \<Rightarrow> bool" where
  "is_power_of_2 val \<longleftrightarrow> val \<noteq> 0 \<and> \<not> (val AND (val - 1)) \<noteq> 0"

definition clamp :: "int \<Rightarrow> int \<Rightarrow> int \<Rightarrow> int" where
  "clamp val lo hi = (if val > hi then hi else (if val < lo then lo else val))"

definition haszero :: "64 word \<Rightarrow> bool" where
  "haszero x \<longleftrightarrow> ((x - 0x0101010101010101) AND (NOT x AND 0x8080808080808080)) \<noteq> 0"

definition countnonzeros :: "64 word \<Rightarrow> 8 word" where
  "countnonzeros x =
       of_bool ((x AND 0xFF) > 0)
     + of_bool ((x AND 0xFF00) > 0)
     + of_bool ((x AND 0xFF0000) > 0)
     + of_bool ((x AND 0xFF000000) > 0)
     + of_bool ((x AND 0xFF00000000) > 0)
     + of_bool ((x AND 0xFF0000000000) > 0)
     + of_bool ((x AND 0xFF000000000000) > 0)
     + of_bool ((x AND 0xFF00000000000000) > 0)"

text \<open>\<open>__builtin_bswap64\<close>: byte \<open>i\<close> of the argument becomes byte \<open>7 - i\<close> of the result.\<close>

definition bswap64 :: "64 word \<Rightarrow> 64 word" where
  "bswap64 x =
     push_bit 56 (x AND 0xFF)
     OR push_bit 40 (x AND 0xFF00)
     OR push_bit 24 (x AND 0xFF0000)
     OR push_bit 8 (x AND 0xFF000000)
     OR drop_bit 8 (x AND 0xFF00000000)
     OR drop_bit 24 (x AND 0xFF0000000000)
     OR drop_bit 40 (x AND 0xFF000000000000)
     OR drop_bit 56 (x AND 0xFF00000000000000)"

definition host_to_be :: "64 word \<Rightarrow> 64 word" where
  "host_to_be x = bswap64 x"

subsection \<open>Clearing the lowest set bit\<close>

definition lowest_bit :: "'a::len word \<Rightarrow> nat" where
  "lowest_bit x = (LEAST k. bit x k)"

lemma bit_lowest_bit: "x \<noteq> 0 \<Longrightarrow> bit x (lowest_bit x)"
  unfolding lowest_bit_def by (metis LeastI bit_eq_iff bit_0_eq bot_apply bot_bool_def)

lemma below_lowest_bit: "i < lowest_bit x \<Longrightarrow> \<not> bit x i"
  unfolding lowest_bit_def by (rule not_less_Least)

lemma clear_lowest_bit:
  fixes x :: "'a::len word"
  assumes "x \<noteq> 0"
  shows "x AND (x - 1) = unset_bit (lowest_bit x) x"
proof -
  let ?k = "lowest_bit x"
  let ?z = "unset_bit ?k x"
  have k: "bit x ?k" using assms by (rule bit_lowest_bit)
  then have kl: "?k < LENGTH('a)" by (rule bit_imp_le_length)
  have x: "x = ?z + push_bit ?k 1"
  proof -
    have "?z + push_bit ?k 1 = ?z OR push_bit ?k 1"
      by (rule disjunctive_add) (auto simp: bit_unset_bit_iff bit_simps)
    also have "\<dots> = x" by (rule bit_word_eqI) (use k kl in \<open>auto simp: bit_unset_bit_iff bit_simps\<close>)
    finally show ?thesis by simp
  qed
  have "x - 1 = ?z + mask ?k"
    by (subst x) (simp add: mask_eq_exp_minus_1 push_bit_eq_mult)
  also have "\<dots> = ?z OR mask ?k"
    by (rule disjunctive_add) (auto simp: bit_unset_bit_iff bit_mask_iff below_lowest_bit)
  finally have "x - 1 = ?z OR mask ?k" .
  then show ?thesis
    by (intro bit_word_eqI)
       (auto simp: bit_and_iff bit_or_iff bit_unset_bit_iff bit_mask_iff below_lowest_bit)
qed

lemma Collect_bot_empty [simp]: "Collect bot = {}"
  by auto

lemma finite_bits [simp]: "finite {i. bit (x :: 'a::len word) i \<and> P i}"
  by (rule finite_subset[of _ "{..<LENGTH('a)}"]) (auto dest: bit_imp_le_length)

lemma card_clear_lowest_bit:
  fixes x :: "'a::len word"
  assumes "x \<noteq> 0"
  shows "card {i. bit x i} = Suc (card {i. bit (x AND (x - 1)) i})"
proof -
  have "{i. bit x i} = insert (lowest_bit x) {i. bit (x AND (x - 1)) i}"
    using assms by (auto simp: clear_lowest_bit bit_unset_bit_iff bit_lowest_bit)
  then show ?thesis
    using assms by (simp add: clear_lowest_bit bit_unset_bit_iff)
qed

lemma is_power_of_2_iff:
  fixes x :: "'a::len word"
  shows "is_power_of_2 x \<longleftrightarrow> (\<exists>n < LENGTH('a). x = push_bit n 1)"
proof
  assume p: "is_power_of_2 x"
  then have nz: "x \<noteq> 0" and z: "unset_bit (lowest_bit x) x = 0"
    by (auto simp: is_power_of_2_def clear_lowest_bit)
  have "bit x i \<longleftrightarrow> i = lowest_bit x" for i
    using z bit_lowest_bit[OF nz] by (metis bit_0_eq bit_unset_bit_iff bot_apply bot_bool_def)
  then have "x = push_bit (lowest_bit x) 1"
    using bit_imp_le_length[OF bit_lowest_bit[OF nz]] by (intro bit_word_eqI) (auto simp: bit_simps)
  then show "\<exists>n < LENGTH('a). x = push_bit n 1"
    using bit_imp_le_length[OF bit_lowest_bit[OF nz]] by blast
next
  assume "\<exists>n < LENGTH('a). x = push_bit n 1"
  then obtain n where n: "n < LENGTH('a)" "x = push_bit n 1" by auto
  then have b: "bit x i \<longleftrightarrow> i = n" for i by (auto simp: bit_simps)
  then have nz: "x \<noteq> 0" by (metis bit_0_eq bot_apply bot_bool_def)
  have "lowest_bit x = n" using bit_lowest_bit[OF nz] b by simp
  then have "unset_bit (lowest_bit x) x = 0"
    by (intro bit_word_eqI) (auto simp: bit_unset_bit_iff b)
  with nz show "is_power_of_2 x" by (simp add: is_power_of_2_def clear_lowest_bit)
qed

subsection \<open>Population count and bit scan\<close>

text \<open>The Kernighan loop: one iteration per set bit.\<close>

function popcount16_loop :: "16 word \<Rightarrow> 8 word \<Rightarrow> 8 word" where
  "popcount16_loop bits num_set_bits =
     (if bits \<noteq> 0 then popcount16_loop (bits AND (bits - 1)) (num_set_bits + 1) else num_set_bits)"
  by pat_completeness auto
termination
  by (relation "measure (\<lambda>(bits, n). card {i. bit bits i})")
     (auto simp: card_clear_lowest_bit)

declare popcount16_loop.simps [simp del]

definition popcount16 :: "16 word \<Rightarrow> 8 word" where
  "popcount16 bits = popcount16_loop bits 0"

text \<open>\<open>__builtin_ffs\<close>: 0 for 0, otherwise one plus the index of the lowest set bit.\<close>

definition find_first_set_bit :: "32 word \<Rightarrow> nat" where
  "find_first_set_bit bits = (if bits = 0 then 0 else Suc (find_if (bit bits) [0..<32]))"

lemma popcount16_loop_card:
  "popcount16_loop bits n = n + of_nat (card {i. bit bits i})"
proof (induction bits n rule: popcount16_loop.induct)
  case (1 bits n)
  show ?case
  proof (cases "bits = 0")
    case True
    then show ?thesis by (subst popcount16_loop.simps) simp
  next
    case False
    with "1.IH" show ?thesis
      by (subst popcount16_loop.simps) (simp add: card_clear_lowest_bit)
  qed
qed

lemma card_bits_le: "card {i. bit (x :: 'a::len word) i} \<le> LENGTH('a)"
proof -
  have "{i. bit x i} \<subseteq> {..<LENGTH('a)}" by (auto dest: bit_imp_le_length)
  then show ?thesis using card_mono[of "{..<LENGTH('a)}"] by fastforce
qed

lemma popcount16_card: "unat (popcount16 bits) = card {i. bit bits i}"
proof -
  have "card {i. bit bits i} < 2 ^ 8" using card_bits_le[of bits] by simp
  then show ?thesis by (simp add: popcount16_def popcount16_loop_card unat_of_nat)
qed

lemma find_first_set_bit_zero [simp]: "find_first_set_bit 0 = 0"
  by (simp add: find_first_set_bit_def)

lemma find_first_set_bit_lowest:
  assumes "bits \<noteq> 0"
  shows "find_first_set_bit bits = Suc (lowest_bit bits)"
proof -
  have l: "lowest_bit bits < 32" using bit_imp_le_length[OF bit_lowest_bit[OF assms]] by simp
  have "find_if (bit bits) [0..<32] = lowest_bit bits"
    by (rule find_if_eqI) (use l assms in \<open>auto simp: below_lowest_bit bit_lowest_bit\<close>)
  with assms show ?thesis by (simp add: find_first_set_bit_def)
qed

subsection \<open>Bytes of a 64-bit value\<close>

definition byte_of :: "64 word \<Rightarrow> nat \<Rightarrow> 8 word" where
  "byte_of x i = ucast (drop_bit (8 * i) x)"

lemma bit_byte_of [bit_simps]: "bit (byte_of x i) n \<longleftrightarrow> n < 8 \<and> bit x (8 * i + n)"
  by (simp add: byte_of_def bit_simps)

text \<open>The byte masks of \<open>countnonzeros\<close> and \<open>bswap64\<close>.\<close>

lemma byte_masks:
  "(0xFF :: 64 word) = push_bit (8 * 0) (mask 8)"
  "(0xFF00 :: 64 word) = push_bit (8 * 1) (mask 8)"
  "(0xFF0000 :: 64 word) = push_bit (8 * 2) (mask 8)"
  "(0xFF000000 :: 64 word) = push_bit (8 * 3) (mask 8)"
  "(0xFF00000000 :: 64 word) = push_bit (8 * 4) (mask 8)"
  "(0xFF0000000000 :: 64 word) = push_bit (8 * 5) (mask 8)"
  "(0xFF000000000000 :: 64 word) = push_bit (8 * 6) (mask 8)"
  "(0xFF00000000000000 :: 64 word) = push_bit (8 * 7) (mask 8)"
  by (simp_all add: mask_eq_exp_minus_1)

lemma bit_byte_mask:
  "i < 8 \<Longrightarrow> bit (push_bit (8 * i) (mask 8) :: 64 word) n \<longleftrightarrow> 8 * i \<le> n \<and> n < 8 * i + 8"
  by (auto simp: bit_simps)

lemma word_nonzero_bit: "(w :: 'a::len word) \<noteq> 0 \<longleftrightarrow> (\<exists>n. bit w n)"
  by (metis bit_lowest_bit bit_0_eq bot_apply bot_bool_def)

lemma masked_byte_pos:
  assumes "i < 8"
  shows "(x AND push_bit (8 * i) (mask 8)) > 0 \<longleftrightarrow> byte_of x i \<noteq> 0"
proof -
  have "(x AND push_bit (8 * i) (mask 8)) \<noteq> 0 \<longleftrightarrow> (\<exists>n. 8 * i \<le> n \<and> n < 8 * i + 8 \<and> bit x n)"
    by (auto simp: word_nonzero_bit bit_and_iff bit_byte_mask[OF assms])
  also have "\<dots> \<longleftrightarrow> (\<exists>m < 8. bit x (8 * i + m))"
    by (metis le_Suc_ex nat_add_left_cancel_less le_add1)
  also have "\<dots> \<longleftrightarrow> byte_of x i \<noteq> 0"
    by (auto simp: word_nonzero_bit bit_byte_of)
  finally show ?thesis by (simp add: word_gt_0)
qed

lemma masked_bytes:
  "(x AND push_bit (8 * 0) (mask 8)) > 0 \<longleftrightarrow> byte_of x 0 \<noteq> 0"
  "(x AND push_bit (8 * 1) (mask 8)) > 0 \<longleftrightarrow> byte_of x 1 \<noteq> 0"
  "(x AND push_bit (8 * 2) (mask 8)) > 0 \<longleftrightarrow> byte_of x 2 \<noteq> 0"
  "(x AND push_bit (8 * 3) (mask 8)) > 0 \<longleftrightarrow> byte_of x 3 \<noteq> 0"
  "(x AND push_bit (8 * 4) (mask 8)) > 0 \<longleftrightarrow> byte_of x 4 \<noteq> 0"
  "(x AND push_bit (8 * 5) (mask 8)) > 0 \<longleftrightarrow> byte_of x 5 \<noteq> 0"
  "(x AND push_bit (8 * 6) (mask 8)) > 0 \<longleftrightarrow> byte_of x 6 \<noteq> 0"
  "(x AND push_bit (8 * 7) (mask 8)) > 0 \<longleftrightarrow> byte_of x 7 \<noteq> 0"
  by (rule masked_byte_pos, simp)+

definition nonzero_bytes :: "64 word \<Rightarrow> nat" where
  "nonzero_bytes x = card {i. i < 8 \<and> byte_of x i \<noteq> 0}"

lemma card_below_sum: "card {i. i < (n :: nat) \<and> P i} = (\<Sum>i = 0..<n. of_bool (P i))"
proof (induction n)
  case (Suc n)
  have "{k. k < Suc n \<and> P k} = (if P n then insert n {k. k < n \<and> P k} else {k. k < n \<and> P k})"
    by (auto simp add: less_Suc_eq)
  then show ?case using Suc by (simp add: card_insert_if)
qed simp

lemma sum_below_8:
  "(\<Sum>i = 0..<8. f i) = f 0 + f 1 + f 2 + f 3 + f 4 + f 5 + f 6 + f (7 :: nat)"
  by (simp add: eval_nat_numeral)

lemma countnonzeros_card: "unat (countnonzeros x) = nonzero_bytes x"
proof -
  have "nonzero_bytes x \<le> card {..<8::nat}" unfolding nonzero_bytes_def by (rule card_mono) auto
  then have bound: "nonzero_bytes x < 2 ^ 8" by simp
  have "countnonzeros x = (\<Sum>i = 0..<8. of_bool (byte_of x i \<noteq> 0))"
    unfolding countnonzeros_def byte_masks sum_below_8 by (simp only: masked_bytes)
  also have "\<dots> = of_nat (nonzero_bytes x)"
    by (simp add: nonzero_bytes_def card_below_sum)
  finally show ?thesis using bound by (simp add: unat_of_nat)
qed

lemma bit_byte_up:
  assumes "i \<le> j" and "j < 8"
  shows "bit (push_bit (8 * (j - i)) (x AND push_bit (8 * i) (mask 8)) :: 64 word) n \<longleftrightarrow>
           n div 8 = j \<and> bit x (8 * i + n mod 8)"
proof -
  define m :: "64 word" where "m = push_bit (8 * i) (mask 8)"
  have m: "bit m k \<longleftrightarrow> 8 * i \<le> k \<and> k < 8 * i + 8" for k
    using assms by (simp add: m_def bit_byte_mask)
  have "bit (push_bit (8 * (j - i)) (x AND m)) n \<longleftrightarrow>
          n < 64 \<and> 8 * (j - i) \<le> n \<and> bit x (n - 8 * (j - i))
          \<and> 8 * i \<le> n - 8 * (j - i) \<and> n - 8 * (j - i) < 8 * i + 8"
    by (auto simp: bit_push_bit_iff bit_and_iff m)
  also have "\<dots> \<longleftrightarrow> n div 8 = j \<and> bit x (n - 8 * (j - i))"
    using assms by auto
  also have "\<dots> \<longleftrightarrow> n div 8 = j \<and> bit x (8 * i + n mod 8)"
  proof -
    have "n - 8 * (j - i) = 8 * i + n mod 8" if "n div 8 = j"
      using that assms mult_div_mod_eq[of 8 n] by (simp add: diff_mult_distrib2)
    then show ?thesis by auto
  qed
  finally show ?thesis by (simp only: m_def)
qed

lemma bit_byte_down:
  assumes "j \<le> i" and "i < 8"
  shows "bit (drop_bit (8 * (i - j)) (x AND push_bit (8 * i) (mask 8)) :: 64 word) n \<longleftrightarrow>
           n div 8 = j \<and> bit x (8 * i + n mod 8)"
proof -
  define m :: "64 word" where "m = push_bit (8 * i) (mask 8)"
  have m: "bit m k \<longleftrightarrow> 8 * i \<le> k \<and> k < 8 * i + 8" for k
    using assms by (simp add: m_def bit_byte_mask)
  have "bit (drop_bit (8 * (i - j)) (x AND m)) n \<longleftrightarrow>
          bit x (8 * (i - j) + n) \<and> 8 * i \<le> 8 * (i - j) + n \<and> 8 * (i - j) + n < 8 * i + 8"
    by (auto simp: bit_drop_bit_eq bit_and_iff m)
  also have "\<dots> \<longleftrightarrow> n div 8 = j \<and> bit x (8 * (i - j) + n)"
    using assms by auto
  also have "\<dots> \<longleftrightarrow> n div 8 = j \<and> bit x (8 * i + n mod 8)"
  proof -
    have "8 * (i - j) + n = 8 * i + n mod 8" if "n div 8 = j"
      using that assms mult_div_mod_eq[of 8 n] by (simp add: diff_mult_distrib2)
    then show ?thesis by auto
  qed
  finally show ?thesis by (simp only: m_def)
qed

lemma bswap64_bytes:
  "bswap64 x =
     push_bit (8 * (7 - 0)) (x AND push_bit (8 * 0) (mask 8))
     OR push_bit (8 * (6 - 1)) (x AND push_bit (8 * 1) (mask 8))
     OR push_bit (8 * (5 - 2)) (x AND push_bit (8 * 2) (mask 8))
     OR push_bit (8 * (4 - 3)) (x AND push_bit (8 * 3) (mask 8))
     OR drop_bit (8 * (4 - 3)) (x AND push_bit (8 * 4) (mask 8))
     OR drop_bit (8 * (5 - 2)) (x AND push_bit (8 * 5) (mask 8))
     OR drop_bit (8 * (6 - 1)) (x AND push_bit (8 * 6) (mask 8))
     OR drop_bit (8 * (7 - 0)) (x AND push_bit (8 * 7) (mask 8))"
  by (simp add: bswap64_def mask_eq_exp_minus_1)

lemma bit_bswap64:
  "bit (bswap64 x) n \<longleftrightarrow> n < 64 \<and> bit x (8 * (7 - n div 8) + n mod 8)"
proof (cases "n < 64")
  case True
  have "bit (bswap64 x) n \<longleftrightarrow>
      n div 8 = 7 \<and> bit x (8 * 0 + n mod 8) \<or> n div 8 = 6 \<and> bit x (8 * 1 + n mod 8)
    \<or> n div 8 = 5 \<and> bit x (8 * 2 + n mod 8) \<or> n div 8 = 4 \<and> bit x (8 * 3 + n mod 8)
    \<or> n div 8 = 3 \<and> bit x (8 * 4 + n mod 8) \<or> n div 8 = 2 \<and> bit x (8 * 5 + n mod 8)
    \<or> n div 8 = 1 \<and> bit x (8 * 6 + n mod 8) \<or> n div 8 = 0 \<and> bit x (8 * 7 + n mod 8)"
    unfolding bswap64_bytes bit_or_iff
    using bit_byte_up[of 0 7 x n] bit_byte_up[of 1 6 x n] bit_byte_up[of 2 5 x n]
      bit_byte_up[of 3 4 x n] bit_byte_down[of 3 4 x n] bit_byte_down[of 2 5 x n]
      bit_byte_down[of 1 6 x n] bit_byte_down[of 0 7 x n] by (simp only: disj_assoc)
  moreover define q r where "q = n div 8" and "r = n mod 8"
  ultimately have "bit (bswap64 x) n \<longleftrightarrow>
      q = 7 \<and> bit x (8 * 0 + r) \<or> q = 6 \<and> bit x (8 * 1 + r) \<or> q = 5 \<and> bit x (8 * 2 + r)
    \<or> q = 4 \<and> bit x (8 * 3 + r) \<or> q = 3 \<and> bit x (8 * 4 + r) \<or> q = 2 \<and> bit x (8 * 5 + r)
    \<or> q = 1 \<and> bit x (8 * 6 + r) \<or> q = 0 \<and> bit x (8 * 7 + r)"
    by (simp only:)
  moreover from True have "q < 8" by (simp add: q_def less_mult_imp_div_less)
  then have "q = 0 \<or> q = 1 \<or> q = 2 \<or> q = 3 \<or> q = 4 \<or> q = 5 \<or> q = 6 \<or> q = 7" by linarith
  ultimately have "bit (bswap64 x) n \<longleftrightarrow> bit x (8 * (7 - q) + r)" by (elim disjE) simp_all
  with True show ?thesis by (simp only: q_def r_def simp_thms)
qed (auto dest: bit_imp_le_length)

lemma byte_of_bswap64: "i < 8 \<Longrightarrow> byte_of (bswap64 x) i = byte_of x (7 - i)"
  by (rule bit_word_eqI) (auto simp: bit_byte_of bit_bswap64)

lemma bswap64_involution: "bswap64 (bswap64 x) = x"
  by (rule bit_word_eqI) (auto simp: bit_bswap64)

end
