(* ===== verification/Microstring.thy ===== *)
theory Microstring
  imports Integers
begin

unbundle bit_operations_syntax

text \<open>
  The \<open>basic_microstring<uint64_t>\<close> of \<open>src/libext/microstring.hpp\<close>: a string of at most eight bytes
  kept in one 64-bit integer, first character in the most significant byte, so that integer
  comparison orders microstrings like the strings they hold. \<open>TypeManager\<close> keeps its table of short
  filename extensions in this form.
\<close>

subsection \<open>Definitions\<close>

datatype microstring = Microstring (urep: "64 word")

datatype microstring_error = LengthError

definition max_size :: nat where
  "max_size = 8"

text \<open>\<open>storage_start[i] = c\<close>: byte \<open>i\<close> in memory is bits \<open>8 * i\<close> up to \<open>8 * i + 7\<close> of the host integer.\<close>

definition store_byte :: "64 word \<Rightarrow> nat \<Rightarrow> char \<Rightarrow> 64 word" where
  "store_byte m i c = (m AND NOT (push_bit (8 * i) 0xFF)) OR push_bit (8 * i) (of_char c)"

fun copy_bytes :: "64 word \<Rightarrow> nat \<Rightarrow> string \<Rightarrow> 64 word" where
  "copy_bytes m i [] = m"
| "copy_bytes m i (c # cs) = copy_bytes (store_byte m i c) (Suc i) cs"

definition make_microstring :: "string \<Rightarrow> microstring_error + microstring" where
  "make_microstring s =
     (if length s > max_size then Inl LengthError
      else Inr (Microstring (host_to_be (copy_bytes 0 0 s))))"

definition microstring_length :: "microstring \<Rightarrow> nat" where
  "microstring_length m = unat (countnonzeros (urep m))"

definition microstring_empty :: "microstring \<Rightarrow> bool" where
  "microstring_empty m \<longleftrightarrow> urep m = 0"

text \<open>The conversion to \<open>std::string\<close> copies \<open>length()\<close> bytes of the byte-swapped storage.\<close>

definition microstring_string :: "microstring \<Rightarrow> string" where
  "microstring_string m =
     (let tmp = host_to_be (urep m)
      in map (\<lambda>i. char_of (unat (byte_of tmp i))) [0..<microstring_length m])"

text \<open>\<open>operator<\<close> and \<open>operator==\<close> compare the storage as an integer; this gives a linear order.\<close>

definition microstring_lt :: "microstring \<Rightarrow> microstring \<Rightarrow> bool" where
  "microstring_lt a b \<longleftrightarrow> urep a < urep b"

definition microstring_eq :: "microstring \<Rightarrow> microstring \<Rightarrow> bool" where
  "microstring_eq a b \<longleftrightarrow> urep a = urep b"

lemma microstring_eq_equal [simp]: "microstring_eq a b \<longleftrightarrow> a = b"
  by (auto simp: microstring_eq_def intro: microstring.expand)

instantiation microstring :: linorder
begin

definition less_microstring :: "microstring \<Rightarrow> microstring \<Rightarrow> bool" where
  "less_microstring = microstring_lt"

definition less_eq_microstring :: "microstring \<Rightarrow> microstring \<Rightarrow> bool" where
  "less_eq_microstring a b \<longleftrightarrow> microstring_lt a b \<or> microstring_eq a b"

instance
  by standard (auto simp: less_microstring_def less_eq_microstring_def microstring_lt_def,
    metis linorder_less_linear microstring.expand)

end

subsection \<open>The bytes of the storage\<close>

lemma bit_nat_less: "x < 2 ^ k \<Longrightarrow> bit (x :: nat) n \<Longrightarrow> n < k"
  by (metis bit_iff_odd div_less even_zero leI less_exp order_less_le_trans power_increasing_iff
      one_less_numeral_iff semiring_norm(76))

lemma unat_of_char [simp]: "unat (of_char c :: 8 word) = of_char c"
proof -
  have "unat (of_nat (of_char c :: nat) :: 8 word) = of_char c"
    by (simp only: unat_of_nat) (simp add: nat_of_char_less_256)
  then show ?thesis by (simp only: of_nat_of_char)
qed

lemma char_of_unat_of_char [simp]: "char_of (unat (of_char c :: 8 word)) = c"
  by simp

lemma of_char_byte_eq_iff [simp]: "(of_char c :: 8 word) = of_char d \<longleftrightarrow> c = d"
  by (metis char_of_unat_of_char)

lemma of_char_byte_less_iff [simp]: "(of_char c :: 8 word) < of_char d \<longleftrightarrow> c < d"
  by (simp add: word_less_nat_alt less_char_def)

lemma of_char_byte_0_iff [simp]: "(of_char c :: 8 word) = 0 \<longleftrightarrow> c = NUL"
proof -
  have "(0 :: 8 word) = of_char NUL" by simp
  then show ?thesis by (metis of_char_byte_eq_iff)
qed

lemma bit_unat: "bit (unat w) n \<longleftrightarrow> bit w n"
  by (simp add: bit_unsigned_iff)

lemma unat_of_char64: "unat (of_char c :: 64 word) = of_char c"
proof -
  have "unat (of_nat (of_char c :: nat) :: 64 word) = of_char c"
    by (simp only: unat_of_nat)
       (rule mod_less, rule order.strict_trans[OF nat_of_char_less_256], simp)
  then show ?thesis by (simp only: of_nat_of_char)
qed

lemma bit_of_char64: "bit (of_char c :: 64 word) n \<longleftrightarrow> n < 8 \<and> bit (of_char c :: 8 word) n"
proof -
  have "bit (of_char c :: 64 word) n \<longleftrightarrow> bit (of_char c :: nat) n"
    by (simp only: unat_of_char64 flip: bit_unat)
  moreover have "bit (of_char c :: 8 word) n \<longleftrightarrow> bit (of_char c :: nat) n"
    by (simp only: unat_of_char flip: bit_unat)
  moreover have "bit (of_char c :: nat) n \<Longrightarrow> n < 8"
    by (rule bit_nat_less[where x = "of_char c"]) (use nat_of_char_less_256 in simp_all)
  ultimately show ?thesis by auto
qed

lemma byte_of_store_byte:
  assumes "i < 8" and "j < 8"
  shows "byte_of (store_byte m i c) j = (if j = i then of_char c else byte_of m j)"
proof (rule bit_word_eqI)
  fix n assume "n < LENGTH(8)"
  then have n: "n < 8" by simp
  define F :: "64 word" where "F = push_bit (8 * i) 0xFF"
  have ff: "bit F k \<longleftrightarrow> 8 * i \<le> k \<and> k < 8 * i + 8" for k
    using bit_byte_mask[OF assms(1), of k] by (simp add: F_def mask_eq_exp_minus_1)
  show "bit (byte_of (store_byte m i c) j) n = bit (if j = i then of_char c else byte_of m j) n"
    using n assms unfolding store_byte_def F_def[symmetric]
    by (auto simp: bit_byte_of bit_or_iff bit_and_iff bit_not_iff ff bit_push_bit_iff
        bit_of_char64 dest: bit_imp_le_length)
qed

lemma byte_of_0: "byte_of 0 i = 0"
  by (simp add: byte_of_def)

lemma byte_of_copy_bytes:
  assumes "i + length s \<le> 8" and "j < 8"
  shows "byte_of (copy_bytes m i s) j =
           (if i \<le> j \<and> j < i + length s then of_char (s ! (j - i)) else byte_of m j)"
  using assms
proof (induction m i s rule: copy_bytes.induct)
  case (2 m i c cs)
  then have IH: "byte_of (copy_bytes (store_byte m i c) (Suc i) cs) j =
      (if Suc i \<le> j \<and> j < Suc i + length cs then of_char (cs ! (j - Suc i))
       else byte_of (store_byte m i c) j)"
    by simp
  have "byte_of (store_byte m i c) j = (if j = i then of_char c else byte_of m j)"
    by (rule byte_of_store_byte) (use 2 in auto)
  then show ?case unfolding copy_bytes.simps IH
    by (auto simp: nth_Cons' Suc_diff_Suc)
qed auto

text \<open>The storage of a microstring: its bytes from the most significant one are the string, then zeros.\<close>

lemma make_microstring_cases:
  "make_microstring s = (if length s \<le> 8 then Inr (Microstring (bswap64 (copy_bytes 0 0 s))) else Inl LengthError)"
  by (simp add: make_microstring_def max_size_def host_to_be_def)

lemma urep_bytes:
  assumes "make_microstring s = Inr m" and "i < 8"
  shows "byte_of (urep m) (7 - i) = (if i < length s then of_char (s ! i) else 0)"
proof -
  have s: "length s \<le> 8" "m = Microstring (bswap64 (copy_bytes 0 0 s))"
    using assms(1) by (auto simp: make_microstring_cases split: if_splits)
  have "byte_of (urep m) (7 - i) = byte_of (copy_bytes 0 0 s) i"
    using assms(2) by (simp add: s(2) byte_of_bswap64)
  then show ?thesis using s(1) assms(2) by (simp add: byte_of_copy_bytes byte_of_0)
qed

subsection \<open>Comparison\<close>

text \<open>The value of a big-endian byte list.\<close>

fun be_value :: "8 word list \<Rightarrow> nat" where
  "be_value [] = 0"
| "be_value (b # bs) = unat b * 256 ^ length bs + be_value bs"

lemma be_value_less: "be_value bs < 256 ^ length bs"
proof (induction bs)
  case (Cons b bs)
  have "unat b * 256 ^ length bs + be_value bs < (unat b + 1) * 256 ^ length bs"
    using Cons by simp
  also have "\<dots> \<le> 256 * 256 ^ length bs"
    using unsigned_less[of b, where 'a = nat] by (intro mult_le_mono1) simp
  finally show ?case by simp
qed simp

lemma be_value_less_iff:
  "length bs = length cs \<Longrightarrow> be_value bs < be_value cs \<longleftrightarrow> bs < cs"
proof (induction bs cs rule: list_induct2)
  case (Cons b bs c cs)
  let ?M = "256 ^ length bs :: nat"
  have B: "be_value bs < ?M" "be_value cs < ?M"
    using be_value_less[of bs] be_value_less[of cs] Cons.hyps by simp_all
  consider "b < c" | "b = c" | "c < b" by (rule linorder_cases)
  then show ?case
  proof cases
    case 1
    then have "(unat b + 1) * ?M \<le> unat c * ?M"
      by (intro mult_le_mono1) (simp add: word_less_nat_alt)
    with B 1 Cons.hyps show ?thesis by auto
  next
    case 2
    with Cons show ?thesis by auto
  next
    case 3
    then have "(unat c + 1) * ?M \<le> unat b * ?M"
      by (intro mult_le_mono1) (simp add: word_less_nat_alt)
    with B 3 Cons.hyps show ?thesis by auto
  qed
qed simp

definition be_bytes :: "nat \<Rightarrow> 64 word \<Rightarrow> 8 word list" where
  "be_bytes n x = rev (map (byte_of x) [0..<n])"

lemma be_bytes_Suc: "be_bytes (Suc n) x = byte_of x n # be_bytes n x"
  by (simp add: be_bytes_def)

lemma unat_byte_of: "unat (byte_of x n) = unat x div 256 ^ n mod 256"
proof -
  have "unat (byte_of x n) = take_bit 8 (drop_bit (8 * n) (unat x))"
    by (simp add: byte_of_def unsigned_ucast_eq unat_drop_bit_eq)
  then show ?thesis by (simp add: drop_bit_eq_div take_bit_eq_mod power_mult)
qed

lemma be_value_be_bytes: "be_value (be_bytes n x) = unat x mod 256 ^ n"
proof (induction n)
  case (Suc n)
  have "length (be_bytes n x) = n" by (simp add: be_bytes_def)
  then have "be_value (be_bytes (Suc n) x) = unat x div 256 ^ n mod 256 * 256 ^ n + unat x mod 256 ^ n"
    by (simp add: be_bytes_Suc unat_byte_of Suc)
  also have "\<dots> = unat x mod (256 ^ n * 256)"
    using mod_mult2_eq[of "unat x" "256 ^ n" 256] by (simp add: mult.commute)
  finally show ?case by (simp add: mult.commute)
qed (simp add: be_bytes_def)

lemma word_less_be_bytes: "x < y \<longleftrightarrow> be_bytes 8 x < be_bytes 8 y"
proof -
  have "be_value (be_bytes 8 z) = unat z" for z :: "64 word"
    using unsigned_less[of z, where 'a = nat] by (simp add: be_value_be_bytes)
  moreover have "length (be_bytes 8 x) = length (be_bytes 8 y)"
    by (simp add: be_bytes_def)
  ultimately show ?thesis
    using be_value_less_iff[of "be_bytes 8 x" "be_bytes 8 y"] by (simp add: word_less_nat_alt)
qed

text \<open>A string padded with zero bytes to a given width.\<close>

definition pad :: "nat \<Rightarrow> string \<Rightarrow> 8 word list" where
  "pad n s = map of_char s @ replicate (n - length s) 0"

lemma be_bytes_make:
  assumes "make_microstring s = Inr m"
  shows "be_bytes 8 (urep m) = pad 8 s"
proof (rule nth_equalityI)
  have len: "length s \<le> 8" using assms by (auto simp: make_microstring_cases split: if_splits)
  then show "length (be_bytes 8 (urep m)) = length (pad 8 s)"
    by (simp add: be_bytes_def pad_def)
  fix i assume "i < length (be_bytes 8 (urep m))"
  then have i: "i < 8" by (simp add: be_bytes_def)
  have "be_bytes 8 (urep m) ! i = byte_of (urep m) (7 - i)"
    using i by (simp add: be_bytes_def rev_nth)
  then show "be_bytes 8 (urep m) ! i = pad 8 s ! i"
    using i len urep_bytes[OF assms i] by (simp add: pad_def nth_append)
qed

lemma pad_less_iff:
  assumes "NUL \<notin> set s" and "NUL \<notin> set t" and "length s \<le> n" and "length t \<le> n"
  shows "pad n s < pad n t \<longleftrightarrow> s < t"
  using assms
proof (induction s arbitrary: t n)
  case Nil
  show ?case
  proof (cases t)
    case (Cons d t')
    with Nil obtain m where n: "n = Suc m" by (cases n) auto
    have "(0 :: 8 word) < of_char d"
      using Nil Cons by (auto simp: word_gt_0)
    then show ?thesis using Cons n by (simp add: pad_def)
  qed (simp add: pad_def)
next
  case (Cons c s)
  then obtain m where n: "n = Suc m" by (cases n) auto
  show ?case
  proof (cases t)
    case Nil
    have "(0 :: 8 word) < of_char c" using Cons.prems by (auto simp: word_gt_0)
    then show ?thesis using Nil n by (auto simp: pad_def)
  next
    case (Cons d t')
    with Cons.prems Cons.IH[of t' m] n show ?thesis by (simp add: pad_def)
  qed
qed

lemma pad_inject:
  assumes "NUL \<notin> set s" and "NUL \<notin> set t" and "length s \<le> n" and "length t \<le> n"
  shows "pad n s = pad n t \<longleftrightarrow> s = t"
  using pad_less_iff[OF assms] pad_less_iff[OF assms(2,1,4,3)]
  by (metis linorder_neq_iff)

lemma microstring_less_iff:
  assumes "make_microstring s = Inr a" and "make_microstring t = Inr b"
    and "NUL \<notin> set s" and "NUL \<notin> set t"
  shows "a < b \<longleftrightarrow> s < t"
proof -
  have "length s \<le> 8" "length t \<le> 8"
    using assms by (auto simp: make_microstring_cases split: if_splits)
  with assms show ?thesis
    by (simp add: less_microstring_def microstring_lt_def word_less_be_bytes be_bytes_make pad_less_iff)
qed

lemma microstring_eq_iff:
  assumes "make_microstring s = Inr a" and "make_microstring t = Inr b"
    and "NUL \<notin> set s" and "NUL \<notin> set t"
  shows "a = b \<longleftrightarrow> s = t"
  using microstring_less_iff[OF assms] microstring_less_iff[OF assms(2,1,4,3)]
  by (metis linorder_neq_iff)

subsection \<open>Round trip\<close>

lemma microstring_length_make:
  assumes "make_microstring s = Inr m" and "NUL \<notin> set s"
  shows "microstring_length m = length s"
proof -
  have len: "length s \<le> 8" using assms by (auto simp: make_microstring_cases split: if_splits)
  have "byte_of (urep m) i \<noteq> 0 \<longleftrightarrow> 7 - i < length s" if "i < 8" for i
  proof -
    have "7 - (7 - i) = i" using that by simp
    then have "byte_of (urep m) i = (if 7 - i < length s then of_char (s ! (7 - i)) else 0)"
      using urep_bytes[OF assms(1), of "7 - i"] by simp
    moreover have "7 - i < length s \<Longrightarrow> s ! (7 - i) \<noteq> NUL"
      using assms(2) by (metis nth_mem)
    ultimately show ?thesis by simp
  qed
  then have "{i. i < 8 \<and> byte_of (urep m) i \<noteq> 0} = {i. i < 8 \<and> 7 - i < length s}"
    by blast
  also have "\<dots> = {8 - length s..<8}"
    using len by auto
  finally have "{i. i < 8 \<and> byte_of (urep m) i \<noteq> 0} = {8 - length s..<8}" .
  then show ?thesis
    using len by (simp add: microstring_length_def countnonzeros_card nonzero_bytes_def)
qed

lemma microstring_roundtrip:
  assumes "make_microstring s = Inr m" and "NUL \<notin> set s"
  shows "microstring_string m = s"
proof (rule nth_equalityI)
  have len: "length s \<le> 8" using assms by (auto simp: make_microstring_cases split: if_splits)
  show l: "length (microstring_string m) = length s"
    by (simp add: microstring_string_def Let_def microstring_length_make[OF assms])
  fix i assume "i < length (microstring_string m)"
  then have i: "i < length s" by (simp add: l)
  then show "microstring_string m ! i = s ! i"
    using len urep_bytes[OF assms(1), of i]
    by (simp add: microstring_string_def Let_def microstring_length_make[OF assms] host_to_be_def
        byte_of_bswap64)
qed

subsection \<open>Properties\<close>

text \<open>
  C25. For strings without NUL: a microstring is built from exactly those of at most eight bytes, any longer one
  throws; the microstring converts back to the string, has its length, and is empty exactly if the string is.
\<close>

theorem microstring_construct_convert:
  assumes "NUL \<notin> set s"
  shows "case make_microstring s of
           Inl e \<Rightarrow> 8 < length s
         | Inr m \<Rightarrow> length s \<le> 8 \<and> microstring_string m = s \<and> microstring_length m = length s
                     \<and> (microstring_empty m \<longleftrightarrow> s = [])"
proof (cases "make_microstring s")
  case (Inr m)
  have len: "microstring_length m = length s" using Inr assms by (rule microstring_length_make)
  have "microstring_empty m \<longleftrightarrow> s = []"
  proof
    assume "microstring_empty m"
    then have "microstring_length m = 0"
      by (simp add: microstring_empty_def microstring_length_def countnonzeros_def)
    with len show "s = []" by simp
  next
    assume "s = []"
    then have "make_microstring [] = Inr m" using Inr by simp
    then show "microstring_empty m"
      by (auto simp: make_microstring_cases microstring_empty_def bswap64_def)
  qed
  then show ?thesis
    using Inr len microstring_roundtrip[OF Inr assms] by (auto simp: make_microstring_cases split: if_splits)
qed (auto simp: make_microstring_cases split: if_splits)

theorem microstring_construct_convert_witness:
  "case make_microstring ''cpp'' of Inl e \<Rightarrow> False | Inr m \<Rightarrow> microstring_string m = ''cpp''"
proof -
  have "make_microstring ''cpp'' = Inr (Microstring (bswap64 (copy_bytes 0 0 ''cpp'')))"
    by (simp add: make_microstring_cases)
  then show ?thesis using microstring_construct_convert[of "''cpp''"] by simp
qed

text \<open>
  Microstrings compare like the strings they hold, so a table sorted as integers is sorted as
  strings, and equal storage means equal strings.
\<close>

theorem microstring_order:
  assumes "make_microstring s = Inr a" and "make_microstring t = Inr b"
    and "NUL \<notin> set s" and "NUL \<notin> set t"
  shows "(microstring_lt a b \<longleftrightarrow> s < t) \<and> (microstring_eq a b \<longleftrightarrow> s = t)"
  using microstring_less_iff[OF assms, unfolded less_microstring_def] microstring_eq_iff[OF assms] by simp

theorem microstring_order_witness:
  "microstring_lt (Microstring (bswap64 (copy_bytes 0 0 ''c''))) (Microstring (bswap64 (copy_bytes 0 0 ''cpp'')))"
  using microstring_order[of "''c''" _ "''cpp''"] by (simp add: make_microstring_cases)

end
