(* ===== verification/Containers.thy ===== *)
theory Containers
  imports Prelude
begin

text \<open>
  The standard containers the components keep their state in. A \<open>std::map\<close> is the list of its
  entries in iteration order, strictly increasing in the key; a \<open>std::set\<close> the list of its elements
  in iteration order; an \<open>unordered_multimap\<close> the list of its entries (only membership of keys is
  ever asked of one). \<open>std::binary_search\<close> is the halving loop of \<open>std::lower_bound\<close>.

  What the clients rely on is stated by the locale \<open>finite_map\<close>; the sorted association list is its
  interpretation \<open>omap\<close>.
\<close>

subsection \<open>The interface of a map\<close>

locale finite_map =
  fixes wf :: "'m \<Rightarrow> bool"
    and find :: "'m \<Rightarrow> 'k \<Rightarrow> 'v option"
    and assign :: "'m \<Rightarrow> 'k \<Rightarrow> 'v \<Rightarrow> 'm"
    and erase :: "'m \<Rightarrow> 'k \<Rightarrow> 'm"
    and entries :: "'m \<Rightarrow> ('k \<times> 'v) list"
  assumes wf_assign: "wf m \<Longrightarrow> wf (assign m k v)"
    and wf_erase: "wf m \<Longrightarrow> wf (erase m k)"
    and find_assign: "wf m \<Longrightarrow> find (assign m k v) k' = (if k' = k then Some v else find m k')"
    and find_erase: "wf m \<Longrightarrow> find (erase m k) k' = (if k' = k then None else find m k')"
    and find_entries: "wf m \<Longrightarrow> find m k = Some v \<longleftrightarrow> (k, v) \<in> set (entries m)"
begin

text \<open>\<open>std::map::insert\<close>: no effect when the key is present.\<close>

definition insert_new :: "'m \<Rightarrow> 'k \<Rightarrow> 'v \<Rightarrow> 'm" where
  "insert_new m k v = (case find m k of Some _ \<Rightarrow> m | None \<Rightarrow> assign m k v)"

lemma wf_insert_new: "wf m \<Longrightarrow> wf (insert_new m k v)"
  by (simp add: insert_new_def wf_assign split: option.split)

lemma find_insert_new:
  "wf m \<Longrightarrow> find (insert_new m k v) k' =
     (if k' = k \<and> find m k = None then Some v else find m k')"
  by (auto simp: insert_new_def find_assign split: option.split)

lemma wf_fold_assign: "wf m \<Longrightarrow> wf (fold (\<lambda>(k, v) m. assign m k v) kvs m)"
  by (induction kvs arbitrary: m) (auto simp: wf_assign)

text \<open>Assigning the bindings of a table one after the other: the last binding of a key is kept.\<close>

lemma find_fold_assign:
  "wf m \<Longrightarrow> find (fold (\<lambda>(k, v) m. assign m k v) kvs m) k =
     (case map_of (rev kvs) k of Some v \<Rightarrow> Some v | None \<Rightarrow> find m k)"
proof (induction kvs arbitrary: m)
  case (Cons kv kvs)
  then show ?case
    by (cases kv) (auto simp: wf_assign find_assign map_add_def split: option.splits)
qed simp

text \<open>Inserting them instead: the first binding of a key is kept.\<close>

lemma find_fold_insert:
  "wf m \<Longrightarrow> find (fold (\<lambda>(k, v) m. insert_new m k v) kvs m) k =
     (case find m k of Some v \<Rightarrow> Some v | None \<Rightarrow> map_of kvs k)"
proof (induction kvs arbitrary: m)
  case (Cons kv kvs)
  then show ?case
    by (cases kv) (auto simp: wf_insert_new find_insert_new split: option.splits)
qed (simp split: option.split)

lemma wf_fold_insert: "wf m \<Longrightarrow> wf (fold (\<lambda>(k, v) m. insert_new m k v) kvs m)"
  by (induction kvs arbitrary: m) (auto simp: wf_insert_new)

lemma entry_unique: "wf m \<Longrightarrow> (k, v) \<in> set (entries m) \<Longrightarrow> (k, w) \<in> set (entries m) \<Longrightarrow> v = w"
  by (metis find_entries option.inject)

end

subsection \<open>std::map\<close>

type_synonym ('k, 'v) omap = "('k \<times> 'v) list"

definition omap_wf :: "('k::linorder, 'v) omap \<Rightarrow> bool" where
  "omap_wf m \<longleftrightarrow> sorted_wrt (<) (map fst m)"

fun omap_find :: "('k::linorder, 'v) omap \<Rightarrow> 'k \<Rightarrow> 'v option" where
  "omap_find [] k = None"
| "omap_find ((k', v) # m) k = (if k = k' then Some v else omap_find m k)"

fun omap_assign :: "('k::linorder, 'v) omap \<Rightarrow> 'k \<Rightarrow> 'v \<Rightarrow> ('k, 'v) omap" where
  "omap_assign [] k v = [(k, v)]"
| "omap_assign ((k', v') # m) k v =
     (if k < k' then (k, v) # (k', v') # m
      else if k = k' then (k, v) # m
      else (k', v') # omap_assign m k v)"

fun omap_erase :: "('k::linorder, 'v) omap \<Rightarrow> 'k \<Rightarrow> ('k, 'v) omap" where
  "omap_erase [] k = []"
| "omap_erase ((k', v) # m) k = (if k = k' then m else (k', v) # omap_erase m k)"

definition omap_insert :: "('k::linorder, 'v) omap \<Rightarrow> 'k \<Rightarrow> 'v \<Rightarrow> ('k, 'v) omap" where
  "omap_insert m k v = (case omap_find m k of Some _ \<Rightarrow> m | None \<Rightarrow> omap_assign m k v)"

text \<open>The entries from \<open>lower_bound(k)\<close> to the end.\<close>

definition omap_from :: "('k::linorder, 'v) omap \<Rightarrow> 'k \<Rightarrow> ('k, 'v) omap" where
  "omap_from m k = dropWhile (\<lambda>e. fst e < k) m"

text \<open>\<open>m[k].push_back(x)\<close> on a map to vectors: an absent key starts from the empty vector.\<close>

definition omap_push_back :: "('k::linorder, 'v list) omap \<Rightarrow> 'k \<Rightarrow> 'v \<Rightarrow> ('k, 'v list) omap" where
  "omap_push_back m k x =
     omap_assign m k ((case omap_find m k of Some xs \<Rightarrow> xs | None \<Rightarrow> []) @ [x])"

lemma omap_wf_Nil [simp]: "omap_wf []"
  by (simp add: omap_wf_def)

lemma omap_wf_Cons: "omap_wf (e # m) \<longleftrightarrow> (\<forall>x \<in> fst ` set m. fst e < x) \<and> omap_wf m"
  by (auto simp: omap_wf_def)

lemma omap_keys_assign: "fst ` set (omap_assign m k v) = insert k (fst ` set m)"
  by (induction m k v rule: omap_assign.induct) auto

lemma omap_set_erase: "set (omap_erase m k) \<subseteq> set m"
  by (induction m k rule: omap_erase.induct) auto

lemma omap_find_None_iff: "omap_find m k = None \<longleftrightarrow> k \<notin> fst ` set m"
  by (induction m k rule: omap_find.induct) auto

lemma omap_wf_assign: "omap_wf m \<Longrightarrow> omap_wf (omap_assign m k v)"
  by (induction m k v rule: omap_assign.induct) (auto simp: omap_wf_Cons omap_keys_assign)

lemma omap_wf_erase: "omap_wf m \<Longrightarrow> omap_wf (omap_erase m k)"
  by (induction m k rule: omap_erase.induct) (use omap_set_erase in \<open>fastforce simp: omap_wf_Cons\<close>)+

lemma omap_find_assign:
  "omap_wf m \<Longrightarrow> omap_find (omap_assign m k v) k' = (if k' = k then Some v else omap_find m k')"
  by (induction m k v rule: omap_assign.induct) (auto simp: omap_wf_Cons)

lemma omap_find_erase:
  "omap_wf m \<Longrightarrow> omap_find (omap_erase m k) k' = (if k' = k then None else omap_find m k')"
proof (induction m k rule: omap_erase.induct)
  case (2 k'' v m k)
  have "k'' \<notin> fst ` set m" using 2 by (auto simp: omap_wf_Cons)
  then have "omap_find m k'' = None" by (simp only: omap_find_None_iff not_False_eq_True)
  with 2 show ?case by (auto simp: omap_wf_Cons)
qed simp

lemma omap_find_entries: "omap_wf m \<Longrightarrow> omap_find m k = Some v \<longleftrightarrow> (k, v) \<in> set m"
  by (induction m k rule: omap_find.induct) (force simp: omap_wf_Cons)+

interpretation omap: finite_map omap_wf omap_find omap_assign omap_erase "\<lambda>m. m"
  by unfold_locales
     (simp_all add: omap_wf_assign omap_wf_erase omap_find_assign omap_find_erase omap_find_entries)

lemma omap_insert_eq: "omap_insert m k v = omap.insert_new m k v"
  by (simp add: omap_insert_def omap.insert_new_def)

lemmas omap_wf_insert = omap.wf_insert_new [folded omap_insert_eq]

lemmas omap_wf_fold_insert = omap.wf_fold_insert [folded omap_insert_eq]

lemmas omap_find_fold_insert = omap.find_fold_insert [folded omap_insert_eq]

lemmas omap_find_insert = omap.find_insert_new [folded omap_insert_eq]

lemma omap_wf_push_back: "omap_wf m \<Longrightarrow> omap_wf (omap_push_back m k x)"
  by (simp add: omap_push_back_def omap.wf_assign)

lemma omap_find_push_back:
  "omap_wf m \<Longrightarrow> omap_find (omap_push_back m k x) k' =
     (if k' = k then Some ((case omap_find m k of Some xs \<Rightarrow> xs | None \<Rightarrow> []) @ [x])
      else omap_find m k')"
  by (simp add: omap_push_back_def omap.find_assign)

lemmas omap_wf_rules [simp] =
  omap_wf_assign omap_wf_erase omap_wf_insert omap_wf_push_back

lemmas omap_find_rules =
  omap_find_assign omap_find_erase omap_find_insert omap_find_push_back

lemma omap_wf_from: "omap_wf m \<Longrightarrow> omap_wf (omap_from m k)"
  unfolding omap_wf_def omap_from_def
  by (metis dropWhile_map sorted_wrt_append takeWhile_dropWhile_id[of "\<lambda>e. fst e < k" m] map_append)

lemma omap_from_set: "omap_wf m \<Longrightarrow> set (omap_from m k) = {e \<in> set m. k \<le> fst e}"
proof (induction m)
  case (Cons e m)
  then have less: "\<forall>x \<in> set m. fst e < fst x" and "omap_wf m" by (auto simp: omap_wf_Cons)
  show ?case
  proof (cases "fst e < k")
    case True
    with Cons.IH \<open>omap_wf m\<close> show ?thesis by (auto simp: omap_from_def)
  next
    case False
    with less have "\<forall>x \<in> set (e # m). k \<le> fst x" by fastforce
    with False show ?thesis by (auto simp: omap_from_def)
  qed
qed (simp add: omap_from_def)

subsection \<open>std::set\<close>

definition oset_insert :: "'a::linorder \<Rightarrow> 'a list \<Rightarrow> 'a list" where
  "oset_insert x xs = (if x \<in> set xs then xs else insort x xs)"

lemma set_oset_insert [simp]: "set (oset_insert x xs) = insert x (set xs)"
  by (auto simp: oset_insert_def set_insort_key)

lemma oset_insert_sorted:
  "sorted xs \<and> distinct xs \<Longrightarrow> sorted (oset_insert x xs) \<and> distinct (oset_insert x xs)"
  by (auto simp: oset_insert_def sorted_insort distinct_insort)

subsection \<open>std::binary\_search\<close>

function lower_bound_loop :: "'a::linorder list \<Rightarrow> 'a \<Rightarrow> nat \<Rightarrow> nat \<Rightarrow> nat" where
  "lower_bound_loop xs x first len =
     (if len > 0
      then let half = len div 2; middle = first + half
           in if xs ! middle < x
              then lower_bound_loop xs x (middle + 1) (len - half - 1)
              else lower_bound_loop xs x first half
      else first)"
  by pat_completeness auto
termination
  by (relation "measure (\<lambda>(xs, x, first, len). len)") auto

declare lower_bound_loop.simps [simp del]

definition std_lower_bound :: "'a::linorder list \<Rightarrow> 'a \<Rightarrow> nat" where
  "std_lower_bound xs x = lower_bound_loop xs x 0 (length xs)"

definition std_binary_search :: "'a::linorder list \<Rightarrow> 'a \<Rightarrow> bool" where
  "std_binary_search xs x =
     (let i = std_lower_bound xs x in i \<noteq> length xs \<and> \<not> x < xs ! i)"

lemma lower_bound_loop_partition:
  assumes "sorted xs" and "first + len \<le> length xs"
    and "\<forall>i < first. xs ! i < x" and "\<forall>i. first + len \<le> i \<and> i < length xs \<longrightarrow> x \<le> xs ! i"
  shows "let p = lower_bound_loop xs x first len in
           p \<le> length xs \<and> (\<forall>i < p. xs ! i < x) \<and> (\<forall>i. p \<le> i \<and> i < length xs \<longrightarrow> x \<le> xs ! i)"
  using assms
proof (induction xs x first len rule: lower_bound_loop.induct)
  case (1 xs x first len)
  show ?case
  proof (cases "len > 0")
    case False
    with "1.prems" show ?thesis by (subst lower_bound_loop.simps) simp
  next
    case True
    define half where "half = len div 2"
    have h: "half < len" using True by (simp add: half_def)
    have mono: "xs ! i \<le> xs ! j" if "i \<le> j" "j < length xs" for i j
      using \<open>sorted xs\<close> that by (rule sorted_nth_mono)
    show ?thesis
    proof (cases "xs ! (first + half) < x")
      case less: True
      have "\<forall>i < first + half + 1. xs ! i < x"
      proof (intro allI impI)
        fix i assume "i < first + half + 1"
        then have "xs ! i \<le> xs ! (first + half)" using h "1.prems"(2) by (intro mono) auto
        then show "xs ! i < x" using less by (rule order.strict_trans1)
      qed
      with "1.IH"(1)[OF True half_def refl] less h "1.prems" True show ?thesis
        by (subst lower_bound_loop.simps) (simp add: half_def[symmetric] Let_def)
    next
      case ge: False
      have "\<forall>i. first + half \<le> i \<and> i < length xs \<longrightarrow> x \<le> xs ! i"
        using ge mono[of "first + half"] by (meson linorder_not_le order.trans)
      with "1.IH"(2)[OF True half_def refl] ge h "1.prems" True show ?thesis
        by (subst lower_bound_loop.simps) (simp add: half_def[symmetric] Let_def)
    qed
  qed
qed

lemma std_binary_search_iff:
  assumes "sorted xs"
  shows "std_binary_search xs x \<longleftrightarrow> x \<in> set xs"
proof -
  define p where "p = std_lower_bound xs x"
  have p: "p \<le> length xs" "\<forall>i < p. xs ! i < x" "\<forall>i. p \<le> i \<and> i < length xs \<longrightarrow> x \<le> xs ! i"
  proof -
    have "\<forall>i. 0 + length xs \<le> i \<and> i < length xs \<longrightarrow> x \<le> xs ! i" by auto
    from lower_bound_loop_partition[OF assms _ _ this]
    show "p \<le> length xs" "\<forall>i < p. xs ! i < x" "\<forall>i. p \<le> i \<and> i < length xs \<longrightarrow> x \<le> xs ! i"
      unfolding p_def std_lower_bound_def Let_def by simp_all
  qed
  have "x \<in> set xs \<longleftrightarrow> p \<noteq> length xs \<and> xs ! p = x"
  proof
    assume "x \<in> set xs"
    then obtain i where i: "i < length xs" "xs ! i = x" by (auto simp: in_set_conv_nth)
    then have "p \<le> i" using p(2) by (metis linorder_not_le order.irrefl)
    then have "xs ! p \<le> x" and "p < length xs"
      using i sorted_nth_mono[OF assms, of p i] by auto
    then show "p \<noteq> length xs \<and> xs ! p = x" using p(3) by force
  qed (use p(1) in auto)
  also have "\<dots> \<longleftrightarrow> p \<noteq> length xs \<and> \<not> x < xs ! p"
    using p(1,3) by (auto simp: order.order_iff_strict)
  finally show ?thesis by (simp add: std_binary_search_def Let_def p_def)
qed

end
