(* ===== verification/TypeManager.thy ===== *)
theory TypeManager
  imports Containers StringUtil Microstring
begin

text \<open>
  The file-type manager of \<open>src/TypeManager.cpp\<close>: the built-in table of file types, the operations
  the command-line options drive (\<open>--type\<close>, \<open>--notype\<close>, \<open>--type-add\<close>, \<open>--type-set\<close>, \<open>--ignore-file\<close>,
  \<open>--include\<close>, \<open>--exclude\<close>), the compilation of the active types into the tables used during the
  directory traversal, and the test \<open>FileShouldBeScanned\<close> on those tables.

  POSIX \<open>fnmatch(pattern, name, 0) == 0\<close> is the parameter \<open>fnm\<close>. A filter is a string whose first
  character gives its kind: \<open>.\<close> an extension, \<open>/\<close> a first-line regex, \<open>?\<close> a glob, anything else a
  literal file name.
\<close>

subsection \<open>The built-in types\<close>

abbreviation BACKSLASH :: char where
  "BACKSLASH \<equiv> CHR 0x5C"

text \<open>The initialisers of the \<open>std::set<Type>\<close>, in source order.\<close>

definition builtin_types :: "(string \<times> string list) list" where
  "builtin_types =
    [
     (''actionscript'', [''.as'', ''.mxml'']),
     (''ada'', [''.ada'', ''.adb'', ''.ads'']),
     (''asm'', [''.asm'', ''.s'', ''.S'']),
     (''asp'', [''.asp'']),
     (''aspx'', [''.master'', ''.ascx'', ''.asmx'', ''.aspx'', ''.svc'']),
     (''autoconf'', [''.ac'', ''.in'']),
     (''automake'', [''.am'', ''.in'']),
     (''awk'', [''.awk'']),
     (''batch'', [''.bat'', ''.cmd'']),
     (''cc'', [''.c'', ''.h'', ''.xs'']),
     (''cfmx'', [''.cfc'', ''.cfm'', ''.cfml'']),
     (''clojure'', [''.clj'']),
     (''cmake'', [''CMakeLists.txt'', ''.cmake'']),
     (''coffeescript'', [''.coffee'']),
     (''cpp'', [''.cpp'', ''.cc'', ''.cxx'', ''.m'', ''.hpp'', ''.hh'', ''.h'', ''.hxx'']),
     (''csharp'', [''.cs'']),
     (''css'', [''.css'']),
     (''dart'', [''.dart'']),
     (''delphi'', [''.pas'', ''.int'', ''.dfm'', ''.nfm'', ''.dof'', ''.dpk'', ''.dproj'', ''.groupproj'', ''.bdsgroup'', ''.bdsproj'']),
     (''elisp'', [''.el'']),
     (''elixir'', [''.ex'', ''.exs'']),
     (''erlang'', [''.erl'', ''.hrl'']),
     (''fortran'', [''.f'', ''.f77'', ''.f90'', ''.f95'', ''.f03'', ''.for'', ''.ftn'', ''.fpp'']),
     (''go'', [''.go'']),
     (''groovy'', [''.groovy'', ''.gtmpl'', ''.gpp'', ''.grunit'', ''.gradle'']),
     (''haskell'', [''.hs'', ''.lhs'']),
     (''hh'', [''.h'']),
     (''html'', [''.htm'', ''.html'']),
     (''jade'', [''.jade'']),
     (''java'', [''.java'', ''.properties'']),
     (''js'', [''.js'']),
     (''json'', [''.json'']),
     (''jsp'', [''.jsp'', ''.jspx'', ''.jhtm'', ''.jhtml'']),
     (''less'', [''.less'']),
     (''lisp'', [''.lisp'', ''.lsp'']),
     (''lua'', [''.lua'', ''/^#!.*'' @ [BACKSLASH] @ ''blua(jit)?/'']),
     (''m4'', [''.m4'']),
     (''make'', [''.mk'', ''.mak'', ''makefile'', ''Makefile'', ''Makefile.Debug'', ''Makefile.Release'']),
     (''matlab'', [''.m'']),
     (''objc'', [''.m'', ''.h'']),
     (''objcpp'', [''.mm'', ''.h'']),
     (''ocaml'', [''.ml'', ''.mli'']),
     (''parrot'', [''.pir'', ''.pasm'', ''.pmc'', ''.ops'', ''.pod'', ''.pg'', ''.tg'']),
     (''perl'', [''.pl'', ''.pm'', ''.pod'', ''.t'', ''.psgi'', ''/^#!.*'' @ [BACKSLASH] @ ''bperl/'']),
     (''perltest'', [''.t'']),
     (''php'', [''.php'', ''.phpt'', ''.php3'', ''.php4'', ''.php5'', ''.phtml'', ''/^#!.*'' @ [BACKSLASH] @ ''bphp/'']),
     (''plone'', [''.pt'', ''.cpt'', ''.metadata'', ''.cpy'', ''.py'']),
     (''python'', [''.py'', ''/^#!.*'' @ [BACKSLASH] @ ''bpython/'']),
     (''rake'', [''Rakefile'']),
     (''rr'', [''.R'']),
     (''rst'', [''.rst'']),
     (''ruby'', [''.rb'', ''.rhtml'', ''.rjs'', ''.rxml'', ''.erb'', ''.rake'', ''.spec'', ''Rakefile'', ''/^#!.*'' @ [BACKSLASH] @ ''bruby/'']),
     (''rust'', [''.rs'']),
     (''sass'', [''.sass'', ''.scss'']),
     (''scala'', [''.scala'']),
     (''scheme'', [''.scm'', ''.ss'']),
     (''shell'', [''.sh'', ''.bash'', ''.csh'', ''.tcsh'', ''.ksh'', ''.zsh'', ''.fish'', ''/^#!.*'' @ [BACKSLASH] @ ''b(?:ba|t?c|k|z|fi)?sh'' @ [BACKSLASH] @ ''b/'']),
     (''smalltalk'', [''.st'']),
     (''smarty'', [''.tpl'']),
     (''sql'', [''.sql'', ''.ctl'']),
     (''stylus'', [''.styl'']),
     (''tcl'', [''.tcl'', ''.itcl'', ''.itk'']),
     (''tex'', [''.tex'', ''.cls'', ''.sty'']),
     (''text'', [''.txt'', ''ChangeLog'', ''README'']),
     (''tt'', [''.tt'', ''.tt2'', ''.ttml'']),
     (''vb'', [''.bas'', ''.cls'', ''.frm'', ''.ctl'', ''.vb'', ''.resx'']),
     (''verilog'', [''.v'', ''.vh'', ''.sv'']),
     (''vhdl'', [''.vhd'', ''.vhdl'']),
     (''vim'', [''.vim'']),
     (''xml'', [''.xml'', ''.dtd'', ''.xsl'', ''.xslt'', ''.ent'', ''/<[?]xml/'']),
     (''yaml'', [''.yaml'', ''.yml'']),
     (''miscellaneous'', [''.qbk'', ''.w'', ''.ipp'', ''.patch'', ''configure''])
    ]"

text \<open>The set orders them by name; a second initialiser with the same name would be ignored.\<close>

definition f_builtin_type_array :: "(string, string list) omap" where
  "f_builtin_type_array = fold (\<lambda>(n, e) s. omap_insert s n e) builtin_types []"

subsection \<open>State\<close>

record type_manager =
  m_first_type_has_been_seen :: bool
  m_builtin_and_user_type_map :: "(string, string list) omap"
  m_active_type_map :: "(string, string list) omap"
  m_removed_type_filters :: "(string \<times> string) list"
  m_fast_include_extensions :: "microstring list"
  m_include_extensions :: "(string \<times> string) list"
  m_included_literal_filenames :: "(string \<times> string) list"
  m_exclude_globs :: "string list"
  m_include_exclude_globs :: "(string \<times> bool) list"
  m_included_first_line_regexes :: "(string \<times> string) list"

datatype TypeManagerException =
    InvalidFilterSpecification string
  | UnknownFilterType string string

text \<open>The constructor assigns every entry of the built-in set to both maps.\<close>

definition TypeManager_ctor :: type_manager where
  "TypeManager_ctor =
     (let assign_all = fold (\<lambda>(n, e) m. omap_assign m n e) f_builtin_type_array []
      in \<lparr> m_first_type_has_been_seen = False,
           m_builtin_and_user_type_map = assign_all,
           m_active_type_map = assign_all,
           m_removed_type_filters = [],
           m_fast_include_extensions = [],
           m_include_extensions = [],
           m_included_literal_filenames = [],
           m_exclude_globs = [],
           m_include_exclude_globs = [],
           m_included_first_line_regexes = [] \<rparr>)"

subsection \<open>Configuration\<close>

text \<open>\<open>count(k) != 0\<close> and \<open>erase(k)\<close> of an \<open>unordered_multimap\<close>.\<close>

definition multimap_has :: "('k \<times> 'v) list \<Rightarrow> 'k \<Rightarrow> bool" where
  "multimap_has mm k \<longleftrightarrow> k \<in> fst ` set mm"

definition multimap_erase :: "('k \<times> 'v) list \<Rightarrow> 'k \<Rightarrow> ('k \<times> 'v) list" where
  "multimap_erase mm k = filter (\<lambda>e. fst e \<noteq> k) mm"

text \<open>\<open>type\<close>, the \<open>--type=\<close> operation: its Boolean result and the state after it.\<close>

definition TM_type :: "string \<Rightarrow> type_manager \<Rightarrow> bool \<times> type_manager" where
  "TM_type type_name tm =
     (case omap_find (m_builtin_and_user_type_map tm) type_name of
        None \<Rightarrow> (False, tm)
      | Some filters \<Rightarrow>
          (let tm1 = (if \<not> m_first_type_has_been_seen tm
                      then tm\<lparr>m_active_type_map := [], m_first_type_has_been_seen := True\<rparr>
                      else tm);
               tm2 = tm1\<lparr>m_removed_type_filters :=
                            fold (\<lambda>i mm. multimap_erase mm i) filters (m_removed_type_filters tm1)\<rparr>
           in (True, tm2\<lparr>m_active_type_map :=
                            omap_insert (m_active_type_map tm2) type_name filters\<rparr>)))"

definition TM_notype :: "string \<Rightarrow> type_manager \<Rightarrow> bool \<times> type_manager" where
  "TM_notype type_name tm =
     (case omap_find (m_builtin_and_user_type_map tm) type_name of
        None \<Rightarrow> (False, tm)
      | Some filters \<Rightarrow>
          (let tm1 = tm\<lparr>m_removed_type_filters :=
                            fold (\<lambda>i mm. mm @ [(i, type_name)]) filters (m_removed_type_filters tm)\<rparr>
           in (True, tm1\<lparr>m_active_type_map := omap_erase (m_active_type_map tm1) type_name\<rparr>)))"

text \<open>
  \<open>GetMatchingTypenameList\<close>: walk the map from \<open>lower_bound(name_or_prefix)\<close> while the name
  contains the argument (\<open>find(...) != npos\<close>, a substring test).
\<close>

definition GetMatchingTypenameList :: "string \<Rightarrow> type_manager \<Rightarrow> string list" where
  "GetMatchingTypenameList name_or_prefix tm =
     takeWhile (\<lambda>t. sublist name_or_prefix t)
       (map fst (omap_from (m_builtin_and_user_type_map tm) name_or_prefix))"

definition IsType :: "string \<Rightarrow> type_manager \<Rightarrow> bool" where
  "IsType t tm \<longleftrightarrow> omap_find (m_builtin_and_user_type_map tm) t \<noteq> None"

definition TypeAddIs :: "string \<Rightarrow> string \<Rightarrow> type_manager \<Rightarrow> type_manager" where
  "TypeAddIs t name tm =
     tm\<lparr>m_builtin_and_user_type_map := omap_push_back (m_builtin_and_user_type_map tm) t name,
        m_active_type_map := omap_push_back (m_active_type_map tm) t name\<rparr>"

definition TypeAddExt :: "string \<Rightarrow> string \<Rightarrow> type_manager \<Rightarrow> type_manager" where
  "TypeAddExt t ext tm =
     tm\<lparr>m_builtin_and_user_type_map := omap_push_back (m_builtin_and_user_type_map tm) t (''.'' @ ext),
        m_active_type_map := omap_push_back (m_active_type_map tm) t (''.'' @ ext)\<rparr>"

definition TypeAddGlobExclude :: "string \<Rightarrow> string \<Rightarrow> type_manager \<Rightarrow> type_manager" where
  "TypeAddGlobExclude t glob tm =
     tm\<lparr>m_exclude_globs := m_exclude_globs tm @ [glob],
        m_include_exclude_globs := m_include_exclude_globs tm @ [(glob, False)]\<rparr>"

definition TypeAddGlobInclude :: "string \<Rightarrow> string \<Rightarrow> type_manager \<Rightarrow> type_manager" where
  "TypeAddGlobInclude t glob tm =
     snd (TM_type t
       (tm\<lparr>m_builtin_and_user_type_map := omap_push_back (m_builtin_and_user_type_map tm) t (''?'' @ glob),
           m_active_type_map := omap_push_back (m_active_type_map tm) t (''?'' @ glob),
           m_include_exclude_globs := m_include_exclude_globs tm @ [(glob, True)]\<rparr>))"

definition TypeDel :: "string \<Rightarrow> type_manager \<Rightarrow> bool \<times> type_manager" where
  "TypeDel t tm =
     (omap_find (m_builtin_and_user_type_map tm) t \<noteq> None,
      tm\<lparr>m_active_type_map := omap_erase (m_active_type_map tm) t,
         m_builtin_and_user_type_map := omap_erase (m_builtin_and_user_type_map tm) t\<rparr>)"

text \<open>
  A filter specification \<open>TYPE:KIND:ARGS\<close>. The result is the exception thrown, if any, with the
  state left behind: \<open>--type-set\<close> deletes the type before the kind is looked at.
\<close>

definition TypeAddFromFilterSpecString ::
    "bool \<Rightarrow> string \<Rightarrow> type_manager \<Rightarrow> TypeManagerException option \<times> type_manager" where
  "TypeAddFromFilterSpecString delete_type_first filter_spec_string tm =
     (let filter_spec = split filter_spec_string (CHR '':'') in
      if length filter_spec \<noteq> 3 then (Some (InvalidFilterSpecification filter_spec_string), tm)
      else
        (let file_type = filter_spec ! 0; filter_type = filter_spec ! 1; filter_args = filter_spec ! 2;
             tm1 = (if delete_type_first then snd (TypeDel file_type tm) else tm)
         in if filter_type = ''is'' then (None, TypeAddIs file_type filter_args tm1)
            else if filter_type = ''ext''
              then (None, fold (TypeAddExt file_type) (split filter_args (CHR '','')) tm1)
            else if filter_type = ''globx'' then (None, TypeAddGlobExclude file_type filter_args tm1)
            else if filter_type = ''glob'' then (None, TypeAddGlobInclude file_type filter_args tm1)
            else (Some (UnknownFilterType filter_type filter_spec_string), tm1)))"

definition TypeAddIgnoreFileFromFilterSpecString ::
    "string \<Rightarrow> type_manager \<Rightarrow> TypeManagerException option \<times> type_manager" where
  "TypeAddIgnoreFileFromFilterSpecString filter_spec_string tm =
     (case TypeAddFromFilterSpecString False (''IGNORE_FILE_TYPE'' @ '':'' @ filter_spec_string) tm of
        (Some e, tm1) \<Rightarrow> (Some e, tm1)
      | (None, tm1) \<Rightarrow> (None, snd (TM_notype ''IGNORE_FILE_TYPE'' tm1)))"

definition TypeAddIncludeGlobFromFilterSpecString ::
    "string \<Rightarrow> type_manager \<Rightarrow> TypeManagerException option \<times> type_manager" where
  "TypeAddIncludeGlobFromFilterSpecString filter_spec_string tm =
     (case TypeAddFromFilterSpecString False (''INCLUDE_GLOB_FILE_TYPE:'' @ filter_spec_string) tm of
        (Some e, tm1) \<Rightarrow> (Some e, tm1)
      | (None, tm1) \<Rightarrow> (None, snd (TM_type ''INCLUDE_GLOB_FILE_TYPE:'' tm1)))"

subsection \<open>Compilation and lookup\<close>

text \<open>\<open>j[0]\<close>, which is the terminating NUL for an empty string.\<close>

definition first_char :: "string \<Rightarrow> char" where
  "first_char s = (case s of [] \<Rightarrow> NUL | c # _ \<Rightarrow> c)"

text \<open>
  One pass of the inner loop of \<open>CompileTypeTables\<close>, for filter \<open>j\<close> of type \<open>t\<close>; \<open>ext_set\<close> is the
  local \<open>unique_microstring_extensions\<close>. The microstring constructor cannot throw here, because of
  the length test before it (\<open>compile_filter_length\<close>).
\<close>

definition compile_filter ::
    "string \<Rightarrow> string \<Rightarrow> microstring list \<times> type_manager \<Rightarrow> microstring list \<times> type_manager" where
  "compile_filter t j st =
     (case st of (ext_set, tm) \<Rightarrow>
        if multimap_has (m_removed_type_filters tm) j then st
        else if first_char j = CHR ''.'' then
          (if length j \<le> max_size + 1
           then (case make_microstring (drop 1 j) of
                   Inr m \<Rightarrow> (oset_insert m ext_set, tm)
                 | Inl _ \<Rightarrow> st)
           else (ext_set, tm\<lparr>m_include_extensions := m_include_extensions tm @ [(j, t)]\<rparr>))
        else if first_char j = CHR ''/'' then
          (ext_set, tm\<lparr>m_included_first_line_regexes := m_included_first_line_regexes tm @ [(j, t)]\<rparr>)
        else if first_char j = CHR ''?'' then st
        else (ext_set,
              tm\<lparr>m_included_literal_filenames := m_included_literal_filenames tm @ [(j, t)]\<rparr>))"

definition CompileTypeTables :: "type_manager \<Rightarrow> type_manager" where
  "CompileTypeTables tm =
     (let (ext_set, tm1) =
            fold (\<lambda>(t, filters) st. fold (compile_filter t) filters st) (m_active_type_map tm) ([], tm)
      in tm1\<lparr>m_fast_include_extensions := sort ext_set\<rparr>)"

definition IsExcludedByAnyGlob :: "(string \<Rightarrow> string \<Rightarrow> bool) \<Rightarrow> type_manager \<Rightarrow> string \<Rightarrow> bool" where
  "IsExcludedByAnyGlob fnm tm name = list_ex (\<lambda>glob. fnm glob name) (m_exclude_globs tm)"

text \<open>\<open>std::string::find_last_of(c)\<close>.\<close>

definition find_last_of :: "char \<Rightarrow> string \<Rightarrow> nat option" where
  "find_last_of c s =
     (if c \<in> set s then Some (length s - 1 - find_if (\<lambda>d. d = c) (rev s)) else None)"

datatype glob_verdict = nomatch | verdict_include | verdict_exclude

definition glob_loop :: "(string \<Rightarrow> string \<Rightarrow> bool) \<Rightarrow> string \<Rightarrow> (string \<times> bool) list \<Rightarrow> glob_verdict" where
  "glob_loop fnm name globs =
     fold (\<lambda>glob verdict. if fnm (fst glob) name
                          then (if snd glob then verdict_include else verdict_exclude)
                          else verdict) globs nomatch"

definition FileShouldBeScanned :: "(string \<Rightarrow> string \<Rightarrow> bool) \<Rightarrow> type_manager \<Rightarrow> string \<Rightarrow> bool" where
  "FileShouldBeScanned fnm tm name =
     (let include_it =
            (case find_last_of (CHR ''.'') name of
               None \<Rightarrow> False
             | Some last_period \<Rightarrow>
                 if last_period = 0 then False
                 else (let ext_plus_period_size = length name - last_period in
                       if ext_plus_period_size \<le> max_size + 1
                       then (case make_microstring (drop (last_period + 1) name) of
                               Inr mext \<Rightarrow> std_binary_search (m_fast_include_extensions tm) mext
                             | Inl _ \<Rightarrow> False)
                       else multimap_has (m_include_extensions tm) (drop last_period name)))
      in if include_it then \<not> IsExcludedByAnyGlob fnm tm name
         else if multimap_has (m_included_literal_filenames tm) name
           then \<not> IsExcludedByAnyGlob fnm tm name
         else glob_loop fnm name (m_include_exclude_globs tm) = verdict_include)"

subsection \<open>Help output\<close>

definition append_word :: "string \<Rightarrow> string \<Rightarrow> string" where
  "append_word acc e = (if acc = [] then acc @ e else acc @ '' '' @ e)"

text \<open>One line of \<open>PrintTypesForHelp\<close>; \<open>std::setw(15) << std::left\<close> pads the name with blanks.\<close>

definition help_line :: "string \<times> string list \<Rightarrow> string" where
  "help_line t =
     (let (extensions, names) =
            fold (\<lambda>e (extensions, names).
                    if first_char e = CHR ''.'' then (append_word extensions e, names)
                    else if first_char e = CHR ''/'' then (extensions, names)
                    else (extensions, append_word names e)) (snd t) ([], [])
      in ''  '' @ (fst t @ replicate (15 - length (fst t)) (CHR '' '')) @ extensions
         @ (if extensions \<noteq> [] \<and> names \<noteq> [] then ''; '' else []) @ names @ [NL])"

definition PrintTypesForHelp :: "type_manager \<Rightarrow> string" where
  "PrintTypesForHelp tm = concat (map help_line (m_builtin_and_user_type_map tm))"

subsection \<open>Reachable configurations\<close>

text \<open>
  The states the option parser can bring the manager into: any sequence of configuration calls on
  the constructed manager, with NUL-free arguments (they come from \<open>argv\<close> and configuration files).
\<close>

inductive configured :: "type_manager \<Rightarrow> bool" where
  ctor: "configured TypeManager_ctor"
| type: "configured tm \<Longrightarrow> configured (snd (TM_type t tm))"
| notype: "configured tm \<Longrightarrow> configured (snd (TM_notype t tm))"
| del: "configured tm \<Longrightarrow> configured (snd (TypeDel t tm))"
| add: "configured tm \<Longrightarrow> NUL \<notin> set spec \<Longrightarrow> configured (snd (TypeAddFromFilterSpecString del spec tm))"
| ignore_file: "configured tm \<Longrightarrow> NUL \<notin> set spec \<Longrightarrow>
    configured (snd (TypeAddIgnoreFileFromFilterSpecString spec tm))"
| include_glob: "configured tm \<Longrightarrow> NUL \<notin> set spec \<Longrightarrow>
    configured (snd (TypeAddIncludeGlobFromFilterSpecString spec tm))"

text \<open>
  Every active type is a known type and its active filters are the most recently added of that
  type's filters; the exclude globs are those of the include/exclude sequence; nothing has been
  compiled yet.
\<close>

definition active_consistent :: "(string, string list) omap \<Rightarrow> (string, string list) omap \<Rightarrow> bool" where
  "active_consistent act known \<longleftrightarrow>
     (\<forall>t fs. omap_find act t = Some fs \<longrightarrow> (\<exists>gs. omap_find known t = Some gs \<and> suffix fs gs))"

definition maps_wf :: "type_manager \<Rightarrow> bool" where
  "maps_wf tm \<longleftrightarrow> omap_wf (m_builtin_and_user_type_map tm) \<and> omap_wf (m_active_type_map tm)
     \<and> active_consistent (m_active_type_map tm) (m_builtin_and_user_type_map tm)"

definition filters_NUL_free :: "type_manager \<Rightarrow> bool" where
  "filters_NUL_free tm \<longleftrightarrow>
     (\<forall>t fs. omap_find (m_builtin_and_user_type_map tm) t = Some fs \<longrightarrow> (\<forall>f \<in> set fs. NUL \<notin> set f))"

definition globs_consistent :: "type_manager \<Rightarrow> bool" where
  "globs_consistent tm \<longleftrightarrow>
     m_exclude_globs tm = map fst (filter (\<lambda>g. \<not> snd g) (m_include_exclude_globs tm))"

definition uncompiled :: "type_manager \<Rightarrow> bool" where
  "uncompiled tm \<longleftrightarrow> m_fast_include_extensions tm = [] \<and> m_include_extensions tm = []
     \<and> m_included_literal_filenames tm = [] \<and> m_included_first_line_regexes tm = []"

definition tm_inv :: "type_manager \<Rightarrow> bool" where
  "tm_inv tm \<longleftrightarrow> maps_wf tm \<and> filters_NUL_free tm \<and> globs_consistent tm \<and> uncompiled tm"

lemmas tm_inv_defs = tm_inv_def maps_wf_def filters_NUL_free_def globs_consistent_def uncompiled_def

lemma active_consistent_same [simp]: "active_consistent m m"
  by (auto simp: active_consistent_def)

lemma active_consistent_Nil [simp]: "active_consistent [] m"
  by (simp add: active_consistent_def)

lemma active_consistent_push_back:
  "omap_wf act \<Longrightarrow> omap_wf known \<Longrightarrow> active_consistent act known \<Longrightarrow>
     active_consistent (omap_push_back act t x) (omap_push_back known t x)"
  by (fastforce simp: active_consistent_def omap_find_push_back split: option.splits)

lemma active_consistent_insert:
  "omap_wf act \<Longrightarrow> active_consistent act known \<Longrightarrow> omap_find known t = Some fs \<Longrightarrow>
     active_consistent (omap_insert act t fs) known"
  by (auto simp: active_consistent_def omap_find_insert)

lemma active_consistent_erase:
  "omap_wf act \<Longrightarrow> active_consistent act known \<Longrightarrow> active_consistent (omap_erase act t) known"
  by (auto simp: active_consistent_def omap_find_erase)

lemma active_consistent_erase_both:
  "omap_wf act \<Longrightarrow> omap_wf known \<Longrightarrow> active_consistent act known \<Longrightarrow>
     active_consistent (omap_erase act t) (omap_erase known t)"
  by (auto simp: active_consistent_def omap_find_erase)

lemmas active_consistent_rules =
  active_consistent_push_back active_consistent_insert active_consistent_erase
  active_consistent_erase_both

text \<open>A filter added to a type leaves the other filters alone.\<close>

lemma push_back_NUL_free:
  assumes "omap_wf m" and "\<forall>t fs. omap_find m t = Some fs \<longrightarrow> (\<forall>f \<in> set fs. NUL \<notin> set f)"
    and "NUL \<notin> set x"
  shows "\<forall>t fs. omap_find (omap_push_back m k x) t = Some fs \<longrightarrow> (\<forall>f \<in> set fs. NUL \<notin> set f)"
  using assms by (cases "omap_find m k") (auto simp: omap_find_push_back split: option.splits)

lemma TypeAddIs_inv: "tm_inv tm \<Longrightarrow> NUL \<notin> set x \<Longrightarrow> tm_inv (TypeAddIs t x tm)"
  unfolding tm_inv_defs TypeAddIs_def
  using push_back_NUL_free[of "m_builtin_and_user_type_map tm" x t]
  by (simp add: active_consistent_rules)

lemma TypeAddExt_inv: "tm_inv tm \<Longrightarrow> NUL \<notin> set x \<Longrightarrow> tm_inv (TypeAddExt t x tm)"
  unfolding tm_inv_defs TypeAddExt_def
  using push_back_NUL_free[of "m_builtin_and_user_type_map tm" "''.'' @ x" t]
  by (simp add: active_consistent_rules)

lemma fold_TypeAddExt_inv:
  "tm_inv tm \<Longrightarrow> \<forall>x \<in> set xs. NUL \<notin> set x \<Longrightarrow> tm_inv (fold (TypeAddExt t) xs tm)"
  by (induction xs arbitrary: tm) (auto simp: TypeAddExt_inv)

lemma TypeAddGlobExclude_inv: "tm_inv tm \<Longrightarrow> tm_inv (TypeAddGlobExclude t x tm)"
  by (simp add: tm_inv_defs TypeAddGlobExclude_def)

lemma TM_type_inv: "tm_inv tm \<Longrightarrow> tm_inv (snd (TM_type t tm))"
  by (auto simp: tm_inv_defs TM_type_def active_consistent_rules Let_def split: option.split)

lemma TM_notype_inv: "tm_inv tm \<Longrightarrow> tm_inv (snd (TM_notype t tm))"
  by (auto simp: tm_inv_defs TM_notype_def active_consistent_rules Let_def split: option.split)

lemma TypeDel_inv: "tm_inv tm \<Longrightarrow> tm_inv (snd (TypeDel t tm))"
  by (auto simp: tm_inv_defs TypeDel_def active_consistent_rules omap_find_erase)

lemma TypeAddGlobInclude_inv:
  assumes "tm_inv tm" and "NUL \<notin> set x"
  shows "tm_inv (TypeAddGlobInclude t x tm)"
  unfolding TypeAddGlobInclude_def
  using assms push_back_NUL_free[of "m_builtin_and_user_type_map tm" "''?'' @ x" t]
  by (intro TM_type_inv) (simp add: tm_inv_defs active_consistent_rules)

lemma split_NUL_free: "NUL \<notin> set s \<Longrightarrow> x \<in> set (split s d) \<Longrightarrow> NUL \<notin> set x"
  using split_subset by blast

lemma TypeAddFromFilterSpecString_inv:
  assumes "tm_inv tm" and "NUL \<notin> set spec"
  shows "tm_inv (snd (TypeAddFromFilterSpecString del spec tm))"
proof -
  have args: "NUL \<notin> set (split spec (CHR '':'') ! 2)" if "length (split spec (CHR '':'')) = 3"
    by (rule split_NUL_free[OF assms(2), where d = "CHR '':''"]) (simp add: that)
  define tm1 where "tm1 = (if del then snd (TypeDel (split spec (CHR '':'') ! 0) tm) else tm)"
  have inv1: "tm_inv tm1"
    using assms(1) by (simp add: tm1_def TypeDel_inv)
  have exts: "tm_inv (fold (TypeAddExt t) (split a (CHR '','')) tm1)" if "NUL \<notin> set a" for t a
    using inv1 that by (intro fold_TypeAddExt_inv) (auto dest: split_NUL_free)
  show ?thesis
  proof (cases "length (split spec (CHR '':'')) = 3")
    case True
    then show ?thesis
      unfolding TypeAddFromFilterSpecString_def Let_def tm1_def[symmetric]
      using args inv1 exts
      by (simp add: TypeAddIs_inv TypeAddGlobExclude_inv TypeAddGlobInclude_inv)
  qed (use assms(1) in \<open>simp add: TypeAddFromFilterSpecString_def Let_def\<close>)
qed

lemma TypeManager_ctor_maps:
  "omap_wf (m_builtin_and_user_type_map TypeManager_ctor)"
  "m_active_type_map TypeManager_ctor = m_builtin_and_user_type_map TypeManager_ctor"
  by (simp_all add: TypeManager_ctor_def Let_def omap.wf_fold_assign)

lemma builtin_filters_NUL_free: "(t, fs) \<in> set builtin_types \<Longrightarrow> \<forall>f \<in> set fs. NUL \<notin> set f"
proof -
  have "\<forall>e \<in> set builtin_types. \<forall>f \<in> set (snd e). NUL \<notin> set f"
    unfolding builtin_types_def by simp
  then show "(t, fs) \<in> set builtin_types \<Longrightarrow> ?thesis" by fastforce
qed

lemma known_builtin:
  assumes "omap_find (m_builtin_and_user_type_map TypeManager_ctor) t = Some fs"
  shows "(t, fs) \<in> set builtin_types"
proof -
  have "(t, fs) \<in> set f_builtin_type_array"
    using assms omap.find_fold_assign[of "[]" f_builtin_type_array t]
    by (auto simp: TypeManager_ctor_def Let_def dest!: map_of_SomeD split: option.splits)
  then have "omap_find f_builtin_type_array t = Some fs"
    by (subst omap.find_entries) (simp_all add: f_builtin_type_array_def omap_wf_fold_insert)
  then show ?thesis
    by (auto simp: f_builtin_type_array_def omap_find_fold_insert dest: map_of_SomeD)
qed

lemma TypeManager_ctor_inv: "tm_inv TypeManager_ctor"
proof -
  have "filters_NUL_free TypeManager_ctor"
    unfolding filters_NUL_free_def using known_builtin builtin_filters_NUL_free by blast
  then show ?thesis
    using TypeManager_ctor_maps
    by (simp add: tm_inv_def maps_wf_def)
       (simp add: globs_consistent_def uncompiled_def TypeManager_ctor_def Let_def)
qed

lemma configured_inv: "configured tm \<Longrightarrow> tm_inv tm"
proof (induction rule: configured.induct)
  case (ignore_file tm spec)
  then have "tm_inv (snd (TypeAddFromFilterSpecString False (''IGNORE_FILE_TYPE'' @ '':'' @ spec) tm))"
    by (intro TypeAddFromFilterSpecString_inv) auto
  then show ?case
    by (auto simp: TypeAddIgnoreFileFromFilterSpecString_def TM_notype_inv split: prod.split option.split)
next
  case (include_glob tm spec)
  then have "tm_inv (snd (TypeAddFromFilterSpecString False (''INCLUDE_GLOB_FILE_TYPE:'' @ spec) tm))"
    by (intro TypeAddFromFilterSpecString_inv) auto
  then show ?case
    by (auto simp: TypeAddIncludeGlobFromFilterSpecString_def TM_type_inv split: prod.split option.split)
qed (simp_all add: TypeManager_ctor_inv TM_type_inv TM_notype_inv TypeDel_inv TypeAddFromFilterSpecString_inv)

subsection \<open>The compiled tables\<close>

lemma compile_filter_length: "length j \<le> max_size + 1 \<Longrightarrow> \<exists>m. make_microstring (drop 1 j) = Inr m"
  by (simp add: make_microstring_def)

text \<open>The active filters: those of the active types that \<open>notype\<close> has not removed.\<close>

definition active_filter :: "type_manager \<Rightarrow> string \<Rightarrow> bool" where
  "active_filter tm f \<longleftrightarrow>
     f \<in> set (concat (map snd (m_active_type_map tm))) \<and> \<not> multimap_has (m_removed_type_filters tm) f"

text \<open>What one pass does to the tables, by kind of filter.\<close>

definition kept :: "(string \<times> string) list \<Rightarrow> string \<Rightarrow> bool" where
  "kept removed j \<longleftrightarrow> \<not> multimap_has removed j"

definition fast_filter :: "string \<Rightarrow> bool" where
  "fast_filter j \<longleftrightarrow> first_char j = CHR ''.'' \<and> length j \<le> 9"

definition slow_filter :: "string \<Rightarrow> bool" where
  "slow_filter j \<longleftrightarrow> first_char j = CHR ''.'' \<and> \<not> length j \<le> 9"

definition literal_filter :: "string \<Rightarrow> bool" where
  "literal_filter j \<longleftrightarrow> first_char j \<notin> {CHR ''.'', CHR ''/'', CHR ''?''}"

definition tables_of ::
    "(string \<times> string) list \<Rightarrow> string set \<Rightarrow> microstring list \<times> type_manager \<Rightarrow> bool" where
  "tables_of removed js st \<longleftrightarrow>
     (let ks = {j \<in> js. kept removed j} in
      set (fst st) = {m. \<exists>j \<in> ks. fast_filter j \<and> make_microstring (drop 1 j) = Inr m}
      \<and> fst ` set (m_include_extensions (snd st)) = {j \<in> ks. slow_filter j}
      \<and> fst ` set (m_included_literal_filenames (snd st)) = {j \<in> ks. literal_filter j})"

text \<open>What compilation never touches.\<close>

definition same_config :: "type_manager \<Rightarrow> type_manager \<Rightarrow> bool" where
  "same_config tm tm' \<longleftrightarrow>
     m_active_type_map tm' = m_active_type_map tm
     \<and> m_builtin_and_user_type_map tm' = m_builtin_and_user_type_map tm
     \<and> m_removed_type_filters tm' = m_removed_type_filters tm
     \<and> m_exclude_globs tm' = m_exclude_globs tm
     \<and> m_include_exclude_globs tm' = m_include_exclude_globs tm
     \<and> m_first_type_has_been_seen tm' = m_first_type_has_been_seen tm"

lemma compile_filter_config: "same_config tm0 (snd st) \<Longrightarrow> same_config tm0 (snd (compile_filter t j st))"
  by (cases st) (auto simp: compile_filter_def same_config_def split: sum.split)

lemma compile_filter_tables:
  assumes "tables_of removed js st" and "m_removed_type_filters (snd st) = removed"
  shows "tables_of removed (insert j js) (compile_filter t j st)"
proof -
  obtain S tm where st: "st = (S, tm)" by (cases st)
  have removed: "m_removed_type_filters tm = removed" using assms(2) st by simp
  consider (gone) "\<not> kept removed j"
    | (fast) "kept removed j" "fast_filter j"
    | (slow) "kept removed j" "slow_filter j"
    | (other) "kept removed j" "first_char j \<noteq> CHR ''.''"
    by (auto simp: fast_filter_def slow_filter_def)
  then show ?thesis
  proof cases
    case gone
    then have "compile_filter t j st = st" by (simp add: compile_filter_def st removed kept_def)
    moreover have "{k \<in> insert j js. kept removed k} = {k \<in> js. kept removed k}" using gone by auto
    ultimately show ?thesis using assms(1) by (simp add: tables_of_def)
  next
    case fast
    then obtain m where m: "make_microstring (drop 1 j) = Inr m"
      using compile_filter_length[of j] by (auto simp: fast_filter_def max_size_def)
    with fast have "compile_filter t j st = (oset_insert m S, tm)"
      by (simp add: compile_filter_def st removed kept_def fast_filter_def max_size_def)
    with assms(1) fast m show ?thesis
      by (auto simp: tables_of_def st fast_filter_def slow_filter_def literal_filter_def)
  next
    case slow
    then have "compile_filter t j st = (S, tm\<lparr>m_include_extensions := m_include_extensions tm @ [(j, t)]\<rparr>)"
      by (simp add: compile_filter_def st removed kept_def slow_filter_def max_size_def)
    with assms(1) slow show ?thesis
      by (auto simp: tables_of_def st fast_filter_def slow_filter_def literal_filter_def)
  next
    case other
    then have c: "compile_filter t j st =
        (if first_char j = CHR ''/'' then
           (S, tm\<lparr>m_included_first_line_regexes := m_included_first_line_regexes tm @ [(j, t)]\<rparr>)
         else if first_char j = CHR ''?'' then st
         else (S, tm\<lparr>m_included_literal_filenames := m_included_literal_filenames tm @ [(j, t)]\<rparr>))"
      by (simp add: compile_filter_def st removed kept_def)
    show ?thesis unfolding c using assms(1) other
      by (auto simp: tables_of_def st fast_filter_def slow_filter_def literal_filter_def)
  qed
qed

lemma compile_filters_tables:
  assumes "tables_of (m_removed_type_filters tm0) js st" and "same_config tm0 (snd st)"
  shows "tables_of (m_removed_type_filters tm0) (set fs \<union> js) (fold (compile_filter t) fs st)
    \<and> same_config tm0 (snd (fold (compile_filter t) fs st))"
  using assms
proof (induction fs arbitrary: st js)
  case (Cons f fs)
  have "tables_of (m_removed_type_filters tm0) (insert f js) (compile_filter t f st)"
    using Cons.prems by (intro compile_filter_tables) (simp_all add: same_config_def)
  with Cons.IH[of "insert f js" "compile_filter t f st"] Cons.prems show ?case
    by (simp add: compile_filter_config)
qed simp

lemma compile_types_tables:
  assumes "tables_of (m_removed_type_filters tm0) js st" and "same_config tm0 (snd st)"
  shows "tables_of (m_removed_type_filters tm0) (set (concat (map snd types)) \<union> js)
           (fold (\<lambda>(t, fs) st. fold (compile_filter t) fs st) types st)
    \<and> same_config tm0 (snd (fold (\<lambda>(t, fs) st. fold (compile_filter t) fs st) types st))"
  using assms
proof (induction types arbitrary: st js)
  case (Cons e types)
  obtain t fs where e: "e = (t, fs)" by (cases e)
  from compile_filters_tables[OF Cons.prems, of fs t]
    Cons.IH[of "set fs \<union> js" "fold (compile_filter t) fs st"]
  show ?case by (simp add: e Un_left_commute Un_assoc)
qed simp

lemma CompileTypeTables_tables:
  assumes "uncompiled tm"
  shows "sorted (m_fast_include_extensions (CompileTypeTables tm))"
    and "m \<in> set (m_fast_include_extensions (CompileTypeTables tm)) \<longleftrightarrow>
           (\<exists>j. active_filter tm j \<and> fast_filter j \<and> make_microstring (drop 1 j) = Inr m)"
    and "multimap_has (m_include_extensions (CompileTypeTables tm)) f \<longleftrightarrow>
           active_filter tm f \<and> slow_filter f"
    and "multimap_has (m_included_literal_filenames (CompileTypeTables tm)) f \<longleftrightarrow>
           active_filter tm f \<and> literal_filter f"
    and "same_config tm (CompileTypeTables tm)"
proof -
  define st where "st = fold (\<lambda>(t, fs) st. fold (compile_filter t) fs st) (m_active_type_map tm) ([], tm)"
  have comp: "CompileTypeTables tm = (snd st)\<lparr>m_fast_include_extensions := sort (fst st)\<rparr>"
    by (simp add: CompileTypeTables_def st_def case_prod_beta)
  have start: "tables_of (m_removed_type_filters tm) {} ([], tm)"
    using assms by (simp add: tables_of_def uncompiled_def)
  have "same_config tm tm" by (simp add: same_config_def)
  with compile_types_tables[OF start, of "m_active_type_map tm"]
  have t: "tables_of (m_removed_type_filters tm) (set (concat (map snd (m_active_type_map tm)))) st"
    and c: "same_config tm (snd st)"
    by (simp_all add: st_def)
  have act: "active_filter tm j \<longleftrightarrow>
      j \<in> {j \<in> set (concat (map snd (m_active_type_map tm))). kept (m_removed_type_filters tm) j}" for j
    by (simp add: active_filter_def kept_def)
  show "sorted (m_fast_include_extensions (CompileTypeTables tm))"
    by (simp add: comp)
  show "m \<in> set (m_fast_include_extensions (CompileTypeTables tm)) \<longleftrightarrow>
      (\<exists>j. active_filter tm j \<and> fast_filter j \<and> make_microstring (drop 1 j) = Inr m)"
    using t unfolding act tables_of_def Let_def by (auto simp: comp)
  show "multimap_has (m_include_extensions (CompileTypeTables tm)) f \<longleftrightarrow>
      active_filter tm f \<and> slow_filter f"
    using t unfolding act tables_of_def Let_def by (simp add: comp multimap_has_def)
  show "multimap_has (m_included_literal_filenames (CompileTypeTables tm)) f \<longleftrightarrow>
      active_filter tm f \<and> literal_filter f"
    using t unfolding act tables_of_def Let_def by (simp add: comp multimap_has_def)
  show "same_config tm (CompileTypeTables tm)"
    using c by (simp add: comp same_config_def)
qed

subsection \<open>The file-name test\<close>

text \<open>
  The specification: \<open>e\<close> is the extension of \<open>name\<close> (from its last period on, provided something is
  in front of it); a name is selected by an active extension filter or an active literal filter; a
  selected name is scanned unless an exclude glob matches it; otherwise the last glob of the
  include/exclude sequence that matches decides.
\<close>

definition has_extension :: "string \<Rightarrow> string \<Rightarrow> bool" where
  "has_extension name e \<longleftrightarrow>
     (\<exists>b r. name = b @ e \<and> b \<noteq> [] \<and> e = CHR ''.'' # r \<and> CHR ''.'' \<notin> set r)"

definition selected_name :: "type_manager \<Rightarrow> string \<Rightarrow> bool" where
  "selected_name tm name \<longleftrightarrow>
     (\<exists>e. has_extension name e \<and> active_filter tm e) \<or> (literal_filter name \<and> active_filter tm name)"

definition last_glob_includes :: "(string \<Rightarrow> string \<Rightarrow> bool) \<Rightarrow> type_manager \<Rightarrow> string \<Rightarrow> bool" where
  "last_glob_includes fnm tm name \<longleftrightarrow>
     (let hits = filter (\<lambda>g. fnm (fst g) name) (m_include_exclude_globs tm)
      in hits \<noteq> [] \<and> snd (last hits))"

definition scan_spec :: "(string \<Rightarrow> string \<Rightarrow> bool) \<Rightarrow> type_manager \<Rightarrow> string \<Rightarrow> bool" where
  "scan_spec fnm tm name \<longleftrightarrow>
     (if selected_name tm name
      then \<not> (\<exists>g. (g, False) \<in> set (m_include_exclude_globs tm) \<and> fnm g name)
      else last_glob_includes fnm tm name)"

lemma find_last_of_iff:
  "find_last_of c s = Some i \<longleftrightarrow> i < length s \<and> s ! i = c \<and> c \<notin> set (drop (Suc i) s)"
proof (induction s rule: rev_induct)
  case (snoc d s)
  show ?case
  proof (cases "d = c")
    case True
    have "i < length s \<Longrightarrow> d \<in> set (drop (Suc i) s @ [d])" by simp
    with True show ?thesis by (auto simp: find_last_of_def nth_append less_Suc_eq)
  next
    case False
    have "find_last_of c (s @ [d]) = find_last_of c s"
      using False find_if_lt_iff[of "\<lambda>d. d = c" "rev s"] by (auto simp: find_last_of_def)
    with snoc.IH False show ?thesis by (auto simp: nth_append less_Suc_eq)
  qed
qed (simp add: find_last_of_def)

lemma has_extension_iff:
  "has_extension name e \<longleftrightarrow>
     (\<exists>i. find_last_of (CHR ''.'') name = Some i \<and> i \<noteq> 0 \<and> e = drop i name)"
proof
  assume "has_extension name e"
  then obtain b r where n: "name = b @ e" "b \<noteq> []" "e = CHR ''.'' # r" "CHR ''.'' \<notin> set r"
    by (auto simp: has_extension_def)
  then have "find_last_of (CHR ''.'') name = Some (length b)"
    by (subst find_last_of_iff) auto
  with n show "\<exists>i. find_last_of (CHR ''.'') name = Some i \<and> i \<noteq> 0 \<and> e = drop i name"
    by (intro exI[of _ "length b"]) auto
next
  assume "\<exists>i. find_last_of (CHR ''.'') name = Some i \<and> i \<noteq> 0 \<and> e = drop i name"
  then obtain i where i: "i < length name" "name ! i = CHR ''.''" "CHR ''.'' \<notin> set (drop (Suc i) name)"
      "i \<noteq> 0" "e = drop i name"
    by (auto simp: find_last_of_iff)
  then have "e = CHR ''.'' # drop (Suc i) name" by (simp add: Cons_nth_drop_Suc[symmetric])
  with i show "has_extension name e" unfolding has_extension_def
    by (intro exI[of _ "take i name"] exI[of _ "drop (Suc i) name"]) auto
qed

lemma glob_loop_last:
  "glob_loop fnm name globs =
     (let hits = filter (\<lambda>g. fnm (fst g) name) globs
      in if hits = [] then nomatch else if snd (last hits) then verdict_include else verdict_exclude)"
  by (induction globs rule: rev_induct) (auto simp: glob_loop_def Let_def)

lemma excluded_iff:
  "globs_consistent tm \<Longrightarrow>
     IsExcludedByAnyGlob fnm tm name \<longleftrightarrow> (\<exists>g. (g, False) \<in> set (m_include_exclude_globs tm) \<and> fnm g name)"
  by (force simp: IsExcludedByAnyGlob_def globs_consistent_def list_ex_iff)

lemma active_filter_NUL_free:
  assumes "tm_inv tm" and "active_filter tm f"
  shows "NUL \<notin> set f"
proof -
  obtain t fs where tf: "(t, fs) \<in> set (m_active_type_map tm)" "f \<in> set fs"
    using assms(2) by (auto simp: active_filter_def)
  moreover have "omap_wf (m_active_type_map tm)" using assms(1) by (simp add: tm_inv_def maps_wf_def)
  ultimately have "omap_find (m_active_type_map tm) t = Some fs" by (simp add: omap.find_entries)
  then obtain gs where "omap_find (m_builtin_and_user_type_map tm) t = Some gs" "suffix fs gs"
    using assms(1) by (auto simp: tm_inv_def maps_wf_def active_consistent_def)
  moreover from this(2) tf(2) have "f \<in> set gs" using set_mono_suffix by blast
  ultimately show ?thesis
    using assms(1) by (simp add: tm_inv_def filters_NUL_free_def)
qed

text \<open>The extension lookup on the compiled tables, whichever of the two tables serves the length.\<close>

definition extension_found :: "type_manager \<Rightarrow> string \<Rightarrow> bool" where
  "extension_found ct e \<longleftrightarrow>
     (if length e \<le> max_size + 1
      then (case make_microstring (drop 1 e) of
              Inr mext \<Rightarrow> std_binary_search (m_fast_include_extensions ct) mext
            | Inl _ \<Rightarrow> False)
      else multimap_has (m_include_extensions ct) e)"

lemma extension_found_iff:
  assumes "tm_inv tm" and "NUL \<notin> set e" and "first_char e = CHR ''.''"
  shows "extension_found (CompileTypeTables tm) e \<longleftrightarrow> active_filter tm e"
proof -
  have un: "uncompiled tm" using assms(1) by (simp add: tm_inv_def)
  note tables = CompileTypeTables_tables[OF un]
  obtain r where e: "e = CHR ''.'' # r" using assms(3) by (cases e) (auto simp: first_char_def)
  show ?thesis
  proof (cases "length e \<le> max_size + 1")
    case True
    then obtain m where m: "make_microstring r = Inr m"
      using compile_filter_length[of e] by (auto simp: e)
    have same: "j = e" if j: "active_filter tm j" "fast_filter j" "make_microstring (drop 1 j) = Inr m" for j
    proof -
      obtain q where q: "j = CHR ''.'' # q"
        using j(2) by (cases j) (auto simp: fast_filter_def first_char_def)
      have "NUL \<notin> set j" using active_filter_NUL_free[OF assms(1) j(1)] .
      then show ?thesis
        using microstring_eq_iff[of q m r m] j(3) m assms(2) by (simp add: q e)
    qed
    have "extension_found (CompileTypeTables tm) e \<longleftrightarrow>
        (\<exists>j. active_filter tm j \<and> fast_filter j \<and> make_microstring (drop 1 j) = Inr m)"
      using True m by (simp add: extension_found_def e std_binary_search_iff[OF tables(1)] tables(2))
    also have "\<dots> \<longleftrightarrow> active_filter tm e"
    proof
      assume "active_filter tm e"
      then show "\<exists>j. active_filter tm j \<and> fast_filter j \<and> make_microstring (drop 1 j) = Inr m"
        using m True assms(3) by (intro exI[of _ e]) (simp add: e fast_filter_def max_size_def)
    qed (use same in blast)
    finally show ?thesis .
  next
    case False
    then show ?thesis
      using assms(3) by (simp add: extension_found_def tables(3) slow_filter_def max_size_def)
  qed
qed

lemma FileShouldBeScanned_unfold:
  "FileShouldBeScanned fnm ct name =
     (if (\<exists>e. has_extension name e \<and> extension_found ct e)
         \<or> multimap_has (m_included_literal_filenames ct) name
      then \<not> IsExcludedByAnyGlob fnm ct name
      else glob_loop fnm name (m_include_exclude_globs ct) = verdict_include)"
proof (cases "find_last_of (CHR ''.'') name")
  case None
  then show ?thesis by (simp add: FileShouldBeScanned_def has_extension_iff)
next
  case (Some i)
  then have "i < length name" by (simp add: find_last_of_iff)
  then have "length (drop i name) = length name - i" by simp
  moreover have "drop 1 (drop i name) = drop (i + 1) name" by simp
  ultimately have "extension_found ct (drop i name) \<longleftrightarrow>
      (if length name - i \<le> max_size + 1
       then (case make_microstring (drop (i + 1) name) of
               Inr mext \<Rightarrow> std_binary_search (m_fast_include_extensions ct) mext
             | Inl _ \<Rightarrow> False)
       else multimap_has (m_include_extensions ct) (drop i name))"
    by (simp only: extension_found_def)
  moreover have "(\<exists>e. has_extension name e \<and> extension_found ct e) \<longleftrightarrow>
      i \<noteq> 0 \<and> extension_found ct (drop i name)"
    by (auto simp: has_extension_iff Some)
  ultimately show ?thesis
    by (simp add: FileShouldBeScanned_def Some Let_def)
qed

lemma FileShouldBeScanned_compiled:
  assumes "tm_inv tm" and "NUL \<notin> set name"
  shows "FileShouldBeScanned fnm (CompileTypeTables tm) name \<longleftrightarrow> scan_spec fnm tm name"
proof -
  let ?ct = "CompileTypeTables tm"
  have un: "uncompiled tm" and globs: "globs_consistent tm"
    using assms(1) by (simp_all add: tm_inv_def)
  note tables = CompileTypeTables_tables[OF un]
  have cfg: "m_exclude_globs ?ct = m_exclude_globs tm"
      "m_include_exclude_globs ?ct = m_include_exclude_globs tm"
    using tables(5) by (simp_all add: same_config_def)
  have "extension_found ?ct e \<longleftrightarrow> active_filter tm e" if "has_extension name e" for e
    using that assms by (intro extension_found_iff) (auto simp: has_extension_def first_char_def)
  then have "(\<exists>e. has_extension name e \<and> extension_found ?ct e)
      \<or> multimap_has (m_included_literal_filenames ?ct) name \<longleftrightarrow> selected_name tm name"
    by (auto simp: selected_name_def tables(4))
  moreover have "IsExcludedByAnyGlob fnm ?ct name \<longleftrightarrow> IsExcludedByAnyGlob fnm tm name"
    by (simp add: IsExcludedByAnyGlob_def cfg)
  ultimately show ?thesis
    by (simp add: FileShouldBeScanned_unfold scan_spec_def excluded_iff[OF globs] cfg glob_loop_last
        last_glob_includes_def Let_def)
qed

subsection \<open>Selecting and deselecting types\<close>

lemma fold_multimap_erase:
  "multimap_has (fold (\<lambda>i mm. multimap_erase mm i) fs mm) f \<longleftrightarrow> multimap_has mm f \<and> f \<notin> set fs"
proof (induction fs arbitrary: mm)
  case (Cons g fs)
  have "multimap_has (multimap_erase mm g) f \<longleftrightarrow> multimap_has mm f \<and> f \<noteq> g"
    by (force simp: multimap_has_def multimap_erase_def)
  with Cons.IH show ?case by auto
qed simp

lemma fold_multimap_insert:
  "multimap_has (fold (\<lambda>i mm. mm @ [(i, t)]) fs mm) f \<longleftrightarrow> multimap_has mm f \<or> f \<in> set fs"
proof (induction fs arbitrary: mm)
  case (Cons g fs)
  have "multimap_has (mm @ [(g, t)]) f \<longleftrightarrow> multimap_has mm f \<or> f = g"
    by (auto simp: multimap_has_def)
  with Cons.IH show ?case by auto
qed simp

text \<open>Membership in the active map, stated by lookups.\<close>

definition in_active :: "(string, string list) omap \<Rightarrow> string \<Rightarrow> bool" where
  "in_active m f \<longleftrightarrow> f \<in> set (concat (map snd m))"

lemma in_active_iff: "omap_wf m \<Longrightarrow> in_active m f \<longleftrightarrow> (\<exists>t fs. omap_find m t = Some fs \<and> f \<in> set fs)"
  by (force simp: in_active_def omap.find_entries)

lemma active_filter_alt:
  "active_filter tm f \<longleftrightarrow> in_active (m_active_type_map tm) f \<and> \<not> multimap_has (m_removed_type_filters tm) f"
  by (simp add: active_filter_def in_active_def)

lemma in_active_erase:
  assumes "omap_wf act" and "active_consistent act known" and "omap_find known t = Some fs" and "f \<notin> set fs"
  shows "in_active (omap_erase act t) f \<longleftrightarrow> in_active act f"
proof -
  have "gs = [] \<or> set gs \<subseteq> set fs" if "omap_find act t = Some gs" for gs
    using assms(2,3) that by (force simp: active_consistent_def dest: set_mono_suffix)
  then have "f \<notin> set gs" if "omap_find act t = Some gs" for gs
    using assms(4) that by fastforce
  then show ?thesis
    using assms(1) by (auto simp: in_active_iff omap_find_erase) metis
qed

lemma in_active_insert:
  assumes "omap_wf act"
  shows "in_active (omap_insert act t fs) f \<longleftrightarrow> in_active act f \<or> (omap_find act t = None \<and> f \<in> set fs)"
  using assms by (auto simp: in_active_iff omap_find_insert) (metis option.distinct(1))+

lemma TM_type_first:
  assumes "\<not> m_first_type_has_been_seen tm"
    and "omap_find (m_builtin_and_user_type_map tm) t = Some fs"
  shows "fst (TM_type t tm)"
    and "m_active_type_map (snd (TM_type t tm)) = [(t, fs)]"
    and "active_filter (snd (TM_type t tm)) f \<longleftrightarrow> f \<in> set fs"
  using assms by (auto simp: TM_type_def Let_def omap_insert_def active_filter_def fold_multimap_erase)

lemma TM_notype_filters:
  assumes "tm_inv tm" and "omap_find (m_builtin_and_user_type_map tm) t = Some fs"
  shows "active_filter (snd (TM_notype t tm)) f \<longleftrightarrow> active_filter tm f \<and> f \<notin> set fs"
  using assms in_active_erase[of "m_active_type_map tm" "m_builtin_and_user_type_map tm" t fs f]
  by (auto simp: TM_notype_def active_filter_alt fold_multimap_insert tm_inv_def maps_wf_def)

lemma TM_type_later:
  assumes "tm_inv tm" and "m_first_type_has_been_seen tm"
    and "omap_find (m_builtin_and_user_type_map tm) t = Some fs"
    and "omap_find (m_active_type_map tm) t = None"
  shows "active_filter (snd (TM_type t tm)) f \<longleftrightarrow> active_filter tm f \<or> f \<in> set fs"
  using assms
  by (auto simp: TM_type_def active_filter_alt fold_multimap_erase tm_inv_def maps_wf_def in_active_insert)

lemma TM_type_known [simp]:
  "m_builtin_and_user_type_map (snd (TM_type t tm)) = m_builtin_and_user_type_map tm"
  "m_builtin_and_user_type_map (snd (TM_notype t tm)) = m_builtin_and_user_type_map tm"
  "m_first_type_has_been_seen (snd (TM_notype t tm)) = m_first_type_has_been_seen tm"
  by (auto simp: TM_type_def TM_notype_def Let_def split: option.split)

lemma TM_notype_type:
  assumes "tm_inv tm" and "omap_find (m_builtin_and_user_type_map tm) t = Some fs"
    and "m_first_type_has_been_seen tm"
  shows "active_filter (snd (TM_type t (snd (TM_notype t tm)))) f \<longleftrightarrow> active_filter tm f \<or> f \<in> set fs"
proof -
  have "omap_find (m_active_type_map (snd (TM_notype t tm))) t = None"
    using assms by (simp add: TM_notype_def tm_inv_def maps_wf_def omap_find_erase)
  with assms TM_type_later[of "snd (TM_notype t tm)" t fs f] show ?thesis
    by (auto simp: TM_notype_inv TM_notype_filters)
qed

text \<open>The built-in table, by name.\<close>

lemma known_ctor: "omap_find (m_builtin_and_user_type_map TypeManager_ctor) t = map_of builtin_types t"
proof -
  have wf: "omap_wf f_builtin_type_array"
    by (simp add: f_builtin_type_array_def omap_wf_fold_insert)
  have "map_of (rev f_builtin_type_array) t = omap_find f_builtin_type_array t"
  proof -
    have "distinct (map fst f_builtin_type_array)"
      using wf by (simp add: omap_wf_def strict_sorted_iff)
    then have "distinct (map fst (rev f_builtin_type_array))"
      by (simp add: rev_map[symmetric])
    then have "map_of (rev f_builtin_type_array) t = Some v \<longleftrightarrow> omap_find f_builtin_type_array t = Some v" for v
      using wf by (simp add: omap.find_entries map_of_eq_Some_iff)
    then show ?thesis by (metis not_Some_eq)
  qed
  then show ?thesis
    by (simp add: TypeManager_ctor_def Let_def omap.find_fold_assign f_builtin_type_array_def
        omap_find_fold_insert split: option.split)
qed

subsection \<open>Prefixes of type names\<close>

lemma prefix_interval:
  fixes p :: string
  shows "prefix p t \<Longrightarrow> p \<le> u \<Longrightarrow> u \<le> t \<Longrightarrow> prefix p u"
proof (induction p arbitrary: t u)
  case (Cons c p)
  then obtain t' where t: "t = c # t'" "prefix p t'" by (cases t) auto
  from Cons.prems(2) obtain d u' where u: "u = d # u'" by (cases u) auto
  with t Cons.prems(2,3) have "d = c" "p \<le> u'" "u' \<le> t'" by auto
  with Cons.IH t(2) u show ?case by simp
qed simp

lemma prefix_le: "prefix p t \<Longrightarrow> p \<le> (t :: string)"
proof (induction p arbitrary: t)
  case (Cons c p)
  then show ?case by (cases t) auto
qed simp

lemma takeWhile_sorted_member:
  assumes "sorted_wrt (<) xs" and "x \<in> set xs" and "\<And>y. y \<in> set xs \<Longrightarrow> y \<le> x \<Longrightarrow> P y"
  shows "x \<in> set (takeWhile P (xs :: 'a::linorder list))"
  using assms
proof (induction xs)
  case (Cons z xs)
  have "P z" using Cons.prems by (auto intro: order.strict_implies_order)
  with Cons show ?case by auto
qed simp

lemma GetMatchingTypenameList_complete:
  assumes "tm_inv tm" and "IsType t tm" and "prefix p t"
  shows "t \<in> set (GetMatchingTypenameList p tm)"
proof -
  let ?m = "m_builtin_and_user_type_map tm"
  have wf: "omap_wf ?m" using assms(1) by (simp add: tm_inv_def maps_wf_def)
  obtain fs where "(t, fs) \<in> set ?m"
    using assms(2) wf by (auto simp: IsType_def omap.find_entries)
  then have "(t, fs) \<in> set (omap_from ?m p)"
    using prefix_le[OF assms(3)] by (simp add: omap_from_set[OF wf])
  then have "t \<in> set (map fst (omap_from ?m p))" by force
  moreover have "sublist p u" if "u \<in> set (map fst (omap_from ?m p))" "u \<le> t" for u
    using that prefix_interval[OF assms(3), of u] by (auto simp: omap_from_set[OF wf] dest: prefix_imp_sublist)
  ultimately show ?thesis
    unfolding GetMatchingTypenameList_def
    using omap_wf_from[OF wf, of p] by (intro takeWhile_sorted_member) (simp_all add: omap_wf_def)
qed

lemma GetMatchingTypenameList_sound:
  assumes "tm_inv tm"
  shows "sorted_wrt (<) (GetMatchingTypenameList p tm)"
    and "t \<in> set (GetMatchingTypenameList p tm) \<Longrightarrow> IsType t tm \<and> sublist p t \<and> p \<le> t"
proof -
  let ?m = "m_builtin_and_user_type_map tm"
  have wf: "omap_wf ?m" using assms by (simp add: tm_inv_def maps_wf_def)
  show "sorted_wrt (<) (GetMatchingTypenameList p tm)"
    unfolding GetMatchingTypenameList_def
    using omap_wf_from[OF wf, of p] by (simp add: omap_wf_def sorted_wrt_takeWhile)
  assume "t \<in> set (GetMatchingTypenameList p tm)"
  then show "IsType t tm \<and> sublist p t \<and> p \<le> t"
    unfolding GetMatchingTypenameList_def
    by (force dest!: set_takeWhileD simp: omap_from_set[OF wf] IsType_def omap_find_None_iff)
qed

subsection \<open>Filter specifications\<close>

lemma TypeAddFromFilterSpecString_error:
  "fst (TypeAddFromFilterSpecString del spec tm) =
     (if length (split spec (CHR '':'')) \<noteq> 3 then Some (InvalidFilterSpecification spec)
      else if split spec (CHR '':'') ! 1 \<in> {''is'', ''ext'', ''globx'', ''glob''} then None
      else Some (UnknownFilterType (split spec (CHR '':'') ! 1) spec))"
  by (simp add: TypeAddFromFilterSpecString_def Let_def)

lemma find_fold_TypeAddExt:
  "tm_inv tm \<Longrightarrow> \<forall>x \<in> set xs. NUL \<notin> set x \<Longrightarrow> xs \<noteq> [] \<Longrightarrow>
     omap_find (m_builtin_and_user_type_map (fold (TypeAddExt t) xs tm)) t =
       Some ((case omap_find (m_builtin_and_user_type_map tm) t of Some fs \<Rightarrow> fs | None \<Rightarrow> [])
             @ map (\<lambda>x. CHR ''.'' # x) xs)"
proof (induction xs arbitrary: tm)
  case (Cons x xs)
  have wf: "omap_wf (m_builtin_and_user_type_map tm)"
    using Cons.prems by (simp add: tm_inv_def maps_wf_def)
  show ?case
  proof (cases "xs = []")
    case True
    then show ?thesis using wf by (simp add: TypeAddExt_def omap_find_push_back)
  next
    case False
    have "tm_inv (TypeAddExt t x tm)" using Cons.prems by (simp add: TypeAddExt_inv)
    with Cons.IH[OF this] Cons.prems False wf show ?thesis
      by (simp add: TypeAddExt_def omap_find_push_back)
  qed
qed simp

lemma fields_3: "d \<notin> set a \<Longrightarrow> d \<notin> set b \<Longrightarrow> d \<notin> set c \<Longrightarrow>
    str_fields d (a @ d # b @ d # c) = [a, b, c]"
  by (simp add: fields_append fields_single)

lemma TypeAddFromFilterSpecString_ext:
  assumes "configured tm" and "NUL \<notin> set exts"
    and "t \<noteq> []" and "CHR '':'' \<notin> set t" and "CHR '':'' \<notin> set exts"
    and "split exts (CHR '','') \<noteq> []"
  shows "\<exists>tm'. TypeAddFromFilterSpecString False (t @ '':ext:'' @ exts) tm = (None, tm')
    \<and> omap_find (m_builtin_and_user_type_map tm') t =
        Some ((case omap_find (m_builtin_and_user_type_map tm) t of Some fs \<Rightarrow> fs | None \<Rightarrow> [])
              @ map (\<lambda>x. CHR ''.'' # x) (split exts (CHR '','')))"
proof -
  have "exts \<noteq> []" using assms(6) by (auto simp: split_fields)
  then have "split (t @ '':ext:'' @ exts) (CHR '':'') = [t, ''ext'', exts]"
    using assms(3-5) fields_3[of "CHR '':''" t "''ext''" exts] by (simp add: split_fields)
  then have "TypeAddFromFilterSpecString False (t @ '':ext:'' @ exts) tm =
      (None, fold (TypeAddExt t) (split exts (CHR '','')) tm)"
    by (simp add: TypeAddFromFilterSpecString_def)
  moreover have "\<forall>x \<in> set (split exts (CHR '','')). NUL \<notin> set x"
    using assms(2) by (auto dest: split_NUL_free)
  ultimately show ?thesis
    using find_fold_TypeAddExt configured_inv[OF assms(1)] assms(6) by simp
qed

subsection \<open>Properties\<close>

text \<open>A small configuration for the instances below: \<open>--type=rust\<close> on the built-in table.\<close>

abbreviation rust_config :: type_manager where
  "rust_config \<equiv> snd (TM_type ''rust'' TypeManager_ctor)"

lemma ctor_unseen: "\<not> m_first_type_has_been_seen TypeManager_ctor"
  by (simp add: TypeManager_ctor_def Let_def)

lemma rust_only:
  "omap_find (m_builtin_and_user_type_map TypeManager_ctor) ''rust'' = Some [''.rs'']"
  by (simp add: known_ctor builtin_types_def)

lemma rust_configured: "configured rust_config"
  by (intro configured.type configured.ctor)

lemma rust_seen: "m_first_type_has_been_seen rust_config"
  using rust_only ctor_unseen by (simp add: TM_type_def Let_def)

lemma rust_active: "m_active_type_map rust_config = [(''rust'', [''.rs''])]"
  using TM_type_first(2)[OF ctor_unseen rust_only] .

text \<open>
  C10. On every configuration the option parser can produce, compiling the tables and testing a file
  name against them (extension in the binary-searched microstring table or in the hash map, literal
  name, exclude globs, glob sequence) is the specification on the uncompiled type maps.
\<close>

theorem FileShouldBeScanned_spec:
  assumes "configured tm" and "NUL \<notin> set name"
  shows "FileShouldBeScanned fnm (CompileTypeTables tm) name \<longleftrightarrow> scan_spec fnm tm name"
  using FileShouldBeScanned_compiled[OF configured_inv[OF assms(1)] assms(2)] .

theorem FileShouldBeScanned_spec_witness:
  "FileShouldBeScanned (\<lambda>p n. p = n) (CompileTypeTables rust_config) ''main.rs''"
proof -
  note spec = FileShouldBeScanned_spec[OF rust_configured, of "''main.rs''" "\<lambda>p n. p = n"]
  have "has_extension ''main.rs'' ''.rs''" by (auto simp: has_extension_def)
  moreover have "active_filter rust_config ''.rs''" by (simp add: TM_type_first(3)[OF ctor_unseen rust_only])
  ultimately have "selected_name rust_config ''main.rs''" by (auto simp: selected_name_def)
  moreover have "m_include_exclude_globs rust_config = []"
    by (simp add: TM_type_def TypeManager_ctor_def Let_def split: option.split)
  ultimately show ?thesis using spec by (simp add: scan_spec_def)
qed

text \<open>
  C26. In every reachable configuration the active type map is consistent with the map of known
  types: an active type is known, and its active filters are the last ones added to it.
\<close>

theorem active_types_known:
  assumes "configured tm" and "omap_find (m_active_type_map tm) t = Some fs"
  shows "\<exists>gs. omap_find (m_builtin_and_user_type_map tm) t = Some gs \<and> suffix fs gs"
  using configured_inv[OF assms(1)] assms(2)
  by (simp add: tm_inv_def maps_wf_def active_consistent_def)

theorem active_types_known_witness:
  "\<exists>gs. omap_find (m_builtin_and_user_type_map rust_config) ''rust'' = Some gs \<and> suffix [''.rs''] gs"
  by (rule active_types_known[OF rust_configured]) (simp add: rust_active)

text \<open>
  The first \<open>--type=\<close> replaces the whole active set: afterwards exactly the filters of the given
  type are active, also those an earlier \<open>--notype=\<close> had removed.
\<close>

theorem first_type_selects_only:
  assumes "\<not> m_first_type_has_been_seen tm"
    and "omap_find (m_builtin_and_user_type_map tm) t = Some fs"
  shows "fst (TM_type t tm) \<and> (active_filter (snd (TM_type t tm)) f \<longleftrightarrow> f \<in> set fs)"
  using TM_type_first[OF assms] by simp

theorem first_type_selects_only_witness: "\<not> active_filter rust_config ''.cpp''"
  using first_type_selects_only[OF ctor_unseen rust_only, of "''.cpp''"] by simp

text \<open>
  \<open>--notype=T\<close> removes exactly the filters of \<open>T\<close>, also where another type has them; a later
  \<open>--type=T\<close> brings exactly these back.
\<close>

theorem notype_then_type:
  assumes "configured tm" and "m_first_type_has_been_seen tm"
    and "omap_find (m_builtin_and_user_type_map tm) t = Some fs"
  shows "(active_filter (snd (TM_notype t tm)) f \<longleftrightarrow> active_filter tm f \<and> f \<notin> set fs)
    \<and> (active_filter (snd (TM_type t (snd (TM_notype t tm)))) f \<longleftrightarrow> active_filter tm f \<or> f \<in> set fs)"
  using TM_notype_filters[OF configured_inv[OF assms(1)] assms(3)]
    TM_notype_type[OF configured_inv[OF assms(1)] assms(3,2)] by blast

theorem notype_then_type_witness:
  "\<not> active_filter (snd (TM_notype ''rust'' rust_config)) ''.rs''
   \<and> active_filter (snd (TM_type ''rust'' (snd (TM_notype ''rust'' rust_config)))) ''.rs''"
  using notype_then_type[OF rust_configured rust_seen, of "''rust''" "[''.rs'']" "''.rs''"] rust_only
  by simp

text \<open>
  The type names offered for a prefix: every known type with that prefix is in the list, every
  element of the list is a known type that contains the argument, and the list is in strictly
  increasing order.
\<close>

theorem GetMatchingTypenameList_spec:
  assumes "configured tm"
  shows "sorted_wrt (<) (GetMatchingTypenameList p tm)
    \<and> {t. IsType t tm \<and> prefix p t} \<subseteq> set (GetMatchingTypenameList p tm)
    \<and> set (GetMatchingTypenameList p tm) \<subseteq> {t. IsType t tm \<and> sublist p t}"
  using GetMatchingTypenameList_sound[OF configured_inv[OF assms]]
    GetMatchingTypenameList_complete[OF configured_inv[OF assms]] by blast

theorem GetMatchingTypenameList_spec_witness:
  "''perltest'' \<in> set (GetMatchingTypenameList ''perl'' TypeManager_ctor)"
proof -
  have "IsType ''perltest'' TypeManager_ctor" by (simp add: IsType_def known_ctor builtin_types_def)
  moreover have "prefix ''perl'' ''perltest''" by simp
  ultimately show ?thesis
    using GetMatchingTypenameList_spec[OF configured.ctor, of "''perl''"] by blast
qed

text \<open>
  A full type name that is a proper prefix of another type name is reported as ambiguous:
  the list of candidates for it has at least two elements.
\<close>

theorem type_name_ambiguous:
  assumes "configured tm" and "IsType t tm" and "IsType (t @ s) tm" and "s \<noteq> []"
  shows "1 < length (GetMatchingTypenameList t tm)"
proof -
  have "{t, t @ s} \<subseteq> set (GetMatchingTypenameList t tm)"
    using GetMatchingTypenameList_complete[OF configured_inv[OF assms(1)]] assms(2,3) by auto
  then have "card {t, t @ s} \<le> length (GetMatchingTypenameList t tm)"
    by (meson card_length card_mono finite_set order.trans)
  with assms(4) show ?thesis by simp
qed

theorem type_name_ambiguous_witness:
  "1 < length (GetMatchingTypenameList ''js'' TypeManager_ctor)"
  by (rule type_name_ambiguous[of _ _ "''on''"])
     (simp_all add: configured.ctor IsType_def known_ctor builtin_types_def)

text \<open>
  \<open>--type-add=T:ext:E1,E2,...\<close> succeeds and appends the filters \<open>.E1\<close>, \<open>.E2\<close>, ... to the type,
  creating it when it is new.
\<close>

theorem type_add_ext:
  assumes "configured tm" and "NUL \<notin> set exts"
    and "t \<noteq> []" and "CHR '':'' \<notin> set t" and "CHR '':'' \<notin> set exts"
    and "split exts (CHR '','') \<noteq> []"
  shows "\<exists>tm'. TypeAddFromFilterSpecString False (t @ '':ext:'' @ exts) tm = (None, tm')
    \<and> omap_find (m_builtin_and_user_type_map tm') t =
        Some ((case omap_find (m_builtin_and_user_type_map tm) t of Some fs \<Rightarrow> fs | None \<Rightarrow> [])
              @ map (\<lambda>x. CHR ''.'' # x) (split exts (CHR '','')))"
  using TypeAddFromFilterSpecString_ext[OF assms] .

theorem type_add_ext_witness:
  "\<exists>tm'. TypeAddFromFilterSpecString False ''rust:ext:rlib,rmeta'' TypeManager_ctor = (None, tm')
    \<and> omap_find (m_builtin_and_user_type_map tm') ''rust'' = Some [''.rs'', ''.rlib'', ''.rmeta'']"
proof -
  have "split ''rlib,rmeta'' (CHR '','') = [''rlib'', ''rmeta'']" by (simp add: split_fields)
  then show ?thesis
    using type_add_ext[OF configured.ctor, of "''rlib,rmeta''" "''rust''"] rust_only by simp
qed

text \<open>
  Adding a filter to an inactive type after the first \<open>--type=\<close> and then selecting that type does
  not activate the filters it already had: \<open>insert\<close> does not replace the partial entry the
  addition has made in the active map.
\<close>

theorem type_after_add_is_partial:
  assumes "configured tm" and "m_first_type_has_been_seen tm"
    and "omap_find (m_active_type_map tm) t = None"
    and "omap_find (m_builtin_and_user_type_map tm) t = Some fs"
  shows "omap_find (m_active_type_map (snd (TM_type t (TypeAddExt t ext tm)))) t = Some [CHR ''.'' # ext]"
  using configured_inv[OF assms(1)] assms(2-)
  by (auto simp: TM_type_def TypeAddExt_def tm_inv_def maps_wf_def omap_find_rules)

theorem type_after_add_is_partial_witness:
  "omap_find (m_active_type_map (snd (TM_type ''cpp'' (TypeAddExt ''cpp'' ''tpp'' rust_config)))) ''cpp''
     = Some [''.tpp'']"
proof -
  have "\<exists>fs. omap_find (m_builtin_and_user_type_map rust_config) ''cpp'' = Some fs"
    by (simp add: known_ctor builtin_types_def)
  then show ?thesis
    using type_after_add_is_partial[OF rust_configured rust_seen, of "''cpp''"] by (auto simp: rust_active)
qed

end
