(* ===== verification/SyncQueue.thy ===== *)
theory SyncQueue
  imports Prelude
begin

text \<open>
  The synchronised queue of \<open>src/sync_queue.h\<close>. Its operations are functions on the data the mutex
  protects; each critical section is one function. \<open>pull_front\<close> has two: the entry, which counts the
  caller as waiting and may fall through to the exit at once, and the exit, which runs whenever the
  predicate of \<open>m_cv.wait\<close> holds with the mutex held.

  Around them stands a step relation for one master thread and any number of worker threads. The
  threads are interchangeable, so the state counts them: running, asleep on \<open>m_cv\<close>, woken and
  competing for the mutex, or finished (they have seen the closed queue). Notifications of \<open>m_cv\<close> are
  sent after the mutex has been released and are separate, pending steps; wake-ups may be spurious.
  The histories \<open>pushed\<close> and \<open>pulled\<close> record what went through the queue.
\<close>

subsection \<open>The protected state and its critical sections\<close>

datatype queue_op_status = success | empty | full | closed | busy | timeout | not_ready

record 'a sync_queue =
  m_underlying_queue :: "'a list"
  m_num_waiting_threads_notification_level :: nat
  m_num_waiting_threads :: nat
  m_closed :: bool

definition sync_queue_init :: "'a sync_queue" where
  "sync_queue_init =
     \<lparr> m_underlying_queue = [], m_num_waiting_threads_notification_level = 500,
       m_num_waiting_threads = 0, m_closed = False \<rparr>"

definition sync_queue_size :: "'a sync_queue \<Rightarrow> nat" where
  "sync_queue_size q = length (m_underlying_queue q)"

definition close :: "'a sync_queue \<Rightarrow> 'a sync_queue" where
  "close q = q\<lparr>m_closed := True\<rparr>"

definition push_back :: "'a \<Rightarrow> 'a sync_queue \<Rightarrow> queue_op_status \<times> 'a sync_queue" where
  "push_back x q =
     (if m_closed q then (closed, q)
      else (success, q\<lparr>m_underlying_queue := m_underlying_queue q @ [x]\<rparr>))"

definition push_back_all :: "'a list \<Rightarrow> 'a sync_queue \<Rightarrow> queue_op_status \<times> 'a sync_queue" where
  "push_back_all xs q =
     (if m_closed q then (closed, q)
      else (success, q\<lparr>m_underlying_queue := m_underlying_queue q @ xs\<rparr>))"

text \<open>
  Entry of \<open>pull_front\<close>: the caller counts as waiting; the Boolean tells whether the
  \<open>m_cv_complete\<close> waiters are notified.
\<close>

definition pull_enter :: "'a sync_queue \<Rightarrow> bool \<times> 'a sync_queue" where
  "pull_enter q =
     (let q1 = q\<lparr>m_num_waiting_threads := m_num_waiting_threads q + 1\<rparr>
      in (m_num_waiting_threads q1 = m_num_waiting_threads_notification_level q1, q1))"

text \<open>The predicate of \<open>m_cv.wait\<close>.\<close>

definition pull_ready :: "'a sync_queue \<Rightarrow> bool" where
  "pull_ready q \<longleftrightarrow> m_underlying_queue q \<noteq> [] \<or> m_closed q"

text \<open>What follows the wait: the status, with the value pulled on success.\<close>

definition pull_exit :: "'a sync_queue \<Rightarrow> (queue_op_status \<times> 'a option) \<times> 'a sync_queue" where
  "pull_exit q =
     (let q1 = q\<lparr>m_num_waiting_threads := m_num_waiting_threads q - 1\<rparr>
      in case m_underlying_queue q1 of
           [] \<Rightarrow> ((closed, None), q1)
         | x # xs \<Rightarrow> ((success, Some x), q1\<lparr>m_underlying_queue := xs\<rparr>))"

text \<open>
  A call that does not have to wait (\<open>Inr\<close> the result and the state after it); \<open>Inl\<close> the state in
  which the caller goes to sleep.
\<close>

definition pull_front ::
    "'a sync_queue \<Rightarrow> 'a sync_queue + (queue_op_status \<times> 'a option) \<times> 'a sync_queue" where
  "pull_front q =
     (let q1 = snd (pull_enter q) in if pull_ready q1 then Inr (pull_exit q1) else Inl q1)"

text \<open>\<open>wait_for_worker_completion\<close>: setting the level, its wait predicate, and its result.\<close>

definition completion_enter :: "nat \<Rightarrow> 'a sync_queue \<Rightarrow> 'a sync_queue" where
  "completion_enter num_workers q =
     (if num_workers > 0 then q\<lparr>m_num_waiting_threads_notification_level := num_workers\<rparr> else q)"

definition completion_ready :: "'a sync_queue \<Rightarrow> bool" where
  "completion_ready q \<longleftrightarrow>
     (m_num_waiting_threads q = m_num_waiting_threads_notification_level q \<and> m_underlying_queue q = [])
     \<or> m_closed q"

definition completion_exit :: "'a sync_queue \<Rightarrow> queue_op_status" where
  "completion_exit q = (if m_closed q then closed else success)"

lemmas queue_op_defs =
  close_def push_back_def push_back_all_def pull_enter_def pull_ready_def pull_exit_def
  completion_enter_def completion_ready_def completion_exit_def

subsection \<open>The contract a consumer relies on\<close>

text \<open>
  What the consumers (\<open>FileScanner::Run\<close>, \<open>OutputTask::Run\<close>) rely on: pulling from a queue with
  contents gives them in order; pulling from an empty closed queue reports \<open>closed\<close>.
\<close>

locale closable_queue =
  fixes pull :: "'q \<Rightarrow> 'q + (queue_op_status \<times> 'a option) \<times> 'q"
    and contents :: "'q \<Rightarrow> 'a list"
    and is_closed :: "'q \<Rightarrow> bool"
  assumes pull_Cons: "contents q = x # xs \<Longrightarrow>
      \<exists>q'. pull q = Inr ((success, Some x), q') \<and> contents q' = xs \<and> is_closed q' = is_closed q"
    and pull_Nil: "contents q = [] \<Longrightarrow> is_closed q \<Longrightarrow>
      \<exists>q'. pull q = Inr ((closed, None), q') \<and> contents q' = [] \<and> is_closed q'"
    and pull_wait: "contents q = [] \<Longrightarrow> \<not> is_closed q \<Longrightarrow> \<exists>q'. pull q = Inl q'"
begin

text \<open>The consumer loop, with as many iterations allowed as the first argument says.\<close>

fun consume :: "nat \<Rightarrow> ('a \<Rightarrow> 's \<Rightarrow> 's) \<Rightarrow> 'q \<Rightarrow> 's \<Rightarrow> 's option" where
  "consume 0 f q s = None"
| "consume (Suc n) f q s =
     (case pull q of
        Inr ((success, Some x), q') \<Rightarrow> consume n f q' (f x s)
      | Inr _ \<Rightarrow> Some s
      | Inl _ \<Rightarrow> None)"

lemma consume_closed:
  "is_closed q \<Longrightarrow> length (contents q) < n \<Longrightarrow> consume n f q s = Some (fold f (contents q) s)"
proof (induction n arbitrary: q s)
  case (Suc n)
  show ?case
  proof (cases "contents q")
    case Nil
    then show ?thesis using pull_Nil[OF Nil Suc.prems(1)] by auto
  next
    case (Cons x xs)
    then obtain q' where "pull q = Inr ((success, Some x), q')" "contents q' = xs" "is_closed q'"
      using pull_Cons[OF Cons] Suc.prems(1) by auto
    with Suc Cons show ?thesis by simp
  qed
qed simp

end

lemma pull_front_Cons:
  "m_underlying_queue q = x # xs \<Longrightarrow>
     pull_front q = Inr ((success, Some x), q\<lparr>m_underlying_queue := xs\<rparr>)"
  by (simp add: pull_front_def queue_op_defs Let_def)

lemma pull_front_Nil:
  "m_underlying_queue q = [] \<Longrightarrow>
     pull_front q =
       (if m_closed q then Inr ((closed, None), q)
        else Inl (q\<lparr>m_num_waiting_threads := m_num_waiting_threads q + 1\<rparr>))"
  by (simp add: pull_front_def queue_op_defs Let_def)

interpretation sq: closable_queue pull_front m_underlying_queue m_closed
  by unfold_locales (simp_all add: pull_front_Cons pull_front_Nil)

text \<open>
  The consumer loop of the program on its own queue; \<open>None\<close> stands for a consumer that sleeps for
  ever, because the queue is neither fed nor closed.
\<close>

partial_function (option) drain :: "('a \<Rightarrow> 's \<Rightarrow> 's) \<Rightarrow> 'a sync_queue \<Rightarrow> 's \<Rightarrow> 's option" where
  "drain f q s =
     (case pull_front q of
        Inl _ \<Rightarrow> None
      | Inr ((status, v), q') \<Rightarrow>
          (if status = closed then Some s
           else case v of Some x \<Rightarrow> drain f q' (f x s) | None \<Rightarrow> Some s))"

lemma drain_consume: "sq.consume n f q s = Some r \<Longrightarrow> drain f q s = Some r"
proof (induction n arbitrary: q s)
  case (Suc n)
  show ?case
  proof (cases "m_underlying_queue q")
    case Nil
    with Suc.prems show ?thesis
      by (subst drain.simps) (auto simp: pull_front_Nil split: if_splits)
  next
    case (Cons x xs)
    with Suc show ?thesis by (subst drain.simps) (simp add: pull_front_Cons)
  qed
qed simp

lemma drain_closed: "m_closed q \<Longrightarrow> drain f q s = Some (fold f (m_underlying_queue q) s)"
  by (rule drain_consume, rule sq.consume_closed, assumption, rule lessI)

subsection \<open>Threads\<close>

datatype master_phase = M_running | M_blocked | M_woken | M_returned queue_op_status

record 'a system =
  the_queue :: "'a sync_queue"
  running :: nat
  blocked :: nat
  woken :: nat
  finished :: nat
  pending_one :: nat
  pending_all :: nat
  master :: master_phase
  pushed :: "'a list"
  pulled :: "'a list"

definition system_init :: "nat \<Rightarrow> 'a system" where
  "system_init n =
     \<lparr> the_queue = sync_queue_init, running = n, blocked = 0, woken = 0, finished = 0,
       pending_one = 0, pending_all = 0, master = M_running, pushed = [], pulled = [] \<rparr>"

text \<open>A push by a thread outside the queue; the notification it owes is pending.\<close>

definition do_push :: "'a \<Rightarrow> 'a system \<Rightarrow> 'a system" where
  "do_push x s =
     (case push_back x (the_queue s) of
        (success, q) \<Rightarrow> s\<lparr>the_queue := q, pending_one := pending_one s + 1, pushed := pushed s @ [x]\<rparr>
      | (_, q) \<Rightarrow> s\<lparr>the_queue := q\<rparr>)"

definition do_push_all :: "'a list \<Rightarrow> 'a system \<Rightarrow> 'a system" where
  "do_push_all xs s =
     (case push_back_all xs (the_queue s) of
        (success, q) \<Rightarrow> s\<lparr>the_queue := q, pending_all := pending_all s + 1, pushed := pushed s @ xs\<rparr>
      | (_, q) \<Rightarrow> s\<lparr>the_queue := q\<rparr>)"

definition do_close :: "'a system \<Rightarrow> 'a system" where
  "do_close s = s\<lparr>the_queue := close (the_queue s), pending_all := pending_all s + 1\<rparr>"

text \<open>A worker leaves \<open>pull_front\<close>: with a value it runs on, on \<open>closed\<close> it is finished.\<close>

definition leave :: "'a sync_queue \<Rightarrow> 'a system \<Rightarrow> 'a system" where
  "leave q s =
     (case pull_exit q of
        ((_, Some x), q') \<Rightarrow> s\<lparr>the_queue := q', running := running s + 1, pulled := pulled s @ [x]\<rparr>
      | ((_, None), q') \<Rightarrow> s\<lparr>the_queue := q', finished := finished s + 1\<rparr>)"

text \<open>A running worker calls \<open>pull_front\<close>; it may wake the master, and it may go to sleep.\<close>

definition do_pull :: "'a system \<Rightarrow> 'a system" where
  "do_pull s =
     (let (notify, q) = pull_enter (the_queue s);
          s1 = s\<lparr>running := running s - 1,
                 master := (if notify \<and> master s = M_blocked then M_woken else master s)\<rparr>
      in if pull_ready q then leave q s1 else s1\<lparr>the_queue := q, blocked := blocked s1 + 1\<rparr>)"

text \<open>A woken worker gets the mutex and tests the predicate again.\<close>

definition do_retry :: "'a system \<Rightarrow> 'a system" where
  "do_retry s =
     (let s1 = s\<lparr>woken := woken s - 1\<rparr>
      in if pull_ready (the_queue s) then leave (the_queue s) s1
         else s1\<lparr>blocked := blocked s1 + 1\<rparr>)"

text \<open>The master: entering \<open>wait_for_worker_completion\<close>, and its test with the mutex held.\<close>

definition master_test :: "'a system \<Rightarrow> 'a system" where
  "master_test s =
     s\<lparr>master := (if completion_ready (the_queue s) then M_returned (completion_exit (the_queue s))
                  else M_blocked)\<rparr>"

definition master_wait :: "nat \<Rightarrow> 'a system \<Rightarrow> 'a system" where
  "master_wait n s = master_test (s\<lparr>the_queue := completion_enter n (the_queue s)\<rparr>)"

inductive step :: "nat \<Rightarrow> 'a system \<Rightarrow> 'a system \<Rightarrow> bool" for n where
  worker_push: "running s > 0 \<Longrightarrow> step n s (do_push x s)"
| worker_push_all: "running s > 0 \<Longrightarrow> step n s (do_push_all xs s)"
| master_push: "master s = M_running \<Longrightarrow> step n s (do_push x s)"
| master_push_all: "master s = M_running \<Longrightarrow> step n s (do_push_all xs s)"
| worker_pull: "running s > 0 \<Longrightarrow> step n s (do_pull s)"
| worker_retry: "woken s > 0 \<Longrightarrow> step n s (do_retry s)"
| notify_one: "pending_one s > 0 \<Longrightarrow> blocked s > 0 \<Longrightarrow>
    step n s (s\<lparr>pending_one := pending_one s - 1, blocked := blocked s - 1, woken := woken s + 1\<rparr>)"
| notify_none: "pending_one s > 0 \<Longrightarrow> blocked s = 0 \<Longrightarrow>
    step n s (s\<lparr>pending_one := pending_one s - 1\<rparr>)"
| notify_all: "pending_all s > 0 \<Longrightarrow>
    step n s (s\<lparr>pending_all := pending_all s - 1, blocked := 0, woken := woken s + blocked s\<rparr>)"
| spurious: "blocked s > 0 \<Longrightarrow> step n s (s\<lparr>blocked := blocked s - 1, woken := woken s + 1\<rparr>)"
| master_enter: "master s = M_running \<Longrightarrow> step n s (master_wait n s)"
| master_spurious: "master s = M_blocked \<Longrightarrow> step n s (s\<lparr>master := M_woken\<rparr>)"
| master_retry: "master s = M_woken \<Longrightarrow> step n s (master_test s)"
| master_close: "master s \<in> {M_running, M_returned success} \<Longrightarrow> step n s (do_close s)"
| worker_close: "running s > 0 \<Longrightarrow> step n s (do_close s)"

inductive reachable :: "nat \<Rightarrow> 'a system \<Rightarrow> bool" for n where
  start: "reachable n (system_init n)"
| next_step: "reachable n s \<Longrightarrow> step n s s' \<Longrightarrow> reachable n s'"

inductive_cases step_elim: "step n s s'"

subsection \<open>Invariants\<close>

lemmas action_defs =
  do_push_def do_push_all_def do_close_def do_pull_def do_retry_def leave_def
  master_wait_def master_test_def queue_op_defs

text \<open>Every thread is in one place, the waiting counter counts the threads inside \<open>pull_front\<close>.\<close>

definition counts_inv :: "nat \<Rightarrow> 'a system \<Rightarrow> bool" where
  "counts_inv n s \<longleftrightarrow>
     running s + blocked s + woken s + finished s = n
     \<and> m_num_waiting_threads (the_queue s) = blocked s + woken s"

text \<open>First in, first out: nothing is lost, duplicated or reordered.\<close>

definition fifo_inv :: "'a system \<Rightarrow> bool" where
  "fifo_inv s \<longleftrightarrow> pushed s = pulled s @ m_underlying_queue (the_queue s)"

text \<open>Work in the queue, and its closing, are matched by notifications or awake threads.\<close>

definition wakeup_inv :: "'a system \<Rightarrow> bool" where
  "wakeup_inv s \<longleftrightarrow>
     (blocked s > 0 \<longrightarrow>
        pending_all s > 0
        \<or> \<not> m_closed (the_queue s) \<and> length (m_underlying_queue (the_queue s)) \<le> pending_one s + woken s)"

text \<open>The master: its notification level, when it may be asleep, and what its return means.\<close>

definition master_inv :: "nat \<Rightarrow> 'a system \<Rightarrow> bool" where
  "master_inv n s \<longleftrightarrow>
     (master s \<noteq> M_running \<longrightarrow> m_num_waiting_threads_notification_level (the_queue s) = n)
     \<and> (master s = M_blocked \<longrightarrow> m_closed (the_queue s) \<or>
          \<not> (m_num_waiting_threads (the_queue s) = n \<and> m_underlying_queue (the_queue s) = []))
     \<and> (master s = M_returned success \<longrightarrow> running s = 0 \<and> m_underlying_queue (the_queue s) = [])
     \<and> (finished s > 0 \<longrightarrow> m_closed (the_queue s))"

lemma init_inv: "counts_inv n (system_init n) \<and> fifo_inv (system_init n) \<and> wakeup_inv (system_init n)
    \<and> master_inv n (system_init n)"
  by (simp add: counts_inv_def fifo_inv_def wakeup_inv_def master_inv_def system_init_def sync_queue_init_def)

lemma counts_step: "counts_inv n s \<Longrightarrow> step n s s' \<Longrightarrow> counts_inv n s'"
  by (erule step_elim) (auto simp: counts_inv_def action_defs Let_def split: list.splits if_splits)

lemma fifo_step: "fifo_inv s \<Longrightarrow> step n s s' \<Longrightarrow> fifo_inv s'"
  by (erule step_elim) (auto simp: fifo_inv_def action_defs Let_def split: list.splits if_splits)

lemma wakeup_step: "wakeup_inv s \<Longrightarrow> step n s s' \<Longrightarrow> wakeup_inv s'"
  by (erule step_elim) (auto simp: wakeup_inv_def action_defs Let_def split: list.splits if_splits)

lemma master_step:
  "n > 0 \<Longrightarrow> counts_inv n s \<Longrightarrow> master_inv n s \<Longrightarrow> step n s s' \<Longrightarrow> master_inv n s'"
  by (erule step_elim)
     (auto simp: counts_inv_def master_inv_def action_defs Let_def split: list.splits if_splits)

lemma reachable_inv:
  assumes "reachable n s" and "n > 0"
  shows "counts_inv n s \<and> fifo_inv s \<and> wakeup_inv s \<and> master_inv n s"
  using assms(1)
proof (induction rule: reachable.induct)
  case (next_step s s')
  then show ?case
    using counts_step[of n s s'] fifo_step[of s n s'] wakeup_step[of s n s'] master_step[OF assms(2), of s s']
    by blast
qed (rule init_inv)

subsection \<open>Properties\<close>

text \<open>
  C13. What the workers have pulled is, in order, a prefix of what has been pushed, and the rest is
  what the queue still holds, whatever the interleaving of the threads.
\<close>

theorem queue_is_fifo:
  assumes "reachable n s" and "n > 0"
  shows "pushed s = pulled s @ m_underlying_queue (the_queue s)"
  using reachable_inv[OF assms] by (simp add: fifo_inv_def)

lemma example_run: "reachable 1 (master_wait 1 (do_pull (system_init 1)))"
proof -
  have "reachable 1 (do_pull (system_init 1))"
    by (rule reachable.next_step[OF reachable.start], rule step.worker_pull) (simp add: system_init_def)
  then show ?thesis
    by (rule reachable.next_step, intro step.master_enter)
       (simp add: action_defs system_init_def sync_queue_init_def)
qed

lemma example_pull: "reachable 1 (do_pull (do_push x (system_init 1)))"
proof -
  have "reachable 1 (do_push x (system_init 1))"
    by (rule reachable.next_step[OF reachable.start], rule step.worker_push) (simp add: system_init_def)
  then show ?thesis
    by (rule reachable.next_step, intro step.worker_pull)
       (simp add: action_defs system_init_def sync_queue_init_def)
qed

theorem queue_is_fifo_witness:
  "pulled (do_pull (do_push CHR ''x'' (system_init 1))) = ''x''"
  using queue_is_fifo[OF example_pull[of "CHR ''x''"]]
  by (simp add: action_defs system_init_def sync_queue_init_def)

text \<open>
  C27. No wake-up is lost: while a worker sleeps although there is work or the queue is closed, a
  notification is pending or another worker is awake inside \<open>pull_front\<close>; and once the queue is
  closed and nothing is pending or awake, every worker has finished.
\<close>

theorem no_lost_wakeup:
  assumes "reachable n s" and "n > 0"
  shows "(blocked s > 0 \<and> pull_ready (the_queue s) \<longrightarrow> pending_one s > 0 \<or> pending_all s > 0 \<or> woken s > 0)
    \<and> (m_closed (the_queue s) \<and> running s = 0 \<and> woken s = 0 \<and> pending_all s = 0 \<longrightarrow> finished s = n)"
proof -
  have c: "counts_inv n s" and w: "wakeup_inv s" using reachable_inv[OF assms] by simp_all
  have "blocked s = 0" if "m_closed (the_queue s)" "pending_all s = 0"
    using w that by (auto simp: wakeup_inv_def)
  with c w show ?thesis
    by (auto simp: counts_inv_def wakeup_inv_def pull_ready_def)
qed

theorem no_lost_wakeup_witness:
  "let s = do_pull (system_init 1) :: nat system in blocked s = 1 \<and> \<not> pull_ready (the_queue s)"
proof -
  have "reachable 1 (do_pull (system_init 1) :: nat system)"
    by (rule reachable.next_step[OF reachable.start], rule step.worker_pull) (simp add: system_init_def)
  from no_lost_wakeup[OF this] show ?thesis
    by (simp add: action_defs system_init_def sync_queue_init_def)
qed

text \<open>
  C12. When \<open>wait_for_worker_completion\<close> returns success no worker is running, the queue is empty and
  everything pushed has been pulled; this stays so, whatever the other threads do.
\<close>

theorem completion_means_done:
  assumes "reachable n s" and "n > 0" and "master s = M_returned success"
  shows "running s = 0 \<and> m_underlying_queue (the_queue s) = [] \<and> pulled s = pushed s"
  using reachable_inv[OF assms(1,2)] assms(3) by (simp add: master_inv_def fifo_inv_def)

theorem completion_means_done_witness:
  "let s = master_wait 1 (do_pull (system_init 1)) :: nat system
   in master s = M_returned success \<and> running s = 0"
proof -
  have m: "master (master_wait 1 (do_pull (system_init 1)) :: nat system) = M_returned success"
    by (simp add: action_defs system_init_def sync_queue_init_def)
  show ?thesis
    using completion_means_done[OF example_run zero_less_one m] m by (simp add: Let_def)
qed

text \<open>
  The master is not forgotten: while the queue is open and the master sleeps in
  \<open>wait_for_worker_completion\<close>, the workers are not all waiting on an empty queue.
\<close>

theorem completion_not_missed:
  assumes "reachable n s" and "n > 0" and "master s = M_blocked" and "\<not> m_closed (the_queue s)"
  shows "running s > 0 \<or> m_underlying_queue (the_queue s) \<noteq> []"
  using reachable_inv[OF assms(1,2)] assms(3,4)
  by (auto simp: master_inv_def counts_inv_def)

lemma master_first: "reachable 1 (master_wait 1 (system_init 1))"
  by (rule reachable.next_step[OF reachable.start], rule step.master_enter) (simp add: system_init_def)

theorem completion_not_missed_witness:
  "running (master_wait 1 (system_init 1) :: nat system) > 0"
  using completion_not_missed[OF master_first]
  by (simp add: action_defs system_init_def sync_queue_init_def)

text \<open>
  Closing the queue does not wake the master: \<open>close\<close> notifies only \<open>m_cv\<close>. There is a run that
  ends with the queue closed, all workers finished, no notification pending, and the master still
  asleep although its wait predicate holds.
\<close>

theorem close_leaves_master_asleep:
  "\<exists>s :: nat system. reachable 2 s \<and> master s = M_blocked \<and> completion_ready (the_queue s)
     \<and> finished s = 2 \<and> pending_one s = 0 \<and> pending_all s = 0"
proof -
  let ?s0 = "master_wait 2 (system_init 2) :: nat system"
  let ?s1 = "do_close ?s0"
  let ?s2 = "?s1\<lparr>pending_all := pending_all ?s1 - 1, blocked := 0, woken := woken ?s1 + blocked ?s1\<rparr>"
  have "reachable 2 ?s0"
    by (rule reachable.next_step[OF reachable.start], rule step.master_enter) (simp add: system_init_def)
  then have "reachable 2 ?s1"
    by (rule reachable.next_step, intro step.worker_close)
       (simp add: action_defs system_init_def sync_queue_init_def)
  then have "reachable 2 ?s2"
    by (rule reachable.next_step, intro step.notify_all) (simp add: do_close_def)
  then have "reachable 2 (do_pull ?s2)"
    by (rule reachable.next_step, intro step.worker_pull)
       (simp add: action_defs system_init_def sync_queue_init_def)
  then have "reachable 2 (do_pull (do_pull ?s2))"
    by (rule reachable.next_step, intro step.worker_pull)
       (simp add: action_defs system_init_def sync_queue_init_def)
  moreover have "master (do_pull (do_pull ?s2)) = M_blocked
     \<and> completion_ready (the_queue (do_pull (do_pull ?s2)))
     \<and> finished (do_pull (do_pull ?s2)) = 2 \<and> pending_one (do_pull (do_pull ?s2)) = 0
     \<and> pending_all (do_pull (do_pull ?s2)) = 0"
    by (simp add: action_defs system_init_def sync_queue_init_def)
  ultimately show ?thesis by blast
qed

end
