(* ===== verification/MatchOutput.thy ===== *)
theory MatchOutput
  imports SyncQueue StringUtil
begin

text \<open>
  What becomes of a match: \<open>src/Match.cpp\<close> cuts the line around it, \<open>src/MatchList.cpp\<close> collects the
  matches of a file and prints them, \<open>src/OutputContext.h\<close> holds the output options and colours, and
  \<open>src/OutputTask.cpp\<close> drains the queue of match lists to the standard output, counting the matched
  lines. The streams are the strings written to them.
\<close>

subsection \<open>Match\<close>

record match_line =
  m_line_number :: nat
  m_pre_match :: string
  m_match :: string
  m_post_match :: string

text \<open>
  A \<open>std::string\<close> constructed from a range whose end lies before its start throws
  \<open>std::length_error\<close>.
\<close>

datatype range_error = RangeLengthError

definition string_of_range :: "nat \<Rightarrow> nat \<Rightarrow> string \<Rightarrow> range_error + string" where
  "string_of_range a b xs = (if b < a then Inl RangeLengthError else Inr (sub_range a b xs))"

definition Match_ctor :: "string \<Rightarrow> nat \<Rightarrow> nat \<Rightarrow> nat \<Rightarrow> range_error + match_line" where
  "Match_ctor array match_start match_end line_number =
     (let before = rev (take match_start array);
          line_start_rit = find_if (\<lambda>c. c = NL) before;
          line_start = (if line_start_rit = length before then 0 else match_start - line_start_rit);
          line_end = match_start + find_if (\<lambda>c. c = NL) (drop match_start array)
      in case string_of_range line_start match_start array of
           Inl e \<Rightarrow> Inl e
         | Inr pre \<Rightarrow>
             (case string_of_range match_start match_end array of
                Inl e \<Rightarrow> Inl e
              | Inr mid \<Rightarrow>
                  (case string_of_range match_end line_end array of
                     Inl e \<Rightarrow> Inl e
                   | Inr post \<Rightarrow>
                       Inr \<lparr> m_line_number = line_number, m_pre_match = pre, m_match = mid,
                             m_post_match = post \<rparr>)))"

subsection \<open>Output context\<close>

abbreviation ESC :: char where
  "ESC \<equiv> CHR 0x1B"

definition m_default_color_filename :: string where
  "m_default_color_filename = ESC # ''[32;1m'' @ ESC # ''[K''"

definition m_default_color_match :: string where
  "m_default_color_match = ESC # ''[30;43;1m'' @ ESC # ''[K''"

definition m_default_color_lineno :: string where
  "m_default_color_lineno = ESC # ''[33;1m'' @ ESC # ''[K''"

definition m_default_color_default :: string where
  "m_default_color_default = ESC # ''[0m'' @ ESC # ''[K''"

record output_context =
  m_color_filename :: string
  m_color_match :: string
  m_color_lineno :: string
  m_color_default :: string
  m_enable_color :: bool
  m_prefix_file :: bool
  m_print_line_number :: bool
  m_print_column :: bool
  m_nullsep :: bool

definition OutputContext_ctor :: "bool \<Rightarrow> bool \<Rightarrow> bool \<Rightarrow> bool \<Rightarrow> bool \<Rightarrow> output_context" where
  "OutputContext_ctor enable_color prefix_file print_line_number print_column nullsep =
     \<lparr> m_color_filename = (if enable_color then m_default_color_filename else []),
       m_color_match = (if enable_color then m_default_color_match else []),
       m_color_lineno = (if enable_color then m_default_color_lineno else []),
       m_color_default = (if enable_color then m_default_color_default else []),
       m_enable_color = enable_color, m_prefix_file = prefix_file,
       m_print_line_number = print_line_number, m_print_column = print_column,
       m_nullsep = nullsep \<rparr>"

subsection \<open>Match list\<close>

record match_list =
  m_filename :: string
  m_match_list :: "match_line list"

definition MatchList_init :: match_list where
  "MatchList_init = \<lparr> m_filename = [], m_match_list = [] \<rparr>"

definition SetFilename :: "string \<Rightarrow> match_list \<Rightarrow> match_list" where
  "SetFilename filename ml = ml\<lparr>m_filename := filename\<rparr>"

definition AddMatch :: "match_line \<Rightarrow> match_list \<Rightarrow> match_list" where
  "AddMatch m ml = ml\<lparr>m_match_list := m_match_list ml @ [m]\<rparr>"

definition MatchList_clear :: "match_list \<Rightarrow> match_list" where
  "MatchList_clear ml = ml\<lparr>m_filename := [], m_match_list := []\<rparr>"

definition MatchList_empty :: "match_list \<Rightarrow> bool" where
  "MatchList_empty ml \<longleftrightarrow> m_match_list ml = []"

definition GetNumberOfMatchedLines :: "match_list \<Rightarrow> nat" where
  "GetNumberOfMatchedLines ml = length (m_match_list ml)"

text \<open>\<open>std::to_string\<close> of an unsigned number.\<close>

fun to_decimal :: "nat \<Rightarrow> string" where
  "to_decimal n =
     (if n < 10 then [char_of (48 + n)] else to_decimal (n div 10) @ [char_of (48 + n mod 10)])"

declare to_decimal.simps [simp del]

definition no_dotslash :: "string \<Rightarrow> string" where
  "no_dotslash filename = (if prefix ''./'' filename then drop 2 filename else filename)"

text \<open>The file name as printed, with the separator after it.\<close>

definition print_filename :: "output_context \<Rightarrow> string \<Rightarrow> string" where
  "print_filename ctx filename =
     (let color = m_enable_color ctx;
          file_separator = (if m_nullsep ctx then NUL
                            else if m_prefix_file ctx then CHR '':'' else NL)
      in (if color then m_color_filename ctx else [])
         @ no_dotslash filename
         @ (if color then m_color_default ctx else []) @ [file_separator])"

definition print_match :: "output_context \<Rightarrow> string \<Rightarrow> match_line \<Rightarrow> string" where
  "print_match ctx filename it =
     (let color = m_enable_color ctx in
        (if m_prefix_file ctx then print_filename ctx filename else [])
        @ (if m_print_line_number ctx
           then (if color then m_color_lineno ctx else []) @ to_decimal (m_line_number it)
                @ (if color then m_color_default ctx else []) @ '':''
                @ (if m_print_column ctx then to_decimal (length (m_pre_match it) + 1) @ '':'' else [])
           else [])
        @ m_pre_match it
        @ (if color then m_color_match ctx else []) @ m_match it
        @ (if color then m_color_default ctx else []) @ m_post_match it @ [NL])"

definition MatchList_Print :: "match_list \<Rightarrow> output_context \<Rightarrow> string" where
  "MatchList_Print ml ctx =
     (if \<not> m_prefix_file ctx then print_filename ctx (m_filename ml) else [])
     @ concat (map (print_match ctx (m_filename ml)) (m_match_list ml))"

subsection \<open>Output task\<close>

record output_state =
  first_matchlist_printed :: bool
  cout :: string
  m_total_matched_lines :: nat

definition output_one :: "output_context \<Rightarrow> match_list \<Rightarrow> output_state \<Rightarrow> output_state" where
  "output_one ctx ml st =
     \<lparr> first_matchlist_printed = True,
       cout = cout st @ (if first_matchlist_printed st \<and> \<not> m_prefix_file ctx then [NL] else [])
              @ MatchList_Print ml ctx,
       m_total_matched_lines = m_total_matched_lines st + GetNumberOfMatchedLines ml \<rparr>"

definition OutputTask_Run :: "output_context \<Rightarrow> match_list sync_queue \<Rightarrow> output_state option" where
  "OutputTask_Run ctx input_queue =
     drain (output_one ctx) input_queue
       \<lparr> first_matchlist_printed = False, cout = [], m_total_matched_lines = 0 \<rparr>"

subsection \<open>The line of a match\<close>

text \<open>\<open>[ls, le)\<close> is the line of \<open>array\<close> that holds offset \<open>p\<close>.\<close>

definition line_bounds :: "string \<Rightarrow> nat \<Rightarrow> nat \<Rightarrow> nat \<Rightarrow> bool" where
  "line_bounds array p ls le \<longleftrightarrow>
     ls \<le> p \<and> p \<le> le \<and> le \<le> length array
     \<and> (ls = 0 \<or> array ! (ls - 1) = NL) \<and> (le = length array \<or> array ! le = NL)
     \<and> NL \<notin> set (sub_range ls le array)"

definition line_start_of :: "string \<Rightarrow> nat \<Rightarrow> nat" where
  "line_start_of array p =
     (let before = rev (take p array); k = find_if (\<lambda>c. c = NL) before
      in if k = length before then 0 else p - k)"

definition line_end_of :: "string \<Rightarrow> nat \<Rightarrow> nat" where
  "line_end_of array p = p + find_if (\<lambda>c. c = NL) (drop p array)"

lemma line_start_props:
  assumes "p \<le> length array"
  shows "line_start_of array p \<le> p"
    and "line_start_of array p = 0 \<or> array ! (line_start_of array p - 1) = NL"
    and "line_start_of array p \<le> i \<Longrightarrow> i < p \<Longrightarrow> array ! i \<noteq> NL"
proof -
  let ?b = "rev (take p array)"
  define k where "k = find_if (\<lambda>c. c = NL) ?b"
  have len: "length ?b = p" using assms by simp
  have k: "k \<le> p" using find_if_le[of "\<lambda>c. c = NL" ?b] len by (simp add: k_def)
  have nth: "?b ! j = array ! (p - 1 - j)" if "j < p" for j
    using that assms by (simp add: rev_nth)
  have start: "line_start_of array p = (if k = p then 0 else p - k)"
    using len by (simp add: line_start_of_def Let_def k_def)
  show "line_start_of array p \<le> p" by (simp add: start)
  show "line_start_of array p = 0 \<or> array ! (line_start_of array p - 1) = NL"
  proof (cases "k = p")
    case False
    then have "k < length ?b" using k len by simp
    then have "?b ! k = NL" unfolding k_def by (rule find_if_hit)
    then show ?thesis using nth[of k] False k by (simp add: start)
  qed (simp add: start)
  show "array ! i \<noteq> NL" if i: "line_start_of array p \<le> i" "i < p"
  proof -
    have "p - 1 - i < k" using i k by (auto simp: start split: if_splits)
    then have "?b ! (p - 1 - i) \<noteq> NL" unfolding k_def by (rule find_if_miss)
    then show ?thesis using nth[of "p - 1 - i"] i by simp
  qed
qed

lemma line_end_props:
  assumes "p \<le> length array"
  shows "p \<le> line_end_of array p" and "line_end_of array p \<le> length array"
    and "line_end_of array p = length array \<or> array ! line_end_of array p = NL"
    and "p \<le> i \<Longrightarrow> i < line_end_of array p \<Longrightarrow> array ! i \<noteq> NL"
proof -
  let ?d = "drop p array"
  define k where "k = find_if (\<lambda>c. c = NL) ?d"
  have e: "line_end_of array p = p + k" by (simp add: line_end_of_def k_def)
  have k: "k \<le> length array - p" using find_if_le[of "\<lambda>c. c = NL" ?d] by (simp add: k_def)
  show "p \<le> line_end_of array p" by (simp add: e)
  show "line_end_of array p \<le> length array" using k assms by (simp add: e)
  show "line_end_of array p = length array \<or> array ! line_end_of array p = NL"
  proof (cases "k = length array - p")
    case False
    then have "k < length ?d" using k by simp
    then have "?d ! k = NL" unfolding k_def by (rule find_if_hit)
    then show ?thesis using assms by (simp add: e)
  qed (use assms in \<open>simp add: e\<close>)
  show "array ! i \<noteq> NL" if i: "p \<le> i" "i < line_end_of array p"
  proof -
    have "i - p < k" using i by (simp add: e)
    then have "?d ! (i - p) \<noteq> NL" unfolding k_def by (rule find_if_miss)
    then show ?thesis using i k assms by simp
  qed
qed

lemma line_bounds_of:
  assumes "p \<le> length array"
  shows "line_bounds array p (line_start_of array p) (line_end_of array p)"
proof -
  have "array ! i \<noteq> NL" if "line_start_of array p \<le> i" "i < line_end_of array p" for i
    using line_start_props(3)[OF assms, of i] line_end_props(4)[OF assms, of i] that by fastforce
  with line_start_props(1,2)[OF assms] line_end_props(1-3)[OF assms] show ?thesis
    by (auto simp: line_bounds_def set_sub_range)
qed

lemma Match_ctor_eq:
  assumes "match_start \<le> length array"
  shows "Match_ctor array match_start match_end line_number =
     (if match_end < match_start \<or> line_end_of array match_start < match_end then Inl RangeLengthError
      else Inr \<lparr> m_line_number = line_number,
                 m_pre_match = sub_range (line_start_of array match_start) match_start array,
                 m_match = sub_range match_start match_end array,
                 m_post_match = sub_range match_end (line_end_of array match_start) array \<rparr>)"
proof -
  have s: "(if find_if (\<lambda>c. c = NL) (rev (take match_start array)) = length (rev (take match_start array))
      then 0 else match_start - find_if (\<lambda>c. c = NL) (rev (take match_start array)))
      = line_start_of array match_start"
    by (simp add: line_start_of_def Let_def)
  show ?thesis
    unfolding Match_ctor_def Let_def s line_end_of_def[symmetric]
    using line_start_props(1)[OF assms] by (simp add: string_of_range_def)
qed

lemma line_end_beyond:
  assumes "a \<le> b" and "b \<le> length array"
  shows "line_end_of array a < b \<longleftrightarrow> NL \<in> set (sub_range a b array)"
proof -
  have a: "a \<le> length array" using assms by simp
  note e = line_end_props[OF a]
  show ?thesis
  proof
    assume "line_end_of array a < b"
    then have "array ! line_end_of array a = NL" using e(3) assms(2) by auto
    then show "NL \<in> set (sub_range a b array)"
      using e(1) \<open>line_end_of array a < b\<close> by (auto simp: set_sub_range[OF assms(2)])
  next
    assume "NL \<in> set (sub_range a b array)"
    then obtain i where i: "a \<le> i" "i < b" "array ! i = NL"
      by (auto simp: set_sub_range[OF assms(2)])
    show "line_end_of array a < b"
    proof (rule ccontr)
      assume "\<not> line_end_of array a < b"
      then have "array ! i \<noteq> NL" using e(4)[of i] i by simp
      with i show False by simp
    qed
  qed
qed

subsection \<open>Printed lines\<close>

lemma char_of_digit: "d < 10 \<Longrightarrow> char_of (48 + d :: nat) \<notin> {NL, CHR '':''}"
proof -
  assume d: "d < 10"
  have "of_char (char_of (48 + d :: nat)) = (48 + d) mod 256" by simp
  then have "(of_char (char_of (48 + d :: nat)) :: nat) = 48 + d" using d by simp
  then have ne: "char_of (48 + d) \<noteq> c" if "(of_char c :: nat) \<noteq> 48 + d" for c
    using that by auto
  show ?thesis using ne[of NL] ne[of "CHR '':''"] d by simp
qed

lemma to_decimal_digits: "NL \<notin> set (to_decimal n) \<and> CHR '':'' \<notin> set (to_decimal n)"
proof (induction n rule: to_decimal.induct)
  case (1 n)
  show ?case
  proof (cases "n < 10")
    case True
    then show ?thesis using char_of_digit[of n] by (subst (1 2) to_decimal.simps) auto
  next
    case False
    then show ?thesis using 1 char_of_digit[of "n mod 10"] by (subst (1 2) to_decimal.simps) auto
  qed
qed

definition NL_free_colors :: "output_context \<Rightarrow> bool" where
  "NL_free_colors ctx \<longleftrightarrow>
     NL \<notin> set (m_color_filename ctx) \<and> NL \<notin> set (m_color_match ctx)
     \<and> NL \<notin> set (m_color_lineno ctx) \<and> NL \<notin> set (m_color_default ctx)"

lemma OutputContext_NL_free: "NL_free_colors (OutputContext_ctor c p l col n)"
  by (simp add: NL_free_colors_def OutputContext_ctor_def m_default_color_filename_def
      m_default_color_match_def m_default_color_lineno_def m_default_color_default_def)

text \<open>A match list as the scanner builds it: no newline in the file name or in a matched line.\<close>

definition printable :: "match_list \<Rightarrow> bool" where
  "printable ml \<longleftrightarrow> NL \<notin> set (m_filename ml) \<and>
     (\<forall>m \<in> set (m_match_list ml).
        NL \<notin> set (m_pre_match m) \<and> NL \<notin> set (m_match m) \<and> NL \<notin> set (m_post_match m))"

lemma count_list_notin: "x \<notin> set xs \<Longrightarrow> count_list xs x = 0"
  by (induction xs) auto

lemma no_dotslash_NL: "NL \<notin> set f \<Longrightarrow> NL \<notin> set (no_dotslash f)"
  by (auto simp: no_dotslash_def dest: in_set_dropD)

lemma print_filename_NL:
  "NL_free_colors ctx \<Longrightarrow> NL \<notin> set f \<Longrightarrow>
     count_byte NL (print_filename ctx f) = of_bool (\<not> m_nullsep ctx \<and> \<not> m_prefix_file ctx)"
  by (simp add: print_filename_def Let_def NL_free_colors_def count_list_notin no_dotslash_NL)

lemma print_match_NL:
  "NL_free_colors ctx \<Longrightarrow> NL \<notin> set f \<Longrightarrow>
     NL \<notin> set (m_pre_match m) \<Longrightarrow> NL \<notin> set (m_match m) \<Longrightarrow> NL \<notin> set (m_post_match m) \<Longrightarrow>
     count_byte NL (print_match ctx f m) = 1"
  by (simp add: print_match_def Let_def count_list_notin to_decimal_digits print_filename_NL)
     (simp add: NL_free_colors_def count_list_notin)

lemma print_matches_NL:
  assumes "NL_free_colors ctx" and "NL \<notin> set f"
    and "\<forall>m \<in> set ms. NL \<notin> set (m_pre_match m) \<and> NL \<notin> set (m_match m) \<and> NL \<notin> set (m_post_match m)"
  shows "count_byte NL (concat (map (print_match ctx f) ms)) = length ms"
  using assms(3) by (induction ms) (auto simp: print_match_NL assms(1,2))

lemma MatchList_Print_NL:
  "NL_free_colors ctx \<Longrightarrow> printable ml \<Longrightarrow>
     count_byte NL (MatchList_Print ml ctx) =
       GetNumberOfMatchedLines ml + of_bool (\<not> m_prefix_file ctx \<and> \<not> m_nullsep ctx)"
  by (simp add: MatchList_Print_def printable_def print_filename_NL print_matches_NL
      GetNumberOfMatchedLines_def)

subsection \<open>The output task\<close>

text \<open>What a sequence of match lists prints: the groups, separated by blank lines unless every line
  carries its file name.\<close>

fun printed_groups :: "output_context \<Rightarrow> match_list list \<Rightarrow> string" where
  "printed_groups ctx [] = []"
| "printed_groups ctx [ml] = MatchList_Print ml ctx"
| "printed_groups ctx (ml # mls) =
     MatchList_Print ml ctx @ (if m_prefix_file ctx then [] else [NL]) @ printed_groups ctx mls"

lemma printed_groups_Cons:
  "printed_groups ctx (ml # mls) = MatchList_Print ml ctx @
     concat (map (\<lambda>m. (if m_prefix_file ctx then [] else [NL]) @ MatchList_Print m ctx) mls)"
  by (induction mls arbitrary: ml) auto

lemma fold_output_one:
  "first_matchlist_printed st \<Longrightarrow>
     fold (output_one ctx) mls st =
       \<lparr> first_matchlist_printed = True,
         cout = cout st @ concat (map (\<lambda>m. (if m_prefix_file ctx then [] else [NL]) @ MatchList_Print m ctx) mls),
         m_total_matched_lines = m_total_matched_lines st + sum_list (map GetNumberOfMatchedLines mls) \<rparr>"
  by (induction mls arbitrary: st) (simp_all add: output_one_def)

lemma OutputTask_Run_closed:
  assumes "m_closed q"
  shows "\<exists>st. OutputTask_Run ctx q = Some st
    \<and> cout st = printed_groups ctx (m_underlying_queue q)
    \<and> m_total_matched_lines st = sum_list (map GetNumberOfMatchedLines (m_underlying_queue q))"
proof (cases "m_underlying_queue q")
  case Nil
  then show ?thesis by (simp add: OutputTask_Run_def drain_closed[OF assms])
next
  case (Cons ml mls)
  then show ?thesis
    by (simp add: OutputTask_Run_def drain_closed[OF assms] fold_output_one output_one_def
        printed_groups_Cons)
qed

subsection \<open>Properties\<close>

text \<open>
  C15. The match constructor: a match that stays inside one line is cut into the part of its line
  before it, the match, and the rest of the line; the three parts together are exactly the line.
\<close>

theorem Match_is_its_line:
  assumes "s \<le> e" and "e \<le> length array" and "NL \<notin> set (sub_range s e array)"
  shows "\<exists>m ls le. Match_ctor array s e n = Inr m \<and> line_bounds array s ls le \<and> e \<le> le
    \<and> m_line_number m = n
    \<and> m_pre_match m = sub_range ls s array \<and> m_match m = sub_range s e array
    \<and> m_pre_match m @ m_match m @ m_post_match m = sub_range ls le array"
proof -
  let ?ls = "line_start_of array s" and ?le = "line_end_of array s"
  have s: "s \<le> length array" using assms by simp
  have le: "e \<le> ?le" using line_end_beyond[OF assms(1,2)] assms(3) by simp
  have ls: "?ls \<le> s" using line_start_props(1)[OF s] .
  have "sub_range ?ls s array @ sub_range s e array @ sub_range e ?le array = sub_range ?ls ?le array"
    using ls le assms(1) by (simp add: sub_range_append)
  with le assms(1) line_bounds_of[OF s] show ?thesis
    by (intro exI[of _ "\<lparr> m_line_number = n, m_pre_match = sub_range ?ls s array,
          m_match = sub_range s e array, m_post_match = sub_range e ?le array \<rparr>"] exI[of _ ?ls] exI[of _ ?le])
       (simp add: Match_ctor_eq[OF s])
qed

theorem Match_is_its_line_witness:
  "\<exists>m. Match_ctor (''ab'' @ NL # ''cde'' @ [NL]) 4 5 2 = Inr m \<and> m_match m = ''d''"
  using Match_is_its_line[of 4 5 "''ab'' @ NL # ''cde'' @ [NL]" 2]
  by (auto simp: sub_range_def)

text \<open>
  A match that contains a newline cannot be stored: the constructor looks for the end of the
  line from the start of the match, forms the rest of the line from a reversed range, and throws.
\<close>

theorem Match_multiline_throws:
  assumes "s \<le> e" and "e \<le> length array"
  shows "Match_ctor array s e n = Inl RangeLengthError \<longleftrightarrow> NL \<in> set (sub_range s e array)"
proof -
  have "s \<le> length array" using assms by simp
  then show ?thesis
    using line_end_beyond[OF assms] assms(1) by (simp add: Match_ctor_eq)
qed

theorem Match_multiline_throws_witness:
  "Match_ctor (''a'' @ NL # ''b'') 0 3 1 = Inl RangeLengthError"
  using Match_multiline_throws[of 0 3 "''a'' @ NL # ''b''" 1] by (simp add: sub_range_def)

text \<open>
  A printed match list has one line per matched line, plus the file header in the grouped
  format, whatever the colours.
\<close>

theorem MatchList_Print_lines:
  assumes "printable ml"
  shows "count_byte NL (MatchList_Print ml (OutputContext_ctor color pre line col nullsep)) =
     GetNumberOfMatchedLines ml + of_bool (\<not> pre \<and> \<not> nullsep)"
  using MatchList_Print_NL[OF OutputContext_NL_free assms] by (simp add: OutputContext_ctor_def)

theorem MatchList_Print_lines_witness:
  "count_byte NL (MatchList_Print
     (AddMatch \<lparr> m_line_number = 12, m_pre_match = ''int '', m_match = ''x'', m_post_match = '';'' \<rparr>
       (SetFilename ''./a.c'' MatchList_init)) (OutputContext_ctor True False True True False)) = 2"
  by (subst MatchList_Print_lines)
     (simp_all add: printable_def AddMatch_def SetFilename_def MatchList_init_def GetNumberOfMatchedLines_def)

text \<open>
  Once its queue is closed, the output task prints every match list in it exactly once and in
  order, with blank lines between the groups only when lines carry no file name, and its total is
  the number of matched lines printed.
\<close>

theorem OutputTask_prints_everything:
  assumes "m_closed q"
  shows "\<exists>st. OutputTask_Run ctx q = Some st
    \<and> cout st = printed_groups ctx (m_underlying_queue q)
    \<and> m_total_matched_lines st = sum_list (map GetNumberOfMatchedLines (m_underlying_queue q))"
  using OutputTask_Run_closed[OF assms] .

theorem OutputTask_prints_everything_witness:
  "\<exists>st. OutputTask_Run (OutputContext_ctor False False True False False)
        (close (snd (push_back (SetFilename ''a.c'' MatchList_init) sync_queue_init))) = Some st
     \<and> cout st = ''a.c'' @ [NL]"
  using OutputTask_prints_everything[of "close (snd (push_back (SetFilename ''a.c'' MatchList_init) sync_queue_init))"
      "OutputContext_ctor False False True False False"]
  by (auto simp: close_def push_back_def sync_queue_init_def MatchList_Print_def OutputContext_ctor_def
      SetFilename_def MatchList_init_def no_dotslash_def print_filename_def)

end
