(* ===== verification/LineCount.thy ===== *)
theory LineCount
  imports Integers
begin

unbundle bit_operations_syntax

text \<open>
  \<open>FileScanner::CountLinesSinceLastMatch\<close>: the default version of \<open>src/FileScanner.cpp\<close>, a \<open>memchr\<close>
  loop, and the vectorised one of \<open>src/FileScanner_sse4_2.cpp\<close>, which counts 16 bytes at a time from
  aligned addresses, with a masked first block and a byte-wise tail. The two contain pointer and
  mask arithmetic, so the memory is a function from addresses to bytes and pointers are addresses.
  The SSE2 intrinsics are written out as documented (lane \<open>i\<close> of a vector is element \<open>i\<close> of a list).
\<close>

subsection \<open>Memory and vectors\<close>

type_synonym memory = "nat \<Rightarrow> char"

definition load16 :: "memory \<Rightarrow> nat \<Rightarrow> char list" where
  "load16 mem p = map mem [p..<p + 16]"

definition mm_set1_epi8 :: "char \<Rightarrow> char list" where
  "mm_set1_epi8 c = replicate 16 c"

definition mm_cmpeq_epi8 :: "char list \<Rightarrow> char list \<Rightarrow> bool list" where
  "mm_cmpeq_epi8 a b = map2 (=) a b"

definition mm_movemask_epi8 :: "bool list \<Rightarrow> 32 word" where
  "mm_movemask_epi8 m = horner_sum of_bool 2 m"

subsection \<open>The default version\<close>

text \<open>\<open>memchr(p, c, n)\<close>.\<close>

definition mem_chr :: "memory \<Rightarrow> nat \<Rightarrow> char \<Rightarrow> nat \<Rightarrow> nat option" where
  "mem_chr mem p c n =
     (let k = find_if (\<lambda>a. mem a = c) [p..<p + n] in if k = n then None else Some (p + k))"

lemma mem_chr_Some:
  "mem_chr mem p c n = Some q \<Longrightarrow> p \<le> q \<and> q < p + n \<and> mem q = c \<and> (\<forall>a. p \<le> a \<and> a < q \<longrightarrow> mem a \<noteq> c)"
proof -
  let ?l = "[p..<p + n]"
  define k where "k = find_if (\<lambda>a. mem a = c) ?l"
  assume "mem_chr mem p c n = Some q"
  then have k: "k \<noteq> n" "q = p + k" by (auto simp: mem_chr_def Let_def k_def split: if_splits)
  have "k \<le> n" using find_if_le[of "\<lambda>a. mem a = c" ?l] by (simp add: k_def)
  then have kn: "k < length ?l" using k(1) by simp
  then have "mem (?l ! k) = c" unfolding k_def by (rule find_if_hit)
  moreover have "mem a \<noteq> c" if "p \<le> a" "a < q" for a
  proof -
    have "a - p < k" using that k by simp
    then have "mem (?l ! (a - p)) \<noteq> c" unfolding k_def by (rule find_if_miss)
    then show ?thesis using that kn k by simp
  qed
  ultimately show ?thesis using k kn by simp
qed

lemma mem_chr_None: "mem_chr mem p c n = None \<Longrightarrow> p \<le> a \<Longrightarrow> a < p + n \<Longrightarrow> mem a \<noteq> c"
proof -
  assume "mem_chr mem p c n = None" "p \<le> a" "a < p + n"
  then have "find_if (\<lambda>a. mem a = c) [p..<p + n] = length [p..<p + n]"
    by (simp add: mem_chr_def Let_def split: if_splits)
  then have "\<forall>x \<in> set [p..<p + n]. mem x \<noteq> c" by (simp only: find_if_none)
  with \<open>p \<le> a\<close> \<open>a < p + n\<close> show ?thesis by simp
qed

function count_lines_loop :: "memory \<Rightarrow> nat \<Rightarrow> nat \<Rightarrow> nat \<Rightarrow> nat" where
  "count_lines_loop mem last_ptr start_of_current_match n =
     (case mem_chr mem last_ptr NL (start_of_current_match - last_ptr) of
        Some q \<Rightarrow> count_lines_loop mem (q + 1) start_of_current_match (n + 1)
      | None \<Rightarrow> n)"
  by pat_completeness auto
termination
  by (relation "measure (\<lambda>(mem, p, e, n). e - p)") (auto dest!: mem_chr_Some)

declare count_lines_loop.simps [simp del]

definition CountLinesSinceLastMatch_default :: "memory \<Rightarrow> nat \<Rightarrow> nat \<Rightarrow> nat" where
  "CountLinesSinceLastMatch_default mem prev_lineno_search_end start_of_current_match =
     count_lines_loop mem prev_lineno_search_end start_of_current_match 0"

subsection \<open>The vectorised version\<close>

definition memcnt_prologue :: "memory \<Rightarrow> nat \<Rightarrow> nat \<Rightarrow> nat \<Rightarrow> char \<Rightarrow> nat" where
  "memcnt_prologue mem unaligned_start_ptr num_unaligned_bytes len searchchar =
     (let aligned_pre_start_ptr = unaligned_start_ptr - (16 - num_unaligned_bytes);
          prologue_bytes = load16 mem aligned_pre_start_ptr;
          match_bytemask = mm_cmpeq_epi8 prologue_bytes (mm_set1_epi8 searchchar);
          match_bitmask = mm_movemask_epi8 match_bytemask;
          match_bitmask = match_bitmask AND push_bit (16 - num_unaligned_bytes) 0xFFFF;
          match_bitmask = (if len < num_unaligned_bytes
                           then match_bitmask AND drop_bit (num_unaligned_bytes - len) 0xFFFF
                           else match_bitmask)
      in unat (popcount16 (ucast match_bitmask)))"

function aligned_loop :: "memory \<Rightarrow> nat \<Rightarrow> nat \<Rightarrow> nat \<Rightarrow> nat \<times> nat" where
  "aligned_loop mem last_ptr one_past_last_aligned_address n =
     (if last_ptr < one_past_last_aligned_address
      then aligned_loop mem (last_ptr + 16) one_past_last_aligned_address
             (n + unat (popcount16 (ucast (mm_movemask_epi8
                (mm_cmpeq_epi8 (load16 mem last_ptr) (mm_set1_epi8 NL))))))
      else (last_ptr, n))"
  by pat_completeness auto
termination
  by (relation "measure (\<lambda>(mem, p, e, n). e - p)") auto

declare aligned_loop.simps [simp del]

fun epilogue_loop :: "memory \<Rightarrow> nat \<Rightarrow> nat \<Rightarrow> nat \<Rightarrow> nat" where
  "epilogue_loop mem last_ptr 0 n = n"
| "epilogue_loop mem last_ptr (Suc len) n =
     epilogue_loop mem (last_ptr + 1) len (if mem last_ptr = NL then n + 1 else n)"

definition CountLinesSinceLastMatch_sse :: "memory \<Rightarrow> nat \<Rightarrow> nat \<Rightarrow> nat" where
  "CountLinesSinceLastMatch_sse mem cbegin cend =
     (let len = cend - cbegin;
          start_unaligned_byte_offset = cbegin mod 16;
          num_unaligned_prologue_bytes = 16 - start_unaligned_byte_offset;
          (n, len, last_ptr) =
            (if start_unaligned_byte_offset \<noteq> 0
             then (let bytes_consumed = min len num_unaligned_prologue_bytes
                   in (memcnt_prologue mem cbegin num_unaligned_prologue_bytes len NL,
                       len - bytes_consumed, cbegin + bytes_consumed))
             else (0, len, cbegin))
      in if len = 0 then n
         else
           (let num_epilogue_bytes = cend mod 16;
                one_past_last_aligned_address = cend - num_epilogue_bytes
            in if last_ptr < one_past_last_aligned_address
               then (let (p, n) = aligned_loop mem last_ptr one_past_last_aligned_address n
                     in epilogue_loop mem p (len - (one_past_last_aligned_address - last_ptr)) n)
               else epilogue_loop mem last_ptr len n))"

text \<open>The versions the resolver chooses from, by the instruction sets the CPU reports.\<close>

definition resolve_CountLinesSinceLastMatch :: "bool \<Rightarrow> bool \<Rightarrow> bool \<Rightarrow> memory \<Rightarrow> nat \<Rightarrow> nat \<Rightarrow> nat" where
  "resolve_CountLinesSinceLastMatch has_sse4_2 has_popcnt has_sse2 =
     (if has_sse4_2 \<and> has_popcnt then CountLinesSinceLastMatch_sse
      else if has_sse4_2 \<and> \<not> has_popcnt then CountLinesSinceLastMatch_sse
      else if has_sse2 then CountLinesSinceLastMatch_sse
      else CountLinesSinceLastMatch_default)"

subsection \<open>What is counted\<close>

definition newlines :: "memory \<Rightarrow> nat \<Rightarrow> nat \<Rightarrow> nat" where
  "newlines mem a b = card {p. a \<le> p \<and> p < b \<and> mem p = NL}"

text \<open>The interface the scanner uses, and what follows from it for line numbers.\<close>

locale line_counter =
  fixes count :: "memory \<Rightarrow> nat \<Rightarrow> nat \<Rightarrow> nat"
  assumes counts: "a \<le> b \<Longrightarrow> count mem a b = newlines mem a b"
begin

lemma count_split:
  assumes "a \<le> b" and "b \<le> c"
  shows "count mem a c = count mem a b + count mem b c"
proof -
  have f: "finite {p. x \<le> p \<and> p < y \<and> mem p = NL}" for x y
    by (rule finite_subset[of _ "{..<y}"]) auto
  have "{p. a \<le> p \<and> p < c \<and> mem p = NL} =
      {p. a \<le> p \<and> p < b \<and> mem p = NL} \<union> {p. b \<le> p \<and> p < c \<and> mem p = NL}"
    using assms by auto
  then have "newlines mem a c = newlines mem a b + newlines mem b c"
    unfolding newlines_def by (simp add: card_Un_disjoint f disjoint_iff)
  then show ?thesis using assms by (simp add: counts)
qed

lemma count_empty: "count mem a a = 0"
  by (simp add: counts newlines_def)

lemma count_zero_iff: "a \<le> b \<Longrightarrow> count mem a b = 0 \<longleftrightarrow> (\<forall>p. a \<le> p \<and> p < b \<longrightarrow> mem p \<noteq> NL)"
proof -
  assume ab: "a \<le> b"
  have "finite {p. a \<le> p \<and> p < b \<and> mem p = NL}"
    by (rule finite_subset[of _ "{..<b}"]) auto
  then show ?thesis using ab by (auto simp: counts newlines_def)
qed

end

lemma newlines_split: "a \<le> b \<Longrightarrow> b \<le> c \<Longrightarrow> newlines mem a c = newlines mem a b + newlines mem b c"
proof -
  assume "a \<le> b" "b \<le> c"
  have f: "finite {p. x \<le> p \<and> p < y \<and> mem p = NL}" for x y
    by (rule finite_subset[of _ "{..<y}"]) auto
  have "{p. a \<le> p \<and> p < c \<and> mem p = NL} =
      {p. a \<le> p \<and> p < b \<and> mem p = NL} \<union> {p. b \<le> p \<and> p < c \<and> mem p = NL}"
    using \<open>a \<le> b\<close> \<open>b \<le> c\<close> by auto
  then show ?thesis
    unfolding newlines_def by (simp add: card_Un_disjoint f disjoint_iff)
qed

lemma newlines_same [simp]: "newlines mem a a = 0"
proof -
  have "{p. a \<le> p \<and> p < a \<and> mem p = NL} = {}" by auto
  then show ?thesis by (simp only: newlines_def card.empty)
qed

lemma newlines_none: "(\<And>p. a \<le> p \<Longrightarrow> p < b \<Longrightarrow> mem p \<noteq> NL) \<Longrightarrow> newlines mem a b = 0"
proof -
  assume "\<And>p. a \<le> p \<Longrightarrow> p < b \<Longrightarrow> mem p \<noteq> NL"
  then have "{p. a \<le> p \<and> p < b \<and> mem p = NL} = {}" by auto
  then show ?thesis by (simp only: newlines_def card.empty)
qed

lemma newlines_one: "newlines mem a (a + 1) = of_bool (mem a = NL)"
proof -
  have "{p. a \<le> p \<and> p < a + 1 \<and> mem p = NL} = (if mem a = NL then {a} else {})"
    by (auto simp: less_Suc_eq_le)
  then show ?thesis by (simp add: newlines_def)
qed

subsection \<open>The default version counts newlines\<close>

lemma count_lines_loop_newlines:
  "p \<le> e \<Longrightarrow> count_lines_loop mem p e n = n + newlines mem p e"
proof (induction mem p e n rule: count_lines_loop.induct)
  case (1 mem p e n)
  show ?case
  proof (cases "mem_chr mem p NL (e - p)")
    case None
    have "newlines mem p e = 0"
      using mem_chr_None[OF None] "1.prems" by (intro newlines_none) auto
    with None show ?thesis by (subst count_lines_loop.simps) simp
  next
    case (Some q)
    note q = mem_chr_Some[OF Some]
    have "newlines mem p (q + 1) = newlines mem p q + newlines mem q (q + 1)"
      using q by (intro newlines_split) auto
    also have "newlines mem p q = 0" using q by (intro newlines_none) auto
    also have "newlines mem q (q + 1) = 1" using q by (simp only: newlines_one) simp
    finally have one: "newlines mem p (q + 1) = 1" by simp
    have e: "newlines mem p e = 1 + newlines mem (q + 1) e"
      using newlines_split[of p "q + 1" e mem] q "1.prems" one by simp
    have le: "q + 1 \<le> e" using q "1.prems" by simp
    have "count_lines_loop mem p e n = count_lines_loop mem (q + 1) e (n + 1)"
      by (subst count_lines_loop.simps) (simp only: Some option.case)
    with "1.IH"[OF Some le] e show ?thesis by simp
  qed
qed

lemma CountLinesSinceLastMatch_default_newlines:
  "a \<le> b \<Longrightarrow> CountLinesSinceLastMatch_default mem a b = newlines mem a b"
  by (simp add: CountLinesSinceLastMatch_default_def count_lines_loop_newlines)

subsection \<open>The vectorised version counts newlines\<close>

lemma bit_movemask:
  "bit (mm_movemask_epi8 (mm_cmpeq_epi8 (load16 mem p) (mm_set1_epi8 c))) i \<longleftrightarrow>
     i < 16 \<and> mem (p + i) = c"
  by (auto simp: mm_movemask_epi8_def mm_cmpeq_epi8_def load16_def mm_set1_epi8_def
      bit_horner_sum_bit_word_iff)

text \<open>A window of a block: the lanes from \<open>lo\<close> up to but not including \<open>hi\<close>.\<close>

lemma popcount_window:
  assumes "\<And>i. bit w i \<longleftrightarrow> lo \<le> i \<and> i < hi \<and> mem (p + i) = NL" and "hi \<le> 16"
  shows "unat (popcount16 (ucast (w :: 32 word))) = newlines mem (p + lo) (p + hi)"
proof -
  have "{i. bit (ucast w :: 16 word) i} = {i. lo \<le> i \<and> i < hi \<and> mem (p + i) = NL}"
  proof (rule Collect_cong)
    fix i
    have "bit (ucast w :: 16 word) i \<longleftrightarrow> i < 16 \<and> bit w i" by (simp add: bit_ucast_iff)
    with assms(2) show "bit (ucast w :: 16 word) i \<longleftrightarrow> lo \<le> i \<and> i < hi \<and> mem (p + i) = NL"
      by (auto simp: assms(1))
  qed
  moreover have "card {i. lo \<le> i \<and> i < hi \<and> mem (p + i) = NL} = newlines mem (p + lo) (p + hi)"
    unfolding newlines_def
  proof (rule bij_betw_same_card[of "\<lambda>i. p + i"])
    show "bij_betw ((+) p) {i. lo \<le> i \<and> i < hi \<and> mem (p + i) = NL}
        {q. p + lo \<le> q \<and> q < p + hi \<and> mem q = NL}"
      by (rule bij_betw_byWitness[where f' = "\<lambda>q. q - p"]) auto
  qed
  ultimately show ?thesis by (simp add: popcount16_card)
qed

lemma bit_FFFF_up: "k \<le> 16 \<Longrightarrow> bit (push_bit k 0xFFFF :: 32 word) i \<longleftrightarrow> k \<le> i \<and> i < 16 + k"
proof -
  assume "k \<le> 16"
  moreover have F: "(0xFFFF :: 32 word) = mask 16" by (simp add: mask_eq_exp_minus_1)
  ultimately show ?thesis unfolding F by (auto simp: bit_push_bit_iff bit_mask_iff)
qed

lemma bit_FFFF_down: "bit (drop_bit k 0xFFFF :: 32 word) i \<longleftrightarrow> i + k < 16"
proof -
  have F: "(0xFFFF :: 32 word) = mask 16" by (simp add: mask_eq_exp_minus_1)
  show ?thesis unfolding F by (auto simp: bit_drop_bit_eq bit_mask_iff)
qed

lemma memcnt_prologue_newlines:
  assumes "start mod 16 \<noteq> 0" and "num = 16 - start mod 16"
  shows "memcnt_prologue mem start num len NL = newlines mem start (start + min len num)"
proof -
  define off where "off = start mod 16"
  define p where "p = start - off"
  have off: "0 < off" "off < 16" "num = 16 - off" using assms by (auto simp: off_def)
  have p: "start = p + off" using mod_less_eq_dividend[of start 16] by (simp add: p_def off_def)
  have offs: "16 - num = off" using off by simp
  define b where "b = mm_movemask_epi8 (mm_cmpeq_epi8 (load16 mem p) (mm_set1_epi8 NL))"
  define b1 where "b1 = b AND push_bit off 0xFFFF"
  define b2 where "b2 = (if len < num then b1 AND drop_bit (num - len) 0xFFFF else b1)"
  have b1: "bit b1 i \<longleftrightarrow> off \<le> i \<and> i < 16 \<and> mem (p + i) = NL" for i
    using off by (auto simp: b1_def b_def bit_and_iff bit_movemask bit_FFFF_up)
  have b2: "bit b2 i \<longleftrightarrow> off \<le> i \<and> i < off + min len num \<and> mem (p + i) = NL" for i
    using off by (auto simp: b2_def b1 bit_and_iff bit_FFFF_down)
  have "memcnt_prologue mem start num len NL = unat (popcount16 (ucast b2))"
    unfolding memcnt_prologue_def Let_def offs p_def[symmetric] b2_def b1_def b_def by (rule refl)
  also have "\<dots> = newlines mem (p + off) (p + (off + min len num))"
    using b2 off by (intro popcount_window) auto
  finally show ?thesis by (simp add: p add.assoc)
qed

lemma block_newlines:
  "unat (popcount16 (ucast (mm_movemask_epi8 (mm_cmpeq_epi8 (load16 mem p) (mm_set1_epi8 NL)))))
     = newlines mem p (p + 16)"
  using popcount_window[of "mm_movemask_epi8 (mm_cmpeq_epi8 (load16 mem p) (mm_set1_epi8 NL))" 0 16 mem p]
  by (simp add: bit_movemask)

lemma aligned_loop_newlines:
  assumes "16 dvd (e - p)" and "p \<le> e"
  shows "aligned_loop mem p e n = (e, n + newlines mem p e)"
  using assms
proof (induction mem p e n rule: aligned_loop.induct)
  case (1 mem p e n)
  show ?case
  proof (cases "p < e")
    case True
    then have "16 \<le> e - p" using "1.prems" by (meson dvd_imp_le zero_less_diff)
    then have step: "16 dvd (e - (p + 16))" "p + 16 \<le> e"
      using "1.prems" by (metis diff_diff_left dvd_diff_nat dvd_refl, simp)
    have "newlines mem p e = newlines mem p (p + 16) + newlines mem (p + 16) e"
      using step by (intro newlines_split) auto
    with "1.IH"[OF True step] True show ?thesis
      by (subst aligned_loop.simps) (simp add: block_newlines)
  next
    case False
    with "1.prems" have "p = e" by simp
    then show ?thesis by (subst aligned_loop.simps) simp
  qed
qed

lemma epilogue_loop_newlines: "epilogue_loop mem p len n = n + newlines mem p (p + len)"
proof (induction mem p len n rule: epilogue_loop.induct)
  case (2 mem p len n)
  have "newlines mem p (p + Suc len) = newlines mem p (p + 1) + newlines mem (p + 1) (p + 1 + len)"
    using newlines_split[of p "p + 1" "p + Suc len" mem] by simp
  with 2 show ?case by (simp only: epilogue_loop.simps newlines_one) auto
qed simp

lemma CountLinesSinceLastMatch_sse_newlines:
  assumes "a \<le> b"
  shows "CountLinesSinceLastMatch_sse mem a b = newlines mem a b"
proof -
  define c where "c = (if a mod 16 \<noteq> 0 then min (b - a) (16 - a mod 16) else 0)"
  have c: "a + c \<le> b" using assms by (auto simp: c_def)
  define n where "n = newlines mem a (a + c)"
  have n: "(if a mod 16 \<noteq> 0 then memcnt_prologue mem a (16 - a mod 16) (b - a) NL else 0) = n"
    by (simp add: n_def c_def memcnt_prologue_newlines)
  define lim where "lim = b - b mod 16"
  have lim: "lim \<le> b" "16 dvd lim" by (simp_all add: lim_def)
  have code: "CountLinesSinceLastMatch_sse mem a b =
     (if b - a - c = 0 then n
      else if a + c < lim
        then (case aligned_loop mem (a + c) lim n of (p, n) \<Rightarrow>
                epilogue_loop mem p (b - a - c - (lim - (a + c))) n)
        else epilogue_loop mem (a + c) (b - a - c) n)"
  proof (cases "a mod 16 = 0")
    case True
    then have "c = 0" and "n = 0" by (simp_all add: c_def n_def)
    then show ?thesis
      unfolding CountLinesSinceLastMatch_sse_def Let_def lim_def[symmetric]
      by (simp only: True case_prod_conv not_False_eq_True if_False if_True simp_thms diff_zero add_0_right)
  next
    case False
    then have "c = min (b - a) (16 - a mod 16)" by (simp add: c_def)
    moreover have "memcnt_prologue mem a (16 - a mod 16) (b - a) NL = n" using n False by simp
    ultimately show ?thesis
      unfolding CountLinesSinceLastMatch_sse_def Let_def lim_def[symmetric]
      by (simp only: False case_prod_conv not_False_eq_True if_True)
  qed
  have total: "newlines mem a b = n + newlines mem (a + c) b"
    using c newlines_split[of a "a + c" b mem] by (simp add: n_def)
  show ?thesis
  proof (cases "b - a - c = 0")
    case True
    then have "a + c = b" using c by simp
    then show ?thesis using True by (simp add: code total)
  next
    case False
    then have "16 dvd (a + c)"
    proof (cases "a mod 16 = 0")
      case False
      then have "c = 16 - a mod 16" using \<open>b - a - c \<noteq> 0\<close> by (auto simp: c_def min_def split: if_splits)
      then have "a + c = 16 * (a div 16) + 16"
        using mult_div_mod_eq[of 16 a] mod_less_divisor[of 16 a] by linarith
      then show ?thesis by simp
    qed (auto simp: c_def)
    then have dvd: "16 dvd (lim - (a + c))" using lim(2) by (rule dvd_diff_nat[rotated])
    show ?thesis
    proof (cases "a + c < lim")
      case True
      have "newlines mem (a + c) b = newlines mem (a + c) lim + newlines mem lim b"
        using True lim by (intro newlines_split) auto
      moreover have "lim + (b - a - c - (lim - (a + c))) = b" using True lim by simp
      ultimately show ?thesis
        using False True dvd by (simp add: code total aligned_loop_newlines epilogue_loop_newlines)
    next
      case ge: False
      have "a + c + (b - a - c) = b" using c by simp
      then show ?thesis using False ge by (simp add: code total epilogue_loop_newlines)
    qed
  qed
qed

interpretation lc_default: line_counter CountLinesSinceLastMatch_default
  by unfold_locales (rule CountLinesSinceLastMatch_default_newlines)

interpretation lc_sse: line_counter CountLinesSinceLastMatch_sse
  by unfold_locales (rule CountLinesSinceLastMatch_sse_newlines)

interpretation lc: line_counter "resolve_CountLinesSinceLastMatch s42 pop s2" for s42 pop s2
  by unfold_locales
     (simp add: resolve_CountLinesSinceLastMatch_def lc_default.counts lc_sse.counts)

subsection \<open>Properties\<close>

text \<open>
  C14. Whichever version the resolver picks for the CPU, the count is the number of newline bytes
  from the first address up to the second; in particular the vectorised versions agree with the
  portable one, for every alignment of the two addresses.
\<close>

theorem CountLinesSinceLastMatch_correct:
  assumes "a \<le> b"
  shows "resolve_CountLinesSinceLastMatch has_sse4_2 has_popcnt has_sse2 mem a b = newlines mem a b
    \<and> resolve_CountLinesSinceLastMatch has_sse4_2 has_popcnt has_sse2 mem a b
        = CountLinesSinceLastMatch_default mem a b"
  using lc.counts[OF assms] lc_default.counts[OF assms] by simp

theorem CountLinesSinceLastMatch_correct_witness:
  "resolve_CountLinesSinceLastMatch True True True (\<lambda>p. if p < 20 then NL else NUL) 3 100 = 17"
proof -
  have "{p. 3 \<le> p \<and> p < 100 \<and> (if p < 20 then NL else NUL) = NL} = {3..<20::nat}" by auto
  then show ?thesis
    using CountLinesSinceLastMatch_correct[of 3 100 True True True "\<lambda>p. if p < 20 then NL else NUL"]
    by (simp add: newlines_def)
qed

end
