(* ===== verification/CodeUnits.thy ===== *)
theory CodeUnits
  imports LineCount
begin

unbundle bit_operations_syntax

text \<open>
  The first-code-unit prefilter of the scanner: from the 256-bit map of possible first bytes that
  the regex library reports, \<open>src/FileScanner.cpp\<close> builds a table of bytes and a table of byte
  ranges, and \<open>src/FileScanner_sse4_2.cpp\<close> searches the file for the first byte in one of them,
  16 bytes at a time with \<open>PCMPESTRI\<close>. That instruction is written out as documented for the
  aggregation modes and explicit lengths the code uses. The tables are lists of bytes whose length is
  the code's end index.
\<close>

subsection \<open>Tables\<close>

record cu_tables =
  m_compiled_cu_bitmap :: "8 word list"
  m_compiled_range_bitmap :: "8 word list"

definition m_end_fpcu_table :: "cu_tables \<Rightarrow> nat" where
  "m_end_fpcu_table t = length (m_compiled_cu_bitmap t)"

definition m_end_ranges_table :: "cu_tables \<Rightarrow> nat" where
  "m_end_ranges_table t = length (m_compiled_range_bitmap t)"

text \<open>Bit \<open>i\<close> of the 32-byte map: \<open>pcre2_bitmap[i/8] & (0x01 << (i%8))\<close>.\<close>

definition bitmap_bit :: "8 word list \<Rightarrow> nat \<Rightarrow> bool" where
  "bitmap_bit pcre2_bitmap i \<longleftrightarrow> (pcre2_bitmap ! (i div 8)) AND push_bit (i mod 8) 1 \<noteq> 0"

text \<open>\<open>ConstructCodeUnitTable\<close>: the loop over all byte values; the list grows with \<open>out_index\<close>.\<close>

definition ConstructCodeUnitTable :: "8 word list \<Rightarrow> cu_tables \<Rightarrow> cu_tables" where
  "ConstructCodeUnitTable pcre2_bitmap t =
     t\<lparr>m_compiled_cu_bitmap :=
         fold (\<lambda>i out. if \<not> bitmap_bit pcre2_bitmap i then out else out @ [of_nat i]) [0..<256] []\<rparr>"

text \<open>
  \<open>ConstructRangePairTable\<close>: the loop with the current range \<open>[first, last]\<close> and the pairs emitted
  so far. The comparison is on the promoted integers, so it does not wrap.
\<close>

fun range_loop :: "8 word list \<Rightarrow> 8 word \<Rightarrow> 8 word \<Rightarrow> 8 word list \<Rightarrow> 8 word list" where
  "range_loop [] first_range_char last_range_char out = out @ [first_range_char, last_range_char]"
| "range_loop (c # cs) first_range_char last_range_char out =
     (if unat c = unat last_range_char + 1
      then range_loop cs first_range_char (last_range_char + 1) out
      else range_loop cs c c (out @ [first_range_char, last_range_char]))"

definition ConstructRangePairTable :: "cu_tables \<Rightarrow> cu_tables" where
  "ConstructRangePairTable t =
     (case m_compiled_cu_bitmap t of
        [] \<Rightarrow> t\<lparr>m_compiled_range_bitmap := []\<rparr>
      | c # cs \<Rightarrow> t\<lparr>m_compiled_range_bitmap := range_loop cs c c []\<rparr>)"

subsection \<open>PCMPESTRI\<close>

text \<open>
  \<open>_mm_cmpestri(a, la, b, lb, mode)\<close> for unsigned bytes with the least-significant index: the index
  of the first lane of \<open>b\<close> whose result bit is set, 16 when there is none. A lane at or beyond its
  explicit length is invalid; in the two modes here a comparison with an invalid lane is false.
\<close>

definition cmpestri_equal_any :: "8 word list \<Rightarrow> nat \<Rightarrow> 8 word list \<Rightarrow> nat \<Rightarrow> nat" where
  "cmpestri_equal_any a la b lb =
     find_if (\<lambda>i. i < lb \<and> (\<exists>j < la. a ! j = b ! i)) [0..<16]"

definition cmpestri_ranges :: "8 word list \<Rightarrow> nat \<Rightarrow> 8 word list \<Rightarrow> nat \<Rightarrow> nat" where
  "cmpestri_ranges a la b lb =
     find_if (\<lambda>i. i < lb \<and> (\<exists>j < 8. 2 * j + 1 < la \<and> a ! (2 * j) \<le> b ! i \<and> b ! i \<le> a ! (2 * j + 1)))
       [0..<16]"

definition bytes16 :: "memory \<Rightarrow> nat \<Rightarrow> 8 word list" where
  "bytes16 mem p = map (\<lambda>c. of_char c) (load16 mem p)"

subsection \<open>Searches\<close>

text \<open>
  The search common to \<open>find_first_of\<close> and \<open>find_first_in_ranges\<close>, whose bodies differ only in the
  table and the compare mode \<open>cmp\<close>: for the 16 bytes at \<open>cbegin + i\<close>, the full 16-entry pieces of the
  table one after the other, then the partial piece; \<open>Some\<close> is the offset returned.
\<close>

fun table_pieces ::
    "(8 word list \<Rightarrow> nat \<Rightarrow> 8 word list \<Rightarrow> nat \<Rightarrow> nat) \<Rightarrow> (8 word list \<times> nat) list \<Rightarrow>
     8 word list \<Rightarrow> nat \<Rightarrow> nat option" where
  "table_pieces cmp [] xmm0 len_a = None"
| "table_pieces cmp ((xmm1, l) # ps) xmm0 len_a =
     (let lsb_set = cmp xmm1 l xmm0 len_a
      in if lsb_set < 16 then Some lsb_set else table_pieces cmp ps xmm0 len_a)"

definition full_pieces :: "8 word list \<Rightarrow> (8 word list \<times> nat) list" where
  "full_pieces table =
     map (\<lambda>k. (take 16 (drop (16 * k) table), 16)) [0..<length table div 16]"

definition last_piece :: "8 word list \<Rightarrow> (8 word list \<times> nat) list" where
  "last_piece table =
     (let j = 16 * (length table div 16)
      in if j < length table then [(drop j table, length table mod 16)] else [])"

function table_search ::
    "(8 word list \<Rightarrow> nat \<Rightarrow> 8 word list \<Rightarrow> nat \<Rightarrow> nat) \<Rightarrow> 8 word list \<Rightarrow>
     memory \<Rightarrow> nat \<Rightarrow> nat \<Rightarrow> nat \<Rightarrow> nat" where
  "table_search cmp table mem cbegin len i =
     (if i < len
      then (let len_a = (if len - i > 16 then 16 else len - i)
            in case table_pieces cmp (full_pieces table @ last_piece table) (bytes16 mem (cbegin + i)) len_a of
                 Some lsb_set \<Rightarrow> min (cbegin + i + lsb_set) (cbegin + len)
               | None \<Rightarrow> table_search cmp table mem cbegin len (i + 16))
      else cbegin + len)"
  by pat_completeness auto
termination
  by (relation "measure (\<lambda>(cmp, table, mem, b, len, i). len - i)") auto

declare table_search.simps [simp del]

definition find_first_of_sse4_2 :: "cu_tables \<Rightarrow> memory \<Rightarrow> nat \<Rightarrow> nat \<Rightarrow> nat" where
  "find_first_of_sse4_2 t mem cbegin len =
     table_search cmpestri_equal_any (m_compiled_cu_bitmap t) mem cbegin len 0"

definition find_first_in_ranges_sse4_2 :: "cu_tables \<Rightarrow> memory \<Rightarrow> nat \<Rightarrow> nat \<Rightarrow> nat" where
  "find_first_in_ranges_sse4_2 t mem cbegin len =
     table_search cmpestri_ranges (m_compiled_range_bitmap t) mem cbegin len 0"

function find_loop :: "8 word \<Rightarrow> memory \<Rightarrow> nat \<Rightarrow> nat \<Rightarrow> nat \<Rightarrow> nat" where
  "find_loop c mem cbegin len i =
     (if i < len
      then (let match_bytemask = map2 (=) (bytes16 mem (cbegin + i)) (replicate 16 c);
                match_bitmask = mm_movemask_epi8 match_bytemask;
                lowest_bit = find_first_set_bit match_bitmask
            in if list_ex id match_bytemask \<and> match_bitmask > 0
                  \<and> lowest_bit > 0 \<and> i + lowest_bit - 1 < len
               then min (cbegin + i + lowest_bit - 1) (cbegin + len)
               else find_loop c mem cbegin len (i + 16))
      else cbegin + len)"
  by pat_completeness auto
termination
  by (relation "measure (\<lambda>(c, mem, b, len, i). len - i)") auto

declare find_loop.simps [simp del]

definition find_sse4_2 :: "cu_tables \<Rightarrow> memory \<Rightarrow> nat \<Rightarrow> nat \<Rightarrow> nat" where
  "find_sse4_2 t mem cbegin len = find_loop (m_compiled_cu_bitmap t ! 0) mem cbegin len 0"

definition FindFirstPossibleCodeUnit_default :: "cu_tables \<Rightarrow> memory \<Rightarrow> nat \<Rightarrow> nat \<Rightarrow> nat" where
  "FindFirstPossibleCodeUnit_default t mem cbegin len =
     (if m_end_fpcu_table t > 1 then find_first_of_sse4_2 t mem cbegin len
      else if m_end_fpcu_table t = 1 then find_sse4_2 t mem cbegin len
      else cbegin + len)"

subsection \<open>The tables hold the bytes of the map\<close>

text \<open>The bytes of a bit map, and the bytes a range table covers.\<close>

definition bitmap_bytes :: "8 word list \<Rightarrow> 8 word set" where
  "bitmap_bytes pcre2_bitmap = {c. bitmap_bit pcre2_bitmap (unat c)}"

fun in_ranges :: "8 word list \<Rightarrow> 8 word \<Rightarrow> bool" where
  "in_ranges (a # b # r) c \<longleftrightarrow> (a \<le> c \<and> c \<le> b) \<or> in_ranges r c"
| "in_ranges _ c \<longleftrightarrow> False"

lemma fold_filter_map:
  "fold (\<lambda>i out. if \<not> Q i then out else out @ [f i]) xs out = out @ map f (filter Q xs)"
  by (induction xs arbitrary: out) auto

lemma code_unit_table:
  "m_compiled_cu_bitmap (ConstructCodeUnitTable bm t) = map of_nat (filter (bitmap_bit bm) [0..<256])"
  by (simp add: ConstructCodeUnitTable_def fold_filter_map)

lemma of_nat_byte_less: "i < j \<Longrightarrow> j < 256 \<Longrightarrow> (of_nat i :: 8 word) < of_nat j"
  by (simp add: word_less_nat_alt unat_of_nat)

lemma sorted_wrt_byte_map:
  "sorted_wrt (<) xs \<Longrightarrow> \<forall>x \<in> set xs. x < 256 \<Longrightarrow> sorted_wrt (<) (map of_nat xs :: 8 word list)"
  by (induction xs) (auto simp: of_nat_byte_less)

lemma code_unit_table_sorted:
  "sorted_wrt (<) (m_compiled_cu_bitmap (ConstructCodeUnitTable bm t))"
  unfolding code_unit_table by (rule sorted_wrt_byte_map) (simp_all add: sorted_wrt_filter)

lemma code_unit_table_set: "set (m_compiled_cu_bitmap (ConstructCodeUnitTable bm t)) = bitmap_bytes bm"
proof (rule set_eqI)
  fix c :: "8 word"
  have c: "unat c < 256" using unsigned_less[of c, where 'a = nat] by simp
  show "c \<in> set (m_compiled_cu_bitmap (ConstructCodeUnitTable bm t)) \<longleftrightarrow> c \<in> bitmap_bytes bm"
  proof
    assume "c \<in> bitmap_bytes bm"
    then have "unat c \<in> set (filter (bitmap_bit bm) [0..<256])" using c by (simp add: bitmap_bytes_def)
    then have "of_nat (unat c) \<in> set (map of_nat (filter (bitmap_bit bm) [0..<256]) :: 8 word list)"
      unfolding set_map by (rule imageI)
    then show "c \<in> set (m_compiled_cu_bitmap (ConstructCodeUnitTable bm t))"
      by (simp add: code_unit_table)
  qed (auto simp: code_unit_table bitmap_bytes_def unat_of_nat)
qed

lemma code_unit_table_length: "m_end_fpcu_table (ConstructCodeUnitTable bm t) \<le> 256"
  using length_filter_le[of "bitmap_bit bm" "[0..<256]"]
  by (simp add: m_end_fpcu_table_def code_unit_table)

lemma in_ranges_append: "even (length xs) \<Longrightarrow> in_ranges (xs @ ys) c \<longleftrightarrow> in_ranges xs c \<or> in_ranges ys c"
  by (induction xs c rule: in_ranges.induct) auto

lemma word_succ_between:
  fixes l c :: "8 word"
  assumes "unat d = unat l + 1" and "f \<le> l"
  shows "l + 1 = d" and "f \<le> c \<and> c \<le> d \<longleftrightarrow> (f \<le> c \<and> c \<le> l) \<or> c = d"
proof -
  show "l + 1 = d"
  proof -
    have "unat d < 256" using unsigned_less[of d, where 'a = nat] by simp
    then have "unat (l + 1) = unat d"
      using assms(1) by (simp add: unat_word_ariths)
    then show ?thesis by (simp only: word_unat_eq_iff)
  qed
  show "f \<le> c \<and> c \<le> d \<longleftrightarrow> (f \<le> c \<and> c \<le> l) \<or> c = d"
    using assms by (auto simp: word_le_nat_alt le_Suc_eq word_unat_eq_iff)
qed

lemma range_loop_mem:
  "f \<le> l \<Longrightarrow> sorted_wrt (<) (l # cs) \<Longrightarrow> even (length out) \<Longrightarrow>
     in_ranges (range_loop cs f l out) c \<longleftrightarrow> in_ranges out c \<or> (f \<le> c \<and> c \<le> l) \<or> c \<in> set cs"
proof (induction cs f l out rule: range_loop.induct)
  case (2 d cs f l out)
  show ?case
  proof (cases "unat d = unat l + 1")
    case True
    note w = word_succ_between[OF True "2.prems"(1)]
    have "f \<le> d" using w(2)[of d] by simp
    with "2.IH"(1)[OF True] "2.prems" w show ?thesis
      by (auto simp: True)
  next
    case False
    then have e: "range_loop (d # cs) f l out = range_loop cs d d (out @ [f, l])" by simp
    show ?thesis unfolding e
      using "2.IH"(2)[OF False] "2.prems" by (auto simp: in_ranges_append)
  qed
qed (auto simp: in_ranges_append)

lemma range_loop_length:
  "f \<le> l \<Longrightarrow> sorted_wrt (<) (l # cs) \<Longrightarrow> even (length out) \<Longrightarrow> length out \<le> unat f \<Longrightarrow>
     even (length (range_loop cs f l out)) \<and> length (range_loop cs f l out) \<le> 256"
proof (induction cs f l out rule: range_loop.induct)
  case (1 f l out)
  have "unat f < 256" using unsigned_less[of f, where 'a = nat] by simp
  with 1 have "length out < 256" and "even (length out)" by simp_all
  then have "length out + 2 \<le> 256" by presburger
  with \<open>even (length out)\<close> show ?case by simp
next
  case (2 d cs f l out)
  show ?case
  proof (cases "unat d = unat l + 1")
    case True
    note w = word_succ_between[OF True "2.prems"(1)]
    have "f \<le> d" using w(2)[of d] by simp
    with "2.IH"(1)[OF True] "2.prems" w(1) show ?thesis by (simp add: True)
  next
    case False
    have "unat l < unat d" and "unat f \<le> unat l"
      using "2.prems" by (simp_all add: word_less_nat_alt word_le_nat_alt)
    with False have "length out + 2 \<le> unat d" using "2.prems"(4) by linarith
    have e: "range_loop (d # cs) f l out = range_loop cs d d (out @ [f, l])" using False by simp
    show ?thesis unfolding e
      using \<open>length out + 2 \<le> unat d\<close> "2.prems" by (intro "2.IH"(2)[OF False]) simp_all
  qed
qed

lemma range_table:
  assumes "sorted_wrt (<) (m_compiled_cu_bitmap t)"
  shows "in_ranges (m_compiled_range_bitmap (ConstructRangePairTable t)) c \<longleftrightarrow> c \<in> set (m_compiled_cu_bitmap t)"
    and "even (m_end_ranges_table (ConstructRangePairTable t))"
    and "m_end_ranges_table (ConstructRangePairTable t) \<le> 256"
proof -
  show "in_ranges (m_compiled_range_bitmap (ConstructRangePairTable t)) c \<longleftrightarrow> c \<in> set (m_compiled_cu_bitmap t)"
  proof (cases "m_compiled_cu_bitmap t")
    case (Cons d cs)
    then show ?thesis
      using assms range_loop_mem[of d d cs "[]" c] by (auto simp: ConstructRangePairTable_def)
  qed (simp add: ConstructRangePairTable_def)
  have "even (m_end_ranges_table (ConstructRangePairTable t)) \<and> m_end_ranges_table (ConstructRangePairTable t) \<le> 256"
  proof (cases "m_compiled_cu_bitmap t")
    case (Cons d cs)
    then show ?thesis
      using assms range_loop_length[of d d cs "[]"]
      by (simp add: ConstructRangePairTable_def m_end_ranges_table_def)
  qed (simp add: ConstructRangePairTable_def m_end_ranges_table_def)
  then show "even (m_end_ranges_table (ConstructRangePairTable t))"
    and "m_end_ranges_table (ConstructRangePairTable t) \<le> 256" by simp_all
qed

subsection \<open>The searches find the first byte of the table\<close>

text \<open>
  \<open>r\<close> is where a search of \<open>[b, e)\<close> for a byte satisfying \<open>P\<close> should end up: at the first hit, or at
  the end; \<open>some_hit\<close> only says that it stops at a hit unless there is none.
\<close>

definition first_hit :: "(8 word \<Rightarrow> bool) \<Rightarrow> memory \<Rightarrow> nat \<Rightarrow> nat \<Rightarrow> nat \<Rightarrow> bool" where
  "first_hit P mem b e r \<longleftrightarrow>
     b \<le> r \<and> r \<le> e \<and> (r < e \<longrightarrow> P (of_char (mem r))) \<and> (\<forall>p. b \<le> p \<and> p < r \<longrightarrow> \<not> P (of_char (mem p)))"

definition some_hit :: "(8 word \<Rightarrow> bool) \<Rightarrow> memory \<Rightarrow> nat \<Rightarrow> nat \<Rightarrow> nat \<Rightarrow> bool" where
  "some_hit P mem b e r \<longleftrightarrow>
     b \<le> r \<and> r \<le> e \<and> (r < e \<longrightarrow> P (of_char (mem r)))
     \<and> (r = e \<longrightarrow> (\<forall>p. b \<le> p \<and> p < e \<longrightarrow> \<not> P (of_char (mem p))))"

lemma bytes16_nth [simp]: "i < 16 \<Longrightarrow> bytes16 mem p ! i = of_char (mem (p + i))"
  by (simp add: bytes16_def load16_def)

lemma find_if_upt:
  fixes Q :: "nat \<Rightarrow> bool" and n :: nat
  defines "k \<equiv> find_if Q [0..<n]"
  shows "k \<le> n" and "k < n \<Longrightarrow> Q k" and "i < k \<Longrightarrow> \<not> Q i"
proof -
  show kn: "k \<le> n" using find_if_le[of Q "[0..<n]"] by (simp add: k_def)
  show "Q k" if "k < n"
    using find_if_hit[of Q "[0..<n]"] that by (simp add: k_def)
  show "\<not> Q i" if "i < k"
    using find_if_miss[of i Q "[0..<n]"] that kn by (simp add: k_def)
qed

text \<open>A compare mode: the bytes a piece of the table matches.\<close>

definition compares ::
    "(8 word list \<Rightarrow> nat \<Rightarrow> 8 word list \<Rightarrow> nat \<Rightarrow> nat) \<Rightarrow> (8 word list \<times> nat \<Rightarrow> 8 word \<Rightarrow> bool) \<Rightarrow> bool" where
  "compares cmp M \<longleftrightarrow> (\<forall>a la b lb. cmp a la b lb = find_if (\<lambda>i. i < lb \<and> M (a, la) (b ! i)) [0..<16])"

definition any_of :: "8 word list \<times> nat \<Rightarrow> 8 word \<Rightarrow> bool" where
  "any_of p c \<longleftrightarrow> (\<exists>j < snd p. fst p ! j = c)"

definition range_of :: "8 word list \<times> nat \<Rightarrow> 8 word \<Rightarrow> bool" where
  "range_of p c \<longleftrightarrow> (\<exists>j < 8. 2 * j + 1 < snd p \<and> fst p ! (2 * j) \<le> c \<and> c \<le> fst p ! (2 * j + 1))"

lemma compares_any: "compares cmpestri_equal_any any_of"
  by (simp add: compares_def cmpestri_equal_any_def any_of_def)

lemma compares_range: "compares cmpestri_ranges range_of"
  by (simp add: compares_def cmpestri_ranges_def range_of_def)

lemma compare_result:
  fixes a :: "8 word list" and la lb p i :: nat and mem :: memory
  assumes "compares cmp M" and "lb \<le> 16"
  defines "k \<equiv> cmp a la (bytes16 mem p) lb"
  shows "k < 16 \<Longrightarrow> k < lb \<and> M (a, la) (of_char (mem (p + k)))"
    and "i < lb \<Longrightarrow> i < k \<Longrightarrow> \<not> M (a, la) (of_char (mem (p + i)))"
    and "k \<le> 16"
proof -
  have k: "k = find_if (\<lambda>i. i < lb \<and> M (a, la) (bytes16 mem p ! i)) [0..<16]"
    using assms(1) by (simp add: compares_def k_def)
  note u = find_if_upt[where Q = "\<lambda>i. i < lb \<and> M (a, la) (bytes16 mem p ! i)" and n = 16, folded k]
  show "k \<le> 16" by (rule u(1))
  show "k < lb \<and> M (a, la) (of_char (mem (p + k)))" if "k < 16"
    using u(2)[OF that] that by simp
  show "\<not> M (a, la) (of_char (mem (p + i)))" if "i < lb" "i < k"
    using u(3)[OF that(2)] that u(1) by simp
qed

lemma table_pieces_result:
  assumes "compares cmp M" and "lb \<le> 16"
  shows "case table_pieces cmp ps (bytes16 mem p) lb of
      Some k \<Rightarrow> k < lb \<and> (\<exists>q \<in> set ps. M q (of_char (mem (p + k))))
    | None \<Rightarrow> \<forall>i < lb. \<forall>q \<in> set ps. \<not> M q (of_char (mem (p + i)))"
proof (induction ps)
  case (Cons q ps)
  obtain a la where q: "q = (a, la)" by (cases q)
  note r = compare_result[OF assms, where a = a and la = la and mem = mem and p = p]
  show ?case
  proof (cases "cmp a la (bytes16 mem p) lb < 16")
    case True
    then show ?thesis using r(1) by (simp add: q Let_def)
  next
    case False
    then have "cmp a la (bytes16 mem p) lb = 16" using r(3) by simp
    then have "\<forall>i < lb. \<not> M (a, la) (of_char (mem (p + i)))" using r(2) assms(2) by auto
    with Cons False show ?thesis by (auto simp: q Let_def split: option.splits)
  qed
qed simp

text \<open>With one piece the hit is the first one of the window.\<close>

lemma single_piece_result:
  assumes "compares cmp M" and "lb \<le> 16" and "table_pieces cmp [q] (bytes16 mem p) lb = Some k" and "i < k"
  shows "\<not> M q (of_char (mem (p + i)))"
proof -
  obtain a la where q: "q = (a, la)" by (cases q)
  note r = compare_result[OF assms(1,2), where a = a and la = la and mem = mem and p = p]
  have k: "k = cmp a la (bytes16 mem p) lb" "k < 16"
    using assms(3) by (auto simp: q Let_def split: if_splits)
  then have "i < lb" using r(1) assms(4) by simp
  then show ?thesis using r(2)[of i] k assms(4) by (simp add: q)
qed

definition table_pred ::
    "(8 word list \<times> nat \<Rightarrow> 8 word \<Rightarrow> bool) \<Rightarrow> 8 word list \<Rightarrow> 8 word \<Rightarrow> bool" where
  "table_pred M table c \<longleftrightarrow> (\<exists>q \<in> set (full_pieces table @ last_piece table). M q c)"

lemma table_search_step:
  fixes i len b :: nat
  assumes "compares cmp M" and "i < len"
  defines "lb \<equiv> (if len - i > 16 then 16 else len - i)"
  shows "(table_pieces cmp (full_pieces table @ last_piece table) (bytes16 mem (b + i)) lb = None \<longrightarrow>
           table_search cmp table mem b len i = table_search cmp table mem b len (i + 16)
           \<and> (\<forall>p. b + i \<le> p \<and> p < b + i + 16 \<and> p < b + len \<longrightarrow> \<not> table_pred M table (of_char (mem p))))
    \<and> (\<forall>k. table_pieces cmp (full_pieces table @ last_piece table) (bytes16 mem (b + i)) lb = Some k \<longrightarrow>
           table_search cmp table mem b len i = b + i + k \<and> k < lb
           \<and> table_pred M table (of_char (mem (b + i + k))))"
proof -
  have lb: "lb \<le> 16" "i + lb \<le> len" using assms(2) by (auto simp: lb_def)
  note r = table_pieces_result[OF assms(1) lb(1), of "full_pieces table @ last_piece table" mem "b + i"]
  have unf: "table_search cmp table mem b len i =
      (case table_pieces cmp (full_pieces table @ last_piece table) (bytes16 mem (b + i)) lb of
         Some k \<Rightarrow> min (b + i + k) (b + len) | None \<Rightarrow> table_search cmp table mem b len (i + 16))"
    using assms(2) by (subst table_search.simps) (simp only: Let_def lb_def if_True)
  show ?thesis
  proof (cases "table_pieces cmp (full_pieces table @ last_piece table) (bytes16 mem (b + i)) lb")
    case None
    have "\<not> table_pred M table (of_char (mem p))" if "b + i \<le> p" "p < b + i + 16" "p < b + len" for p
    proof -
      have j: "p - (b + i) < lb" and p: "b + i + (p - (b + i)) = p" using that by (auto simp: lb_def)
      have "\<forall>j < lb. \<forall>q \<in> set (full_pieces table @ last_piece table). \<not> M q (of_char (mem (b + i + j)))"
        using r by (simp only: None option.case)
      with j have "\<forall>q \<in> set (full_pieces table @ last_piece table). \<not> M q (of_char (mem (b + i + (p - (b + i)))))"
        by blast
      then show ?thesis unfolding p table_pred_def by blast
    qed
    with None unf show ?thesis by simp
  next
    case (Some k)
    with r lb have "k < lb" and "table_pred M table (of_char (mem (b + i + k)))"
      by (simp_all add: table_pred_def)
    with Some unf lb show ?thesis by simp
  qed
qed

lemma table_search_result:
  fixes table :: "8 word list" and mem :: memory and b len i :: nat
  assumes "compares cmp M"
  defines "r \<equiv> table_search cmp table mem b len"
  shows "r i \<le> b + len \<and> (i \<le> len \<longrightarrow> b + i \<le> r i)
    \<and> (r i < b + len \<longrightarrow> table_pred M table (of_char (mem (r i))))
    \<and> (r i = b + len \<longrightarrow> (\<forall>p. b + i \<le> p \<and> p < b + len \<longrightarrow> \<not> table_pred M table (of_char (mem p))))"
proof (induction "len - i" arbitrary: i rule: less_induct)
  case less
  define lb where "lb = (if len - i > 16 then 16 else len - i)"
  show ?case
  proof (cases "i < len")
    case False
    then have "r i = b + len" unfolding r_def by (subst table_search.simps) simp
    with False show ?thesis by auto
  next
    case True
    note step = table_search_step[OF assms(1) True, of table mem b, folded lb_def]
    show ?thesis
    proof (cases "table_pieces cmp (full_pieces table @ last_piece table) (bytes16 mem (b + i)) lb")
      case None
      with step have eq: "r i = r (i + 16)"
        and no: "\<And>p. b + i \<le> p \<Longrightarrow> p < b + i + 16 \<Longrightarrow> p < b + len \<Longrightarrow> \<not> table_pred M table (of_char (mem p))"
        by (auto simp: r_def)
      have IH: "r (i + 16) \<le> b + len \<and> (i + 16 \<le> len \<longrightarrow> b + (i + 16) \<le> r (i + 16))
          \<and> (r (i + 16) < b + len \<longrightarrow> table_pred M table (of_char (mem (r (i + 16)))))
          \<and> (r (i + 16) = b + len \<longrightarrow>
              (\<forall>p. b + (i + 16) \<le> p \<and> p < b + len \<longrightarrow> \<not> table_pred M table (of_char (mem p))))"
        using True by (intro less) simp
      have "i + 16 \<le> len \<or> r (i + 16) = b + len"
        unfolding r_def by (subst table_search.simps) auto
      moreover have "\<not> table_pred M table (of_char (mem p))"
        if "r (i + 16) = b + len" "b + i \<le> p" "p < b + len" for p
        using IH no[of p] that by (cases "p < b + i + 16") auto
      ultimately show ?thesis using IH eq True by auto
    next
      case (Some k)
      with step have "r i = b + i + k" "k < lb" "table_pred M table (of_char (mem (b + i + k)))"
        by (auto simp: r_def)
      moreover have "i + lb \<le> len" using True by (auto simp: lb_def)
      ultimately show ?thesis by simp
    qed
  qed
qed

lemma table_search_some_hit:
  "compares cmp M \<Longrightarrow> some_hit (table_pred M table) mem b (b + len) (table_search cmp table mem b len 0)"
  using table_search_result[of cmp M table mem b len 0] by (auto simp: some_hit_def)

lemma table_search_first:
  assumes "compares cmp M" and single: "full_pieces table @ last_piece table = [q]"
  shows "\<forall>p. b + i \<le> p \<and> p < table_search cmp table mem b len i \<longrightarrow> \<not> M q (of_char (mem p))"
proof (induction "len - i" arbitrary: i rule: less_induct)
  case less
  define lb where "lb = (if len - i > 16 then 16 else len - i)"
  show ?case
  proof (cases "i < len")
    case False
    then have "table_search cmp table mem b len i = b + len" by (subst table_search.simps) simp
    with False show ?thesis by auto
  next
    case True
    note step = table_search_step[OF assms(1) True, of table mem b, folded lb_def]
    show ?thesis
    proof (cases "table_pieces cmp (full_pieces table @ last_piece table) (bytes16 mem (b + i)) lb")
      case None
      with step have eq: "table_search cmp table mem b len i = table_search cmp table mem b len (i + 16)"
        and no: "\<And>p. b + i \<le> p \<Longrightarrow> p < b + i + 16 \<Longrightarrow> p < b + len \<Longrightarrow> \<not> M q (of_char (mem p))"
        by (auto simp: table_pred_def single)
      have IH: "\<forall>p. b + (i + 16) \<le> p \<and> p < table_search cmp table mem b len (i + 16) \<longrightarrow> \<not> M q (of_char (mem p))"
        using True by (intro less) simp
      have bound: "table_search cmp table mem b len (i + 16) \<le> b + len"
        using table_search_result[OF assms(1), of table mem b len "i + 16"] by simp
      show ?thesis
      proof (intro allI impI)
        fix p assume p: "b + i \<le> p \<and> p < table_search cmp table mem b len i"
        show "\<not> M q (of_char (mem p))"
          using IH no[of p] p bound eq by (cases "p < b + i + 16") auto
      qed
    next
      case (Some k)
      have lb: "lb \<le> 16" by (simp add: lb_def)
      have r: "table_search cmp table mem b len i = b + i + k" using step Some by simp
      show ?thesis
      proof (intro allI impI)
        fix p assume p: "b + i \<le> p \<and> p < table_search cmp table mem b len i"
        then have "p - (b + i) < k" by (auto simp: r)
        then have "\<not> M q (of_char (mem (b + i + (p - (b + i)))))"
          using single_piece_result[OF assms(1) lb] Some single by metis
        with p show "\<not> M q (of_char (mem p))" by simp
      qed
    qed
  qed
qed

lemma table_search_first_hit:
  assumes "compares cmp M" and "full_pieces table @ last_piece table = [q]"
  shows "first_hit (M q) mem b (b + len) (table_search cmp table mem b len 0)"
  using table_search_result[OF assms(1), of table mem b len 0] table_search_first[OF assms, of b 0 mem len]
  by (simp add: first_hit_def table_pred_def assms(2))

text \<open>A table of at most 16 entries is one piece.\<close>

lemma one_piece:
  assumes "table \<noteq> []" and "length table \<le> 16"
  shows "full_pieces table @ last_piece table = [(table, length table)]"
proof (cases "length table = 16")
  case True
  then show ?thesis by (simp add: full_pieces_def last_piece_def)
next
  case False
  then have l: "length table < 16" using assms(2) by simp
  then have "length table div 16 = 0" "length table mod 16 = length table" by simp_all
  then show ?thesis using assms(1) unfolding full_pieces_def last_piece_def Let_def by simp
qed

lemma any_of_table: "any_of (table, length table) = (\<lambda>c. c \<in> set table)"
  by (rule ext) (auto simp: any_of_def in_set_conv_nth)

lemma in_ranges_nth:
  "even (length table) \<Longrightarrow> in_ranges table c \<longleftrightarrow>
     (\<exists>j. 2 * j + 1 < length table \<and> table ! (2 * j) \<le> c \<and> c \<le> table ! (2 * j + 1))"
proof (induction table c rule: in_ranges.induct)
  case (1 a b r c)
  have "(\<exists>j. 2 * j + 1 < length (a # b # r) \<and> (a # b # r) ! (2 * j) \<le> c \<and> c \<le> (a # b # r) ! (2 * j + 1))
      \<longleftrightarrow> (a \<le> c \<and> c \<le> b)
        \<or> (\<exists>j. 2 * j + 1 < length r \<and> r ! (2 * j) \<le> c \<and> c \<le> r ! (2 * j + 1))" (is "(\<exists>j. ?P j) \<longleftrightarrow> _")
  proof -
    have "(\<exists>j. ?P j) \<longleftrightarrow> ?P 0 \<or> (\<exists>j. ?P (Suc j))" by (metis not0_implies_Suc)
    then show ?thesis by simp
  qed
  with 1 show ?case by simp
qed auto

lemma range_of_table:
  assumes "even (length table)" and "length table \<le> 16"
  shows "range_of (table, length table) = in_ranges table"
proof (rule ext)
  fix c
  have "2 * j + 1 < length table \<Longrightarrow> j < 8" for j using assms(2) by simp
  then show "range_of (table, length table) c = in_ranges table c"
    unfolding range_of_def in_ranges_nth[OF assms(1)] fst_conv snd_conv by blast
qed

lemma find_first_of_first_hit:
  assumes "m_compiled_cu_bitmap t \<noteq> []" and "m_end_fpcu_table t \<le> 16"
  shows "first_hit (\<lambda>c. c \<in> set (m_compiled_cu_bitmap t)) mem b (b + len) (find_first_of_sse4_2 t mem b len)"
  using table_search_first_hit[OF compares_any one_piece[OF assms(1)], of mem b len] assms(2)
  by (simp add: find_first_of_sse4_2_def any_of_table m_end_fpcu_table_def)

lemma find_first_in_ranges_first_hit:
  assumes "m_compiled_range_bitmap t \<noteq> []" and "m_end_ranges_table t \<le> 16" and "even (m_end_ranges_table t)"
  shows "first_hit (in_ranges (m_compiled_range_bitmap t)) mem b (b + len) (find_first_in_ranges_sse4_2 t mem b len)"
  using table_search_first_hit[OF compares_range one_piece[OF assms(1)], of mem b len] assms(2,3)
  by (simp add: find_first_in_ranges_sse4_2_def range_of_table m_end_ranges_table_def)

lemma bit_eq_mask:
  "bit (mm_movemask_epi8 (map2 (=) (bytes16 mem p) (replicate 16 c))) i \<longleftrightarrow> i < 16 \<and> of_char (mem (p + i)) = c"
  by (auto simp: mm_movemask_epi8_def bit_horner_sum_bit_word_iff bytes16_def load16_def)

lemma find_loop_hit:
  assumes "i \<le> len" and "\<forall>p. b \<le> p \<and> p < b + i \<longrightarrow> of_char (mem p) \<noteq> c"
  shows "first_hit (\<lambda>d. d = c) mem b (b + len) (find_loop c mem b len i)"
  using assms
proof (induction "len - i" arbitrary: i rule: less_induct)
  case less
  define w where "w = mm_movemask_epi8 (map2 (=) (bytes16 mem (b + i)) (replicate 16 c))"
  have bits: "bit w j \<longleftrightarrow> j < 16 \<and> of_char (mem (b + i + j)) = c" for j
    unfolding w_def by (rule bit_eq_mask)
  have any: "list_ex id (map2 (=) (bytes16 mem (b + i)) (replicate 16 c)) \<longleftrightarrow> w \<noteq> 0"
  proof -
    have "list_ex id (map2 (=) (bytes16 mem (b + i)) (replicate 16 c)) \<longleftrightarrow> (\<exists>j < 16. of_char (mem (b + i + j)) = c)"
      by (auto simp: list_ex_length bytes16_def load16_def)
    then show ?thesis by (auto simp: word_nonzero_bit bits)
  qed
  have pos: "w > 0 \<longleftrightarrow> w \<noteq> 0" by (simp add: word_gt_0)
  show ?case
  proof (cases "i < len")
    case False
    then have "find_loop c mem b len i = b + len" by (subst find_loop.simps) simp
    with False less.prems show ?thesis by (auto simp: first_hit_def)
  next
    case True
    show ?thesis
    proof (cases "w \<noteq> 0 \<and> i + lowest_bit w < len")
      case hit: True
      then have l: "find_first_set_bit w = Suc (lowest_bit w)" by (simp add: find_first_set_bit_lowest)
      have "find_loop c mem b len i = b + i + lowest_bit w"
        by (subst find_loop.simps) (use hit True l any pos in \<open>simp add: Let_def w_def[symmetric]\<close>)
      moreover have "of_char (mem (b + i + lowest_bit w)) = c" and lb16: "lowest_bit w < 16"
        using bit_lowest_bit[of w] hit bits by blast+
      moreover have "of_char (mem p) \<noteq> c" if "b \<le> p" "p < b + i + lowest_bit w" for p
      proof (cases "p < b + i")
        case False
        then have "\<not> bit w (p - (b + i))" using that by (intro below_lowest_bit) simp
        moreover have "p - (b + i) < 16"
          using that False lb16 by arith
        ultimately show ?thesis using bits[of "p - (b + i)"] False by simp
      qed (use less.prems that in simp)
      ultimately show ?thesis using hit by (simp add: first_hit_def)
    next
      case miss: False
      have eq: "find_loop c mem b len i = find_loop c mem b len (i + 16)"
        by (subst find_loop.simps)
           (use miss True any pos in \<open>auto simp: Let_def w_def[symmetric] find_first_set_bit_lowest\<close>)
      have none: "of_char (mem p) \<noteq> c" if "b \<le> p" "p < b + (i + 16)" "p < b + len" for p
      proof (cases "p < b + i")
        case False
        have "\<not> bit w (p - (b + i))"
        proof
          assume bw: "bit w (p - (b + i))"
          then have "w \<noteq> 0" by (auto simp: word_nonzero_bit)
          moreover have "lowest_bit w \<le> p - (b + i)" using bw below_lowest_bit linorder_not_less by blast
          ultimately show False using miss that False by simp
        qed
        then show ?thesis using bits[of "p - (b + i)"] False that by simp
      qed (use less.prems that in simp)
      show ?thesis
      proof (cases "i + 16 \<le> len")
        case le: True
        show ?thesis unfolding eq
          by (rule less.hyps) (use le none True in auto)
      next
        case gt: False
        then have "find_loop c mem b len (i + 16) = b + len" by (subst find_loop.simps) simp
        then show ?thesis using none gt by (auto simp: eq first_hit_def)
      qed
    qed
  qed
qed

lemma find_first_hit:
  assumes "m_end_fpcu_table t = 1"
  shows "first_hit (\<lambda>c. c \<in> set (m_compiled_cu_bitmap t)) mem b (b + len) (find_sse4_2 t mem b len)"
proof -
  obtain c where c: "m_compiled_cu_bitmap t = [c]"
    using assms by (auto simp: m_end_fpcu_table_def length_Suc_conv)
  show ?thesis
  proof -
    have "\<forall>p. b \<le> p \<and> p < b + 0 \<longrightarrow> (of_char (mem p) :: 8 word) \<noteq> c" by auto
    from find_loop_hit[OF _ this, of len] show ?thesis by (simp add: find_sse4_2_def c)
  qed
qed

text \<open>A table of any length: its pieces together match exactly its entries.\<close>

lemma table_pred_any: "table_pred any_of table c \<longleftrightarrow> c \<in> set table"
proof
  assume "table_pred any_of table c"
  then consider k j where "k < length table div 16" "j < 16" "take 16 (drop (16 * k) table) ! j = c"
    | j where "16 * (length table div 16) < length table" "j < length table mod 16"
        "drop (16 * (length table div 16)) table ! j = c"
    by (auto simp: table_pred_def full_pieces_def last_piece_def any_of_def Let_def split: if_splits)
  then show "c \<in> set table"
  proof cases
    case 1
    then have "16 * k + j < length table" by linarith
    then show ?thesis using 1 by (metis add_leD1 less_imp_le_nat nth_drop nth_mem nth_take)
  next
    case 2
    then have "16 * (length table div 16) + j < length table"
      using mult_div_mod_eq[of 16 "length table"] by linarith
    then show ?thesis using 2 by (metis less_imp_le_nat nth_drop nth_mem)
  qed
next
  assume "c \<in> set table"
  then obtain i where i: "i < length table" "table ! i = c" by (auto simp: in_set_conv_nth)
  define k j where "k = i div 16" and "j = i mod 16"
  have ij: "i = 16 * k + j" "j < 16" by (simp_all add: k_def j_def)
  show "table_pred any_of table c"
  proof (cases "k < length table div 16")
    case True
    have "any_of (take 16 (drop (16 * k) table), 16) c"
      unfolding any_of_def by (rule exI[of _ j]) (use ij i in simp)
    moreover have "(take 16 (drop (16 * k) table), 16) \<in> set (full_pieces table)"
      using True by (auto simp: full_pieces_def)
    ultimately show ?thesis by (auto simp: table_pred_def)
  next
    case False
    then have k: "k = length table div 16" using i(1) div_le_mono[of i "length table" 16] by (simp add: k_def)
    have j: "j < length table mod 16"
      using i(1) ij mult_div_mod_eq[of 16 "length table"] unfolding k by linarith
    have "any_of (drop (16 * (length table div 16)) table, length table mod 16) c"
      unfolding any_of_def by (rule exI[of _ j]) (use ij i j k in simp)
    moreover have "16 * (length table div 16) < length table" using i(1) ij k by linarith
    ultimately show ?thesis by (auto simp: table_pred_def last_piece_def Let_def)
  qed
qed

lemma find_first_of_some_hit:
  "some_hit (\<lambda>c. c \<in> set (m_compiled_cu_bitmap t)) mem b (b + len) (find_first_of_sse4_2 t mem b len)"
  using table_search_some_hit[OF compares_any, of "m_compiled_cu_bitmap t" mem b len]
  by (simp add: find_first_of_sse4_2_def table_pred_any[abs_def])

subsection \<open>The contract of a prefilter\<close>

text \<open>
  What the scanner relies on when it skips ahead: a search returns the first position whose byte may
  start a match (\<open>starts\<close>), or the end; \<open>ok\<close> says for which tables the search promises it.
\<close>

locale prefilter =
  fixes search :: "'t \<Rightarrow> memory \<Rightarrow> nat \<Rightarrow> nat \<Rightarrow> nat"
    and starts :: "'t \<Rightarrow> 8 word \<Rightarrow> bool"
    and ok :: "'t \<Rightarrow> bool"
  assumes search_first_hit: "ok t \<Longrightarrow> first_hit (starts t) mem b (b + len) (search t mem b len)"
begin

lemma search_bounds: "ok t \<Longrightarrow> b \<le> search t mem b len \<and> search t mem b len \<le> b + len"
  using search_first_hit[of t mem b len] by (simp add: first_hit_def)

lemma skipped: "ok t \<Longrightarrow> b \<le> p \<Longrightarrow> p < search t mem b len \<Longrightarrow> \<not> starts t (of_char (mem p))"
  using search_first_hit[of t mem b len] by (simp add: first_hit_def)

lemma exhausted:
  "ok t \<Longrightarrow> search t mem b len = b + len \<Longrightarrow> b \<le> p \<Longrightarrow> p < b + len \<Longrightarrow> \<not> starts t (of_char (mem p))"
  using search_first_hit[of t mem b len] by (simp add: first_hit_def)

end

lemma FindFirstPossibleCodeUnit_first_hit:
  assumes "0 < m_end_fpcu_table t" and "m_end_fpcu_table t \<le> 16"
  shows "first_hit (\<lambda>c. c \<in> set (m_compiled_cu_bitmap t)) mem b (b + len)
           (FindFirstPossibleCodeUnit_default t mem b len)"
proof (cases "m_end_fpcu_table t = 1")
  case True
  then show ?thesis using find_first_hit[OF True] by (simp add: FindFirstPossibleCodeUnit_default_def)
next
  case False
  then have "m_end_fpcu_table t > 1" using assms(1) by simp
  moreover have "m_compiled_cu_bitmap t \<noteq> []"
    using assms(1) by (auto simp: m_end_fpcu_table_def)
  ultimately have "m_end_fpcu_table t > 1" and "m_compiled_cu_bitmap t \<noteq> []" by simp_all
  then show ?thesis
    using find_first_of_first_hit[OF _ assms(2)] by (simp add: FindFirstPossibleCodeUnit_default_def)
qed

interpretation cu_filter: prefilter FindFirstPossibleCodeUnit_default "\<lambda>t c. c \<in> set (m_compiled_cu_bitmap t)"
    "\<lambda>t. 0 < m_end_fpcu_table t \<and> m_end_fpcu_table t \<le> 16"
  by unfold_locales (simp add: FindFirstPossibleCodeUnit_first_hit)

interpretation range_filter: prefilter find_first_in_ranges_sse4_2 "\<lambda>t. in_ranges (m_compiled_range_bitmap t)"
    "\<lambda>t. 0 < m_end_ranges_table t \<and> m_end_ranges_table t \<le> 16 \<and> even (m_end_ranges_table t)"
  by unfold_locales
     (auto intro!: find_first_in_ranges_first_hit simp: m_end_ranges_table_def)

lemma bitmap_tables:
  "let t = ConstructRangePairTable (ConstructCodeUnitTable bm t0) in
     set (m_compiled_cu_bitmap t) = bitmap_bytes bm \<and> sorted_wrt (<) (m_compiled_cu_bitmap t)
     \<and> {c. in_ranges (m_compiled_range_bitmap t) c} = bitmap_bytes bm
     \<and> m_end_fpcu_table t \<le> 256 \<and> m_end_ranges_table t \<le> 256 \<and> even (m_end_ranges_table t)"
proof -
  let ?t = "ConstructCodeUnitTable bm t0"
  have keep: "m_compiled_cu_bitmap (ConstructRangePairTable ?t) = m_compiled_cu_bitmap ?t"
    by (simp add: ConstructRangePairTable_def split: list.split)
  note r = range_table[OF code_unit_table_sorted, of bm t0]
  have "{c. in_ranges (m_compiled_range_bitmap (ConstructRangePairTable ?t)) c} = bitmap_bytes bm"
    using r(1) by (auto simp: code_unit_table_set)
  then show ?thesis
    using r(2,3) code_unit_table_length[of bm t0] code_unit_table_sorted[of bm t0]
    by (simp add: Let_def keep code_unit_table_set m_end_fpcu_table_def)
qed

subsection \<open>Properties\<close>

text \<open>
  Both tables built from the regex library's bit map describe exactly its set of bytes: the code
  unit table lists them in increasing order, the range table covers them and nothing else, and both
  fit their 256-byte arrays.
\<close>

theorem tables_from_bitmap:
  "let t = ConstructRangePairTable (ConstructCodeUnitTable bm t0) in
     set (m_compiled_cu_bitmap t) = bitmap_bytes bm \<and> sorted_wrt (<) (m_compiled_cu_bitmap t)
     \<and> {c. in_ranges (m_compiled_range_bitmap t) c} = bitmap_bytes bm
     \<and> m_end_fpcu_table t \<le> 256 \<and> m_end_ranges_table t \<le> 256 \<and> even (m_end_ranges_table t)"
  using bitmap_tables .

text \<open>
  With tables of at most 16 entries the vectorised searches return the first position whose byte
  is in the table (code units, single code unit, ranges), or the end when there is none, whatever
  bytes follow the searched range.
\<close>

theorem short_table_searches_first:
  "(0 < m_end_fpcu_table t \<and> m_end_fpcu_table t \<le> 16 \<longrightarrow>
      first_hit (\<lambda>c. c \<in> set (m_compiled_cu_bitmap t)) mem b (b + len)
        (FindFirstPossibleCodeUnit_default t mem b len))
   \<and> (0 < m_end_ranges_table t \<and> m_end_ranges_table t \<le> 16 \<and> even (m_end_ranges_table t) \<longrightarrow>
      first_hit (in_ranges (m_compiled_range_bitmap t)) mem b (b + len)
        (find_first_in_ranges_sse4_2 t mem b len))"
  using cu_filter.search_first_hit range_filter.search_first_hit by blast

theorem short_table_searches_first_witness:
  "FindFirstPossibleCodeUnit_default
     \<lparr>m_compiled_cu_bitmap = [0x61, 0x62], m_compiled_range_bitmap = []\<rparr>
     (\<lambda>p. if p = 50 then CHR ''b'' else CHR ''z'') 7 100 = 50"
proof -
  let ?t = "\<lparr>m_compiled_cu_bitmap = [0x61, 0x62], m_compiled_range_bitmap = []\<rparr> :: cu_tables"
  let ?mem = "\<lambda>p :: nat. if p = 50 then CHR ''b'' else CHR ''z''"
  have "first_hit (\<lambda>c. c \<in> {0x61, 0x62}) ?mem 7 107 (FindFirstPossibleCodeUnit_default ?t ?mem 7 100)"
    using short_table_searches_first[of ?t ?mem 7 100] by (simp add: m_end_fpcu_table_def)
  moreover have "of_char (CHR ''z'') = (0x7A :: 8 word)" "of_char (CHR ''b'') = (0x62 :: 8 word)"
    by (simp_all add: of_char_def)
  ultimately show ?thesis
    unfolding first_hit_def by (auto split: if_splits dest: spec[of _ 50])
qed

text \<open>
  With more than 16 code units the search still stops only at a byte of the table and never
  misses one altogether.
\<close>

theorem long_table_search_hits:
  "some_hit (\<lambda>c. c \<in> set (m_compiled_cu_bitmap t)) mem b (b + len) (find_first_of_sse4_2 t mem b len)"
  using find_first_of_some_hit .

lemma first_piece:
  assumes "16 < length table"
  obtains rest where "full_pieces table @ last_piece table = (take 16 table, 16) # rest"
proof -
  have "0 < length table div 16" using assms by linarith
  then have "[0..<length table div 16] = 0 # [1..<length table div 16]" by (simp add: upt_conv_Cons)
  then show thesis using that by (simp add: full_pieces_def)
qed

lemma any_of_first_piece: "16 < length table \<Longrightarrow> any_of (take 16 table, 16) c \<longleftrightarrow> c \<in> set (take 16 table)"
  by (auto simp: any_of_def in_set_conv_nth)

text \<open>
  C28. But with a table of more than 16 bytes it need not be the first one: the pieces of the table are tried one
  after the other on the same 16 bytes of the file, and when the first piece, the 16 smallest bytes, has a hit at
  offset \<open>i\<close>, the search returns \<open>i\<close>, although a byte before it is in the table as well.
\<close>

theorem long_table_search_skips:
  assumes "16 < m_end_fpcu_table t" and "i < 16" and "i < len"
    and "of_char (mem (b + i)) \<in> set (take 16 (m_compiled_cu_bitmap t))"
    and "\<forall>j < i. of_char (mem (b + j)) \<notin> set (take 16 (m_compiled_cu_bitmap t))"
    and "k < i" and "of_char (mem (b + k)) \<in> set (m_compiled_cu_bitmap t)"
  shows "FindFirstPossibleCodeUnit_default t mem b len = b + i
    \<and> \<not> first_hit (\<lambda>c. c \<in> set (m_compiled_cu_bitmap t)) mem b (b + len) (FindFirstPossibleCodeUnit_default t mem b len)"
proof -
  let ?table = "m_compiled_cu_bitmap t"
  let ?la = "if len - 0 > 16 then 16 else len - 0"
  have long: "16 < length ?table" using assms(1) by (simp add: m_end_fpcu_table_def)
  obtain rest where pieces: "full_pieces ?table @ last_piece ?table = (take 16 ?table, 16) # rest"
    by (rule first_piece[OF long])
  define c where "c = cmpestri_equal_any (take 16 ?table) 16 (bytes16 mem (b + 0)) ?la"
  have la: "?la \<le> 16" "i < ?la" using assms(2,3) by simp_all
  note r = compare_result[OF compares_any la(1), where a = "take 16 ?table" and la = 16 and mem = mem and p = "b + 0", folded c_def]
  have hit: "any_of (take 16 ?table, 16) (of_char (mem (b + 0 + i)))"
    using assms(4) any_of_first_piece[OF long] by simp
  have "c \<le> i" using r(2)[OF la(2)] hit by (metis linorder_not_le)
  then have "c < 16" using assms(2) by simp
  from r(1)[OF this] have "of_char (mem (b + c)) \<in> set (take 16 ?table)" using any_of_first_piece[OF long] by simp
  with assms(5) \<open>c \<le> i\<close> have ci: "c = i" by (metis le_neq_implies_less)
  have "table_search cmpestri_equal_any ?table mem b len 0 = min (b + 0 + c) (b + len)"
    using assms(3) \<open>c < 16\<close> by (subst table_search.simps) (simp add: pieces Let_def c_def)
  then have res: "FindFirstPossibleCodeUnit_default t mem b len = b + i"
    using assms(1,3) ci by (simp add: FindFirstPossibleCodeUnit_default_def find_first_of_sse4_2_def)
  have "\<not> first_hit (\<lambda>c. c \<in> set ?table) mem b (b + len) (b + i)"
    using assms(6,7) by (auto simp: first_hit_def)
  with res show ?thesis by simp
qed

text \<open>
  The odd bytes 1, 3, ..., 33 as possible first bytes: 17 of them, fewer than the entries of the range table, so the
  code unit table is the one used. The search of the two bytes 33, 1 returns the second.
\<close>

definition odd_bitmap :: "8 word list" where
  "odd_bitmap = [0xAA, 0xAA, 0xAA, 0xAA, 0x02] @ replicate 27 0"

definition two_bytes :: memory where
  "two_bytes p = (if p = 0 then CHR 0x21 else if p = 1 then CHR 0x01 else NUL)"

definition no_tables :: cu_tables where
  "no_tables = \<lparr>m_compiled_cu_bitmap = [], m_compiled_range_bitmap = []\<rparr>"

lemma long_table_search_skips_witness:
  "let t = ConstructRangePairTable (ConstructCodeUnitTable odd_bitmap no_tables) in
     m_end_fpcu_table t < m_end_ranges_table t \<and> FindFirstPossibleCodeUnit_default t two_bytes 0 2 = 1"
proof -
  let ?t = "ConstructRangePairTable (ConstructCodeUnitTable odd_bitmap no_tables)"
  have l: "m_compiled_cu_bitmap ?t = [1, 3, 5, 7, 9, 11, 13, 15, 17, 19, 21, 23, 25, 27, 29, 31, 33] \<and> m_end_ranges_table ?t = 34"
    by code_simp
  have t: "16 < m_end_fpcu_table ?t" "m_end_fpcu_table ?t < m_end_ranges_table ?t"
    "of_char (two_bytes (0 + 1)) \<in> set (take 16 (m_compiled_cu_bitmap ?t))"
    "of_char (two_bytes (0 + 0)) \<notin> set (take 16 (m_compiled_cu_bitmap ?t))"
    "of_char (two_bytes (0 + 0)) \<in> set (m_compiled_cu_bitmap ?t)"
    by (simp_all add: l m_end_fpcu_table_def two_bytes_def of_char_def)
  have "\<forall>j < 1. of_char (two_bytes (0 + j)) \<notin> set (take 16 (m_compiled_cu_bitmap ?t))" using t(4) by simp
  from long_table_search_skips[OF t(1) _ _ t(3) this _ t(5), of 2] t(2) show ?thesis by (simp add: Let_def)
qed

end
