(* ===== verification/LiteralSearch.thy ===== *)
theory LiteralSearch
  imports CodeUnits
begin

unbundle bit_operations_syntax

text \<open>
  Searching for a literal string: \<open>memmem_short_pattern\<close> of \<open>src/libext/memory.hpp\<close> (patterns of 1 to
  16 bytes, 16 bytes of text at a time with \<open>PCMPESTRI\<close> in equal-ordered mode), the \<open>LiteralMatch\<close>
  functions of the scanner that use it or \<open>memmem\<close>, and the analysis of a regex that decides when a
  literal or a literal prefix can be searched for. The vector search reads past the end of the text;
  the buffers it runs on come from \<open>overaligned_alloc\<close> and \<open>ResizableArray\<close> (\<open>src/ResizableArray.h\<close>),
  which keep 128 spare bytes at the end and zero them.
\<close>

subsection \<open>Occurrences in memory\<close>

definition mem_occurs :: "memory \<Rightarrow> nat \<Rightarrow> string \<Rightarrow> bool" where
  "mem_occurs mem a pat \<longleftrightarrow> (\<forall>k < length pat. mem (a + k) = pat ! k)"

text \<open>\<open>memmem\<close> of the C library: the first occurrence inside the \<open>n\<close> bytes at \<open>p\<close>.\<close>

definition mem_mem :: "memory \<Rightarrow> nat \<Rightarrow> nat \<Rightarrow> string \<Rightarrow> nat option" where
  "mem_mem mem p n pat =
     (if length pat > n then None
      else (let k = find_if (\<lambda>a. mem_occurs mem a pat) [p..<p + (n - length pat) + 1]
            in if k = n - length pat + 1 then None else Some (p + k)))"

text \<open>What a substring search promises.\<close>

definition first_occurrence :: "memory \<Rightarrow> nat \<Rightarrow> nat \<Rightarrow> string \<Rightarrow> nat option \<Rightarrow> bool" where
  "first_occurrence mem p n pat r \<longleftrightarrow>
     (case r of
        None \<Rightarrow> \<forall>a. p \<le> a \<and> a + length pat \<le> p + n \<longrightarrow> \<not> mem_occurs mem a pat
      | Some q \<Rightarrow> p \<le> q \<and> q + length pat \<le> p + n \<and> mem_occurs mem q pat
                  \<and> (\<forall>a. p \<le> a \<and> a < q \<longrightarrow> \<not> mem_occurs mem a pat))"

subsection \<open>The vectorised search\<close>

text \<open>
  \<open>_mm_cmpestri\<close> in equal-ordered mode: lane \<open>i\<close> is set when the pattern matches from there up to the
  end of the vector; a valid pattern byte against an invalid text byte is false, beyond the pattern
  everything is true.
\<close>

definition cmpestri_equal_ordered :: "string \<Rightarrow> nat \<Rightarrow> char list \<Rightarrow> nat \<Rightarrow> nat" where
  "cmpestri_equal_ordered a la b lb =
     find_if (\<lambda>i. \<forall>j < la. i + j < 16 \<longrightarrow> i + j < lb \<and> a ! j = b ! (i + j)) [0..<16]"

datatype search_loop_result = Found nat | Exhausted nat

text \<open>
  The nested \<open>while\<close>/\<open>for\<close> loops: both test \<open>p1 < limit\<close>, so breaking out of the inner one after a
  partial match is continuing with the adjusted pointer. For patterns longer than the code allows it
  might not advance, hence the option.
\<close>

partial_function (option) short_pattern_loop ::
    "memory \<Rightarrow> string \<Rightarrow> nat \<Rightarrow> nat \<Rightarrow> search_loop_result option" where
  "short_pattern_loop mem pat limit p1 =
     (if p1 < limit
      then (let frag1 = load16 mem p1;
                match_bytemask = mm_cmpeq_epi8 frag1 (mm_set1_epi8 (pat ! 0))
            in if \<not> list_ex id match_bytemask then short_pattern_loop mem pat limit (p1 + 16)
               else (let fsb = cmpestri_equal_ordered pat (length pat) frag1 16
                     in if fsb < 16
                        then (if fsb + length pat \<le> 16 then Some (Found (p1 + fsb))
                              else short_pattern_loop mem pat limit (p1 + fsb))
                        else short_pattern_loop mem pat limit (p1 + 16)))
      else Some (Exhausted p1))"

definition memmem_short_pattern :: "memory \<Rightarrow> nat \<Rightarrow> nat \<Rightarrow> string \<Rightarrow> nat option option" where
  "memmem_short_pattern mem mem_to_search memlen pat =
     (if length pat > memlen \<or> memlen = 0 \<or> length pat = 0 then Some None
      else (case short_pattern_loop mem pat (mem_to_search + (memlen - memlen mod 16)) mem_to_search of
              None \<Rightarrow> None
            | Some (Found q) \<Rightarrow> Some (Some q)
            | Some (Exhausted p1) \<Rightarrow>
                Some (if p1 < mem_to_search + memlen
                      then (let remaining_len = memlen + mem_to_search - p1
                            in if length pat > remaining_len then None
                               else (let last_match =
                                           cmpestri_equal_ordered pat (length pat) (load16 mem p1) remaining_len
                                     in if last_match \<noteq> 16 then Some (p1 + last_match) else None))
                      else None)))"

subsection \<open>LiteralMatch\<close>

text \<open>Return code and offset vector, as the regex library would report them.\<close>

definition literal_result :: "nat \<Rightarrow> nat \<Rightarrow> nat \<Rightarrow> nat option \<Rightarrow> int \<times> nat \<times> nat" where
  "literal_result file_data file_size len str_match =
     (case str_match of
        None \<Rightarrow> (-1, file_size, file_size)
      | Some q \<Rightarrow> (1, q - file_data, q - file_data + len))"

definition LiteralMatch_default :: "memory \<Rightarrow> string \<Rightarrow> nat \<Rightarrow> nat \<Rightarrow> nat \<Rightarrow> int \<times> nat \<times> nat" where
  "LiteralMatch_default mem pat file_data file_size start_offset =
     literal_result file_data file_size (length pat)
       (mem_mem mem (file_data + start_offset) (file_size - start_offset) pat)"

definition LiteralMatch_sse4_2 :: "memory \<Rightarrow> string \<Rightarrow> nat \<Rightarrow> nat \<Rightarrow> nat \<Rightarrow> (int \<times> nat \<times> nat) option" where
  "LiteralMatch_sse4_2 mem pat file_data file_size start_offset =
     (let bytes_to_search = file_size - start_offset
      in if length pat \<le> 16 \<and> length pat \<ge> 1
         then map_option (literal_result file_data file_size (length pat))
                (memmem_short_pattern mem (file_data + start_offset) bytes_to_search pat)
         else Some (literal_result file_data file_size (length pat)
                (mem_mem mem (file_data + start_offset) bytes_to_search pat)))"

definition resolve_LiteralMatch ::
    "bool \<Rightarrow> memory \<Rightarrow> string \<Rightarrow> nat \<Rightarrow> nat \<Rightarrow> nat \<Rightarrow> (int \<times> nat \<times> nat) option" where
  "resolve_LiteralMatch has_sse4_2 mem pat fd fsize start =
     (if has_sse4_2 then LiteralMatch_sse4_2 mem pat fd fsize start
      else Some (LiteralMatch_default mem pat fd fsize start))"

subsection \<open>Regex analysis\<close>

definition metachars :: string where
  "metachars = [CHR 0x5C] @ ''^$.[]()?*+{}|''"

definition IsPatternLiteral :: "string \<Rightarrow> bool" where
  "IsPatternLiteral regex \<longleftrightarrow> find_if (\<lambda>c. c \<in> set metachars) regex = length regex"

definition GetLiteralPrefixLen :: "string \<Rightarrow> nat" where
  "GetLiteralPrefixLen regex =
     (if CHR ''|'' \<in> set regex then 1
      else
        (let first_metachar_pos = find_if (\<lambda>c. c \<in> set ([CHR 0x5C] @ ''^$.[]()?*+{}'')) regex
         in if first_metachar_pos = length regex then 1
            else (let pos = (if first_metachar_pos > 1 \<and> regex ! first_metachar_pos \<in> set ''?*{''
                             then first_metachar_pos - 1 else first_metachar_pos)
                  in min pos 255)))"

subsection \<open>Buffers\<close>

text \<open>
  \<open>overaligned_alloc\<close>: the size it asks \<open>aligned_alloc\<close> for; \<open>None\<close> stands for \<open>std::bad_alloc\<close>.
\<close>

definition overaligned_alloc_size :: "64 word \<Rightarrow> 64 word \<Rightarrow> 64 word option" where
  "overaligned_alloc_size needed_alignment needed_size =
     (if \<not> is_power_of_2 needed_alignment \<or> needed_alignment < 8 then None
      else Some ((needed_size + 128 + needed_alignment)
                 - ((needed_size + 128) AND (needed_alignment - 1))))"

text \<open>
  \<open>ResizableArray\<close>: the buffer (its address), what it was last allocated for, and the memory it
  lives in. \<open>capacity\<close> is not a member of the class: it records how many bytes the allocator was
  asked for. \<open>aligned_alloc\<close> is the parameter \<open>alloc\<close>.
\<close>

record resizable_array =
  m_current_buffer :: "nat option"
  m_current_buffer_size :: nat
  m_current_buffer_alignment :: nat
  capacity :: nat

definition ResizableArray_init :: resizable_array where
  "ResizableArray_init =
     \<lparr> m_current_buffer = None, m_current_buffer_size = 0, m_current_buffer_alignment = 0, capacity = 0 \<rparr>"

definition mem_set :: "nat \<Rightarrow> char \<Rightarrow> nat \<Rightarrow> memory \<Rightarrow> memory" where
  "mem_set p c n mem = (\<lambda>a. if p \<le> a \<and> a < p + n then c else mem a)"

text \<open>
  \<open>1U << count_trailing_zeros(p)\<close>, the alignment the block happens to have. The shift is one of 32 bits: C++ does not
  define it for a count from 32 on, x86 takes the count modulo 32. (The builtin is not defined for 0.)
\<close>

fun count_trailing_zeros :: "nat \<Rightarrow> nat" where
  "count_trailing_zeros x = (if x = 0 \<or> odd x then 0 else Suc (count_trailing_zeros (x div 2)))"

declare count_trailing_zeros.simps [simp del]

definition address_alignment :: "nat \<Rightarrow> nat" where
  "address_alignment p = 2 ^ (count_trailing_zeros p mod 32)"

definition ResizableArray_realloc ::
    "(nat \<Rightarrow> nat \<Rightarrow> nat option) \<Rightarrow> nat \<Rightarrow> nat \<Rightarrow> resizable_array \<Rightarrow> memory \<Rightarrow>
     (nat \<times> resizable_array \<times> memory) option" where
  "ResizableArray_realloc alloc needed_size needed_alignment ra mem =
     (let ra1 =
        (case m_current_buffer ra of
           Some b \<Rightarrow>
             if m_current_buffer_size ra < needed_size \<or> m_current_buffer_alignment ra < needed_alignment
             then None else Some ra
         | None \<Rightarrow> None)
      in case (case ra1 of
                 Some r \<Rightarrow> Some r
               | None \<Rightarrow>
                   (case overaligned_alloc_size (of_nat needed_alignment) (of_nat needed_size) of
                      None \<Rightarrow> None
                    | Some n \<Rightarrow>
                        (case alloc needed_alignment (unat n) of
                           None \<Rightarrow> None
                         | Some p \<Rightarrow>
                             Some \<lparr> m_current_buffer = Some p, m_current_buffer_size = needed_size,
                                    m_current_buffer_alignment = address_alignment p,
                                    capacity = unat n \<rparr>))) of
           None \<Rightarrow> None
         | Some r \<Rightarrow>
             (case m_current_buffer r of
                None \<Rightarrow> None
              | Some b \<Rightarrow> Some (b, r, mem_set (b + needed_size) NUL 128 mem)))"

subsection \<open>Correctness of the searches\<close>

lemma mem_mem_first: "first_occurrence mem p n pat (mem_mem mem p n pat)"
proof (cases "length pat > n")
  case True
  then show ?thesis by (auto simp: mem_mem_def first_occurrence_def)
next
  case False
  let ?l = "[p..<p + (n - length pat) + 1]"
  define k where "k = find_if (\<lambda>a. mem_occurs mem a pat) ?l"
  have len: "length ?l = n - length pat + 1" by simp
  have nth: "?l ! i = p + i" if "i < n - length pat + 1" for i
    using that by (simp add: nth_upt del: upt_Suc)
  have kl: "k \<le> n - length pat + 1"
    using find_if_le[of "\<lambda>a. mem_occurs mem a pat" ?l] len by (simp only: k_def)
  have miss: "\<not> mem_occurs mem a pat" if "p \<le> a" "a < p + k" for a
  proof -
    have "a - p < k" using that by simp
    then have "\<not> mem_occurs mem (?l ! (a - p)) pat" unfolding k_def by (rule find_if_miss)
    moreover have "a - p < n - length pat + 1" using \<open>a - p < k\<close> kl by simp
    ultimately show ?thesis using nth that by simp
  qed
  have res: "mem_mem mem p n pat = (if k = n - length pat + 1 then None else Some (p + k))"
    using False by (simp only: mem_mem_def Let_def k_def if_False)
  show ?thesis
  proof (cases "k = n - length pat + 1")
    case True
    have "\<not> mem_occurs mem a pat" if "p \<le> a" "a + length pat \<le> p + n" for a
      using miss[of a] that True False by simp
    then show ?thesis by (simp add: res True first_occurrence_def)
  next
    case neq: False
    then have "k < length ?l" using kl len by linarith
    then have "mem_occurs mem (?l ! k) pat" unfolding k_def by (rule find_if_hit)
    then have "mem_occurs mem (p + k) pat" using nth neq kl by simp
    then show ?thesis using miss neq kl False by (auto simp: res first_occurrence_def)
  qed
qed

text \<open>The interface both substring searches offer to the scanner.\<close>

locale substring_search =
  fixes search :: "memory \<Rightarrow> nat \<Rightarrow> nat \<Rightarrow> string \<Rightarrow> nat option option"
    and ok :: "memory \<Rightarrow> nat \<Rightarrow> nat \<Rightarrow> string \<Rightarrow> bool"
  assumes finds_first: "ok mem p n pat \<Longrightarrow> \<exists>r. search mem p n pat = Some r \<and> first_occurrence mem p n pat r"
begin

text \<open>The offset vector built from the result of the search.\<close>

lemma literal_match_spec:
  assumes "ok mem (fd + start) (fsize - start) pat" and "start \<le> fsize"
  shows "\<exists>rc s e. map_option (literal_result fd fsize (length pat)) (search mem (fd + start) (fsize - start) pat)
           = Some (rc, s, e)
     \<and> (if rc = 1 then start \<le> s \<and> e = s + length pat \<and> e \<le> fsize \<and> mem_occurs mem (fd + s) pat
            \<and> (\<forall>a. start \<le> a \<and> a < s \<longrightarrow> \<not> mem_occurs mem (fd + a) pat)
        else rc = -1 \<and> s = fsize \<and> e = fsize
            \<and> (\<forall>a. start \<le> a \<and> a + length pat \<le> fsize \<longrightarrow> \<not> mem_occurs mem (fd + a) pat))"
proof -
  obtain r where r: "search mem (fd + start) (fsize - start) pat = Some r"
      "first_occurrence mem (fd + start) (fsize - start) pat r"
    using finds_first[OF assms(1)] by blast
  show ?thesis
  proof (cases r)
    case None
    have "\<not> mem_occurs mem (fd + a) pat" if "start \<le> a" "a + length pat \<le> fsize" for a
      using r(2) that assms(2) by (simp add: None first_occurrence_def)
    then show ?thesis by (simp add: r(1) None literal_result_def)
  next
    case (Some q)
    then have q: "fd + start \<le> q" "q + length pat \<le> fd + start + (fsize - start)" "mem_occurs mem q pat"
        "\<And>a. fd + start \<le> a \<Longrightarrow> a < q \<Longrightarrow> \<not> mem_occurs mem a pat"
      using r(2) by (auto simp: first_occurrence_def)
    have "\<not> mem_occurs mem (fd + a) pat" if "start \<le> a" "a < q - fd" for a
      using q(4)[of "fd + a"] that by simp
    moreover have "start \<le> q - fd" and "fd + (q - fd) = q" and "q - fd + length pat \<le> fsize"
      using q(1,2) assms(2) by auto
    ultimately show ?thesis using q(3) by (simp add: r(1) Some literal_result_def)
  qed
qed

end

interpretation libc_search: substring_search "\<lambda>mem p n pat. Some (mem_mem mem p n pat)" "\<lambda>_ _ _ _. True"
  by unfold_locales (simp add: mem_mem_first)

text \<open>The text is followed by 16 zero bytes, and the pattern contains none.\<close>

definition padded :: "memory \<Rightarrow> nat \<Rightarrow> bool" where
  "padded mem text_end \<longleftrightarrow> (\<forall>a. text_end \<le> a \<and> a < text_end + 16 \<longrightarrow> mem a = NUL)"

definition short_ok :: "memory \<Rightarrow> nat \<Rightarrow> nat \<Rightarrow> string \<Rightarrow> bool" where
  "short_ok mem p n pat \<longleftrightarrow> 1 \<le> length pat \<and> length pat \<le> 16 \<and> NUL \<notin> set pat \<and> padded mem (p + n)"

lemma load16_nth [simp]: "i < 16 \<Longrightarrow> load16 mem p ! i = mem (p + i)"
  by (simp add: load16_def)

lemma equal_ordered_result:
  fixes mem :: memory and p lb :: nat and pat :: string
  defines "k \<equiv> cmpestri_equal_ordered pat (length pat) (load16 mem p) lb"
  assumes "lb \<le> 16"
  shows "k \<le> 16"
    and "k < 16 \<Longrightarrow> j < length pat \<Longrightarrow> k + j < 16 \<Longrightarrow> k + j < lb \<and> mem (p + k + j) = pat ! j"
    and "i < k \<Longrightarrow> i + length pat \<le> lb \<Longrightarrow> \<not> mem_occurs mem (p + i) pat"
    and "i < k \<Longrightarrow> lb = 16 \<Longrightarrow> \<not> mem_occurs mem (p + i) pat"
proof -
  let ?Q = "\<lambda>i. \<forall>j < length pat. i + j < 16 \<longrightarrow> i + j < lb \<and> pat ! j = load16 mem p ! (i + j)"
  note u = find_if_upt[where Q = ?Q and n = 16]
  have k: "k = find_if ?Q [0..<16]" by (simp add: k_def cmpestri_equal_ordered_def)
  show "k \<le> 16" unfolding k by (rule u(1))
  show "k + j < lb \<and> mem (p + k + j) = pat ! j" if "k < 16" "j < length pat" "k + j < 16"
  proof -
    have "?Q k" using u(2) that(1) by (simp add: k)
    with that have "k + j < lb" and "pat ! j = load16 mem p ! (k + j)" by blast+
    with that(3) show ?thesis by (simp add: add.assoc)
  qed
  have occ: "mem_occurs mem (p + i) pat \<Longrightarrow> i + j < 16 \<Longrightarrow> j < length pat \<Longrightarrow> pat ! j = load16 mem p ! (i + j)"
    for i j by (simp add: mem_occurs_def add.assoc)
  show "\<not> mem_occurs mem (p + i) pat" if "i < k" "i + length pat \<le> lb" for i
  proof
    assume "mem_occurs mem (p + i) pat"
    then have "?Q i" using occ that(2) by (metis add_less_cancel_left order.strict_trans2)
    moreover have "\<not> ?Q i" using that(1) unfolding k by (rule u(3))
    ultimately show False by blast
  qed
  show "\<not> mem_occurs mem (p + i) pat" if "i < k" "lb = 16" for i
  proof
    assume "mem_occurs mem (p + i) pat"
    then have "?Q i" using occ that(2) by blast
    moreover have "\<not> ?Q i" using that(1) unfolding k by (rule u(3))
    ultimately show False by blast
  qed
qed

lemma first_byte_absent:
  assumes "\<not> list_ex id (mm_cmpeq_epi8 (load16 mem p) (mm_set1_epi8 (pat ! 0)))"
    and "pat \<noteq> []" and "i < 16"
  shows "\<not> mem_occurs mem (p + i) pat"
proof
  assume "mem_occurs mem (p + i) pat"
  then have "mem (p + i) = pat ! 0" using assms(2) by (auto simp: mem_occurs_def dest: spec[of _ 0])
  then have "list_ex id (mm_cmpeq_epi8 (load16 mem p) (mm_set1_epi8 (pat ! 0)))"
    using assms(3) by (auto simp: list_ex_length mm_cmpeq_epi8_def mm_set1_epi8_def load16_def intro!: exI[of _ i])
  with assms(1) show False by simp
qed

text \<open>The loop ends, and what it has passed contains no occurrence.\<close>

lemma short_pattern_loop_result:
  assumes "1 \<le> length pat" and "length pat \<le> 16"
    and "\<forall>a. m \<le> a \<and> a < p1 \<longrightarrow> \<not> mem_occurs mem a pat" and "m \<le> p1"
  shows "\<exists>r. short_pattern_loop mem pat limit p1 = Some r \<and>
     (case r of
        Found q \<Rightarrow> m \<le> q \<and> q + length pat \<le> limit + 15 \<and> mem_occurs mem q pat
                   \<and> (\<forall>a. m \<le> a \<and> a < q \<longrightarrow> \<not> mem_occurs mem a pat)
      | Exhausted p \<Rightarrow> m \<le> p \<and> limit \<le> p \<and> (\<forall>a. m \<le> a \<and> a < p \<longrightarrow> \<not> mem_occurs mem a pat))"
  using assms(3,4)
proof (induction "limit - p1" arbitrary: p1 rule: less_induct)
  case less
  show ?case
  proof (cases "p1 < limit")
    case False
    then show ?thesis using less.prems by (subst short_pattern_loop.simps) simp
  next
    case True
    let ?eq = "mm_cmpeq_epi8 (load16 mem p1) (mm_set1_epi8 (pat ! 0))"
    define fsb where "fsb = cmpestri_equal_ordered pat (length pat) (load16 mem p1) 16"
    note w = equal_ordered_result[where lb = 16 and pat = pat and mem = mem and p = p1, folded fsb_def]
    have skip: "\<forall>a. m \<le> a \<and> a < p1 + n \<longrightarrow> \<not> mem_occurs mem a pat"
      if "\<And>i. i < n \<Longrightarrow> \<not> mem_occurs mem (p1 + i) pat" for n
    proof (intro allI impI)
      fix a assume a: "m \<le> a \<and> a < p1 + n"
      show "\<not> mem_occurs mem a pat"
      proof (cases "a < p1")
        case False
        then have "a - p1 < n" and "p1 + (a - p1) = a" using a by auto
        then show ?thesis using that[of "a - p1"] by simp
      qed (use less.prems a in simp)
    qed
    consider (absent) "\<not> list_ex id ?eq" | (none) "list_ex id ?eq" "\<not> fsb < 16"
      | (full) "list_ex id ?eq" "fsb < 16" "fsb + length pat \<le> 16"
      | (partial) "list_ex id ?eq" "fsb < 16" "\<not> fsb + length pat \<le> 16" by blast
    then show ?thesis
    proof cases
      case absent
      have "short_pattern_loop mem pat limit p1 = short_pattern_loop mem pat limit (p1 + 16)"
        using True absent by (subst short_pattern_loop.simps) (simp add: Let_def)
      moreover have "\<not> mem_occurs mem (p1 + i) pat" if "i < 16" for i
      proof -
        have "pat \<noteq> []" using assms(1) by auto
        then show ?thesis using first_byte_absent[OF absent _ that] by blast
      qed
      ultimately show ?thesis using less.hyps[of "p1 + 16", OF _ skip] True less.prems by simp
    next
      case none
      have "short_pattern_loop mem pat limit p1 = short_pattern_loop mem pat limit (p1 + 16)"
        using True none by (subst short_pattern_loop.simps) (simp add: Let_def fsb_def)
      moreover have "\<not> mem_occurs mem (p1 + i) pat" if "i < 16" for i
        using w(4)[of i] none that by simp
      ultimately show ?thesis using less.hyps[of "p1 + 16", OF _ skip] True less.prems by simp
    next
      case full
      have "short_pattern_loop mem pat limit p1 = Some (Found (p1 + fsb))"
        using True full by (subst short_pattern_loop.simps) (simp add: Let_def fsb_def)
      moreover have "mem_occurs mem (p1 + fsb) pat"
        using w(2) full by (simp add: mem_occurs_def)
      moreover have "\<forall>a. m \<le> a \<and> a < p1 + fsb \<longrightarrow> \<not> mem_occurs mem a pat"
        using w(4) by (intro skip) simp
      ultimately show ?thesis using full True less.prems by simp
    next
      case partial
      then have "0 < fsb" using assms(2) by (cases fsb) auto
      have "short_pattern_loop mem pat limit p1 = short_pattern_loop mem pat limit (p1 + fsb)"
        using True partial by (subst short_pattern_loop.simps) (simp add: Let_def fsb_def)
      moreover have "\<forall>a. m \<le> a \<and> a < p1 + fsb \<longrightarrow> \<not> mem_occurs mem a pat"
        using w(4) by (intro skip) simp
      ultimately show ?thesis using less.hyps[of "p1 + fsb"] \<open>0 < fsb\<close> True less.prems by simp
    qed
  qed
qed

lemma memmem_short_pattern_first:
  assumes "short_ok mem p n pat"
  shows "\<exists>r. memmem_short_pattern mem p n pat = Some r \<and> first_occurrence mem p n pat r"
proof -
  have len: "1 \<le> length pat" "length pat \<le> 16" and nonul: "NUL \<notin> set pat" and pad: "padded mem (p + n)"
    using assms by (simp_all add: short_ok_def)
  show ?thesis
  proof (cases "length pat > n \<or> n = 0")
    case True
    then show ?thesis using len
      by (intro exI[of _ None]) (auto simp: memmem_short_pattern_def first_occurrence_def)
  next
    case False
    define limit where "limit = p + (n - n mod 16)"
    have lim: "limit \<le> p + n" "p + n - limit < 16" by (simp_all add: limit_def)
    text \<open>An occurrence that starts in the text cannot run into the padding.\<close>
    have inside: "q + length pat \<le> p + n" if "mem_occurs mem q pat" "q + length pat \<le> p + n + 16" for q
    proof (rule ccontr)
      assume "\<not> q + length pat \<le> p + n"
      then have a: "p + n \<le> q + (length pat - 1)" "q + (length pat - 1) < p + n + 16"
        using len that(2) by simp_all
      have "length pat - 1 < length pat" using len(1) by simp
      then have "mem (q + (length pat - 1)) = pat ! (length pat - 1)"
        using that(1) unfolding mem_occurs_def by blast
      moreover have "pat ! (length pat - 1) \<in> set pat" using len(1) by (intro nth_mem) simp
      moreover have "mem (q + (length pat - 1)) = NUL" using pad a by (simp add: padded_def)
      ultimately show False using nonul by simp
    qed
    have start: "\<forall>a. p \<le> a \<and> a < p \<longrightarrow> \<not> mem_occurs mem a pat" by auto
    from short_pattern_loop_result[OF len start, of limit] obtain r where
      r: "short_pattern_loop mem pat limit p = Some r"
        "case r of Found q \<Rightarrow> p \<le> q \<and> q + length pat \<le> limit + 15 \<and> mem_occurs mem q pat
            \<and> (\<forall>a. p \<le> a \<and> a < q \<longrightarrow> \<not> mem_occurs mem a pat)
          | Exhausted x \<Rightarrow> p \<le> x \<and> limit \<le> x \<and> (\<forall>a. p \<le> a \<and> a < x \<longrightarrow> \<not> mem_occurs mem a pat)"
      by auto
    show ?thesis
    proof (cases r)
      case (Found q)
      then have "memmem_short_pattern mem p n pat = Some (Some q)"
        using False len r(1) by (auto simp: memmem_short_pattern_def limit_def)
      moreover have "q + length pat \<le> p + n"
        using inside[of q] r(2) lim(1) by (simp add: Found)
      ultimately show ?thesis using r(2) by (simp add: Found first_occurrence_def)
    next
      case (Exhausted x)
      define rem where "rem = n + p - x"
      define m where "m = cmpestri_equal_ordered pat (length pat) (load16 mem x) rem"
      have x: "p \<le> x" "limit \<le> x" "\<And>a. p \<le> a \<Longrightarrow> a < x \<Longrightarrow> \<not> mem_occurs mem a pat"
        using r(2) by (auto simp: Exhausted)
      have rem: "rem < 16" using lim x(2) by (simp add: rem_def)
      note w = equal_ordered_result[where lb = rem and pat = pat and mem = mem and p = x, folded m_def]
      have res: "memmem_short_pattern mem p n pat =
          Some (if x < p + n then (if length pat > rem then None else if m \<noteq> 16 then Some (x + m) else None)
                else None)"
        using False len r(1) by (auto simp: memmem_short_pattern_def limit_def Exhausted rem_def m_def Let_def)
      show ?thesis
      proof (cases "x < p + n \<and> length pat \<le> rem \<and> m \<noteq> 16")
        case True
        then have m16: "m < 16" using w(1) rem by simp
        have fits: "m + length pat \<le> 16"
        proof (rule ccontr)
          assume "\<not> m + length pat \<le> 16"
          then have "15 - m < length pat" "m + (15 - m) < 16" using m16 by simp_all
          then have "m + (15 - m) < rem" using w(2)[OF less_imp_le[OF rem] m16, of "15 - m"] by blast
          with m16 rem show False by simp
        qed
        have "m + (length pat - 1) < rem"
          using w(2)[OF _ m16, of "length pat - 1"] rem len fits by simp
        then have end_in: "x + m + length pat \<le> p + n" using True by (auto simp: rem_def)
        have "mem_occurs mem (x + m) pat"
          using w(2)[OF _ m16] rem fits by (simp add: mem_occurs_def)
        moreover have "\<not> mem_occurs mem a pat" if "p \<le> a" "a < x + m" for a
        proof (cases "a < x")
          case False
          then have "a - x < m" "a - x + length pat \<le> rem"
            using that end_in by (auto simp: rem_def)
          then show ?thesis using w(3)[of "a - x"] rem False by simp
        qed (use x(3) that in blast)
        ultimately show ?thesis using True end_in x(1) by (simp add: res first_occurrence_def)
      next
        case False
        have "\<not> mem_occurs mem a pat" if "p \<le> a" "a + length pat \<le> p + n" for a
        proof (cases "a < x")
          case ge: False
          then have "x < p + n" "length pat \<le> rem" using that len by (auto simp: rem_def)
          then have "m = 16" using False by simp
          have "a - x < 16" "a - x + length pat \<le> rem" using that ge rem len by (auto simp: rem_def)
          then show ?thesis using w(3)[of "a - x"] \<open>m = 16\<close> rem ge by simp
        qed (use x(3) that in blast)
        moreover have "memmem_short_pattern mem p n pat = Some None"
          using False by (auto simp: res)
        ultimately show ?thesis by (simp add: first_occurrence_def)
      qed
    qed
  qed
qed

interpretation short_search: substring_search memmem_short_pattern short_ok
  by unfold_locales (rule memmem_short_pattern_first)

lemma first_occurrence_unique:
  "first_occurrence mem p n pat r \<Longrightarrow> first_occurrence mem p n pat r' \<Longrightarrow> r = r'"
  by (auto simp: first_occurrence_def split: option.splits) (metis linorder_neqE_nat)

lemma LiteralMatch_versions:
  assumes "pat \<noteq> []" and "NUL \<notin> set pat" and "start \<le> fsize" and "padded mem (fd + fsize)"
  shows "resolve_LiteralMatch has_sse4_2 mem pat fd fsize start =
           Some (LiteralMatch_default mem pat fd fsize start)"
proof (cases "has_sse4_2 \<and> length pat \<le> 16")
  case True
  have l: "1 \<le> length pat" using assms(1) by (cases pat) auto
  have "short_ok mem (fd + start) (fsize - start) pat"
    using True l assms by (simp add: short_ok_def)
  then have "memmem_short_pattern mem (fd + start) (fsize - start) pat =
      Some (mem_mem mem (fd + start) (fsize - start) pat)"
    using memmem_short_pattern_first mem_mem_first first_occurrence_unique by metis
  then show ?thesis
    using True l by (simp add: resolve_LiteralMatch_def LiteralMatch_sse4_2_def LiteralMatch_default_def)
next
  case False
  then show ?thesis
    by (auto simp: resolve_LiteralMatch_def LiteralMatch_sse4_2_def LiteralMatch_default_def)
qed

subsection \<open>Buffers hold their padding\<close>

lemma and_power_minus_1:
  fixes x :: "64 word"
  assumes "n < 64"
  shows "unat (x AND (push_bit n 1 - 1)) = unat x mod 2 ^ n"
proof -
  have "(push_bit n 1 - 1 :: 64 word) = mask n" by (simp add: mask_eq_exp_minus_1 push_bit_eq_mult)
  then have "x AND (push_bit n 1 - 1) = take_bit n x" by (simp only: take_bit_eq_mask)
  then have "unat (x AND (push_bit n 1 - 1)) = take_bit n (unat x)" by (simp only: unsigned_take_bit_eq)
  then show ?thesis by (simp only: take_bit_eq_mod)
qed

lemma overaligned_alloc_size_spec:
  assumes "overaligned_alloc_size a n = Some r" and "unat n + 128 + unat a < 2 ^ 64"
  shows "unat a dvd unat r \<and> unat n + 128 < unat r \<and> unat r \<le> unat n + 128 + unat a"
proof -
  have "is_power_of_2 a" and r: "r = (n + 128 + a) - ((n + 128) AND (a - 1))"
    using assms(1) by (auto simp: overaligned_alloc_size_def split: if_splits)
  then obtain k where k: "k < 64" "a = push_bit k 1" by (auto simp: is_power_of_2_iff)
  have ua: "unat a = 2 ^ k"
  proof -
    have "(2 :: nat) ^ k < 2 ^ 64" using k(1) by (intro power_strict_increasing) simp_all
    then have "unat (of_nat (2 ^ k) :: 64 word) = 2 ^ k" by (simp only: unat_of_nat) simp
    then show ?thesis using k(2) by (simp add: push_bit_eq_mult)
  qed
  have n128: "unat (n + 128) = unat n + 128"
    using assms(2) by (simp add: unat_word_ariths)
  have sum: "unat (n + 128 + a) = unat n + 128 + unat a"
    using assms(2) n128 by (simp add: unat_word_ariths)
  have m: "unat ((n + 128) AND (a - 1)) = (unat n + 128) mod unat a"
    using and_power_minus_1[OF k(1), of "n + 128"] by (simp only: k(2)[symmetric] n128 ua)
  have ml: "(unat n + 128) mod unat a < unat a" by (simp add: ua)
  have "unat r = unat n + 128 + unat a - (unat n + 128) mod unat a"
    unfolding r using ml m sum by (subst unat_sub) (simp_all add: word_le_nat_alt)
  then have e: "unat r = (unat n + 128 - (unat n + 128) mod unat a) + unat a"
    using mod_less_eq_dividend[of "unat n + 128" "unat a"] by linarith
  have d: "unat a dvd unat r"
    unfolding e by (rule dvd_add, rule dvd_minus_mod, rule dvd_refl)
  have "(unat n + 128) mod unat a \<le> unat n + 128" by (rule mod_less_eq_dividend)
  with ml have "unat n + 128 < unat r \<and> unat r \<le> unat n + 128 + unat a"
    unfolding e by linarith
  with d show ?thesis by blast
qed

definition array_ok :: "resizable_array \<Rightarrow> bool" where
  "array_ok ra \<longleftrightarrow> (m_current_buffer ra \<noteq> None \<longrightarrow> m_current_buffer_size ra + 128 \<le> capacity ra)"

lemma ResizableArray_realloc_spec:
  assumes "array_ok ra" and "needed + 128 + align < 2 ^ 64"
    and "ResizableArray_realloc alloc needed align ra mem = Some (b, ra', mem')"
  shows "array_ok ra' \<and> m_current_buffer ra' = Some b \<and> needed + 128 \<le> capacity ra'
    \<and> (\<forall>a. b + needed \<le> a \<and> a < b + needed + 128 \<longrightarrow> mem' a = NUL)
    \<and> (\<forall>a. a < b + needed \<or> b + needed + 128 \<le> a \<longrightarrow> mem' a = mem a)"
proof -
  have mem': "mem' = mem_set (b + needed) NUL 128 mem" and b: "m_current_buffer ra' = Some b"
    using assms(3) by (auto simp: ResizableArray_realloc_def Let_def split: option.splits if_splits)
  have "array_ok ra' \<and> needed + 128 \<le> capacity ra'"
  proof (cases "ra' = ra \<and> needed \<le> m_current_buffer_size ra")
    case True
    then show ?thesis using assms(1) b by (simp add: array_ok_def)
  next
    case False
    then obtain n where n: "overaligned_alloc_size (of_nat align) (of_nat needed) = Some n"
        "capacity ra' = unat n" "m_current_buffer_size ra' = needed"
      using assms(3) by (auto simp: ResizableArray_realloc_def Let_def split: option.splits if_splits)
    have "unat (of_nat needed :: 64 word) = needed" and "unat (of_nat align :: 64 word) = align"
      using assms(2) by (simp_all add: unat_of_nat)
    with overaligned_alloc_size_spec[OF n(1)] assms(2) have "needed + 128 < unat n" by simp
    then show ?thesis using n by (simp add: array_ok_def)
  qed
  with mem' b show ?thesis by (auto simp: mem_set_def)
qed

subsection \<open>Literal prefixes\<close>

lemma IsPatternLiteral_iff: "IsPatternLiteral regex \<longleftrightarrow> (\<forall>c \<in> set regex. c \<notin> set metachars)"
  by (simp add: IsPatternLiteral_def find_if_none)

lemma GetLiteralPrefixLen_spec:
  assumes "GetLiteralPrefixLen regex = k" and "k > 1"
  shows "k \<le> 255 \<and> k < length regex \<and> CHR ''|'' \<notin> set regex
    \<and> (\<forall>i < k. regex ! i \<notin> set metachars)
    \<and> (regex ! k \<in> set metachars \<longrightarrow> regex ! k \<notin> set ''?*{'')"
proof -
  define P where "P c \<longleftrightarrow> c \<in> set ([CHR 0x5C] @ ''^$.[]()?*+{}'')" for c
  define m where "m = find_if P regex"
  have bar: "CHR ''|'' \<notin> set regex" and mlen: "m \<noteq> length regex"
    using assms unfolding GetLiteralPrefixLen_def Let_def P_def[symmetric] m_def[symmetric]
    by (auto split: if_splits)
  have k: "k = min (if m > 1 \<and> regex ! m \<in> set ''?*{'' then m - 1 else m) 255"
    using assms bar mlen unfolding GetLiteralPrefixLen_def Let_def P_def[symmetric] m_def[symmetric]
    by simp
  have ml: "m < length regex" by (rule le_neq_implies_less[OF _ mlen]) (simp add: m_def)
  have miss: "\<not> P (regex ! i)" if "i < m" for i
    using that unfolding m_def by (rule find_if_miss)
  have lit: "regex ! i \<notin> set metachars" if "i < m" for i
  proof -
    have "regex ! i \<noteq> CHR ''|''" using bar that ml by (metis nth_mem order.strict_trans)
    with miss[OF that] show ?thesis by (simp add: metachars_def P_def)
  qed
  have km: "k \<le> m" by (auto simp: k)
  have "regex ! k \<notin> set ''?*{''" if "regex ! k \<in> set metachars"
  proof -
    have "k = m" using lit[of k] that km by (cases "k < m") auto
    then show ?thesis using k assms(2) by (auto split: if_splits)
  qed
  with km ml lit bar show ?thesis by (auto simp: k)
qed

subsection \<open>Properties\<close>

text \<open>
  Searching for a literal gives the same answer whichever version the CPU selects: the vectorised
  search of patterns up to 16 bytes, reading past the end of the text into the zeroed padding,
  terminates and agrees with \<open>memmem\<close>.
\<close>

theorem LiteralMatch_versions_agree:
  assumes "pat \<noteq> []" and "NUL \<notin> set pat" and "start \<le> fsize" and "padded mem (fd + fsize)"
  shows "resolve_LiteralMatch has_sse4_2 mem pat fd fsize start =
           Some (LiteralMatch_default mem pat fd fsize start)"
  using LiteralMatch_versions[OF assms] .

definition text_at_3 :: memory where
  "text_at_3 a = (if 3 \<le> a \<and> a < 23 then (if a = 19 then CHR ''x'' else CHR ''a'') else NUL)"

theorem LiteralMatch_versions_agree_witness:
  "resolve_LiteralMatch True text_at_3 ''xa'' 3 20 0 = Some (1, 16, 18)"
proof -
  have "padded text_at_3 (3 + 20)" by (simp add: padded_def text_at_3_def)
  then have "resolve_LiteralMatch True text_at_3 ''xa'' 3 20 0 = Some (LiteralMatch_default text_at_3 ''xa'' 3 20 0)"
    by (intro LiteralMatch_versions_agree) simp_all
  also have "LiteralMatch_default text_at_3 ''xa'' 3 20 0 = (1, 16, 18)" by code_simp
  finally show ?thesis .
qed

text \<open>
  A literal match is the first occurrence of the pattern at or after the start offset, reported as
  code 1 with its offsets; code -1 with both offsets at the end of the file means there is none.
\<close>

theorem LiteralMatch_first:
  assumes "start \<le> fsize"
  shows "case LiteralMatch_default mem pat fd fsize start of (rc, s, e) \<Rightarrow>
     if rc = 1 then start \<le> s \<and> e = s + length pat \<and> e \<le> fsize \<and> mem_occurs mem (fd + s) pat
            \<and> (\<forall>a. start \<le> a \<and> a < s \<longrightarrow> \<not> mem_occurs mem (fd + a) pat)
     else rc = -1 \<and> s = fsize \<and> e = fsize
            \<and> (\<forall>a. start \<le> a \<and> a + length pat \<le> fsize \<longrightarrow> \<not> mem_occurs mem (fd + a) pat)"
  using libc_search.literal_match_spec[OF TrueI assms, of fd pat mem]
  by (auto simp: LiteralMatch_default_def split: prod.splits)

theorem LiteralMatch_first_witness:
  "mem_occurs text_at_3 19 ''xa''"
proof -
  have "LiteralMatch_default text_at_3 ''xa'' 3 20 0 = (1, 16, 18)" by code_simp
  then show ?thesis using LiteralMatch_first[where start = 0 and fsize = 20 and mem = text_at_3 and pat = "''xa''" and fd = 3] by simp
qed

text \<open>
  C29. The file buffer always has its padding: after \<open>realloc\<close> the 128 bytes after the requested size
  are zero and lie inside the block the allocator was asked for, also when the old block is reused;
  nothing else changes.
\<close>

theorem realloc_pads:
  assumes "array_ok ra" and "needed + 128 + align < 2 ^ 64"
    and "ResizableArray_realloc alloc needed align ra mem = Some (b, ra', mem')"
  shows "array_ok ra' \<and> m_current_buffer ra' = Some b \<and> needed + 128 \<le> capacity ra'
    \<and> (\<forall>a. b + needed \<le> a \<and> a < b + needed + 128 \<longrightarrow> mem' a = NUL)
    \<and> (\<forall>a. a < b + needed \<or> b + needed + 128 \<le> a \<longrightarrow> mem' a = mem a)"
  using ResizableArray_realloc_spec[OF assms] .

theorem realloc_pads_witness:
  "\<exists>b ra' mem'. ResizableArray_realloc (\<lambda>a n. Some 64) 100 16 ResizableArray_init (\<lambda>_. CHR ''z'') = Some (b, ra', mem')
     \<and> padded mem' (b + 100)"
proof -
  have "array_ok ResizableArray_init" by (simp add: array_ok_def ResizableArray_init_def)
  moreover obtain b ra' mem' where r:
    "ResizableArray_realloc (\<lambda>a n. Some 64) 100 16 ResizableArray_init (\<lambda>_. CHR ''z'') = Some (b, ra', mem')"
    by (simp add: ResizableArray_realloc_def ResizableArray_init_def overaligned_alloc_size_def is_power_of_2_def)
  ultimately show ?thesis using realloc_pads[of ResizableArray_init 100 16 "\<lambda>a n. Some 64" "\<lambda>_. CHR ''z''" b ra' mem']
    by (auto simp: padded_def)
qed

text \<open>
  The literal prefix of a regex: when the analysis reports more than one byte, all of them are
  ordinary characters, at most 255, of a regex without alternatives, and the character after them is
  not a quantifier that could make the last one optional.
\<close>

theorem GetLiteralPrefixLen_sound:
  assumes "GetLiteralPrefixLen regex = k" and "k > 1"
  shows "k \<le> 255 \<and> k < length regex \<and> CHR ''|'' \<notin> set regex
    \<and> (\<forall>i < k. regex ! i \<notin> set metachars)
    \<and> (regex ! k \<in> set metachars \<longrightarrow> regex ! k \<notin> set ''?*{'')"
  using GetLiteralPrefixLen_spec[OF assms] .

theorem GetLiteralPrefixLen_sound_witness:
  "GetLiteralPrefixLen ''abc*d'' = 2 \<and> ''abc*d'' ! 0 \<notin> set metachars \<and> ''abc*d'' ! 1 \<notin> set metachars"
proof -
  have len: "GetLiteralPrefixLen ''abc*d'' = 2" by code_simp
  have two: "(1 :: nat) < 2" "(0 :: nat) < 2" by simp_all
  show ?thesis using GetLiteralPrefixLen_sound[OF len two(1)] len two by blast
qed

end
