(* ===== verification/Scan.thy ===== *)
theory Scan
  imports LiteralSearch MatchOutput
begin

unbundle bit_operations_syntax

text \<open>
  The scanner on libpcre2, \<open>src/FileScannerPCRE2.cpp\<close>: compiling the pattern, analysing the regex for
  a literal, a literal prefix or a first-byte table, and \<open>ScanFile\<close>, which looks for successive
  matches in one file and adds the first match of every line to the match list.

  libpcre2 is not modelled. Its calls are parameters of the definitions: compilation, pattern
  information, and \<open>pcre2_match\<close> for a fixed pattern and subject, as a function from the start offset
  and the \<open>NOTEMPTY_ATSTART | ANCHORED\<close> option to the return code and the first offset pair. What the
  scanner relies on is the locale \<open>regex_engine\<close>.
\<close>

subsection \<open>Construction\<close>

text \<open>\<open>callout_handler\<close>: reject a potential match that contains a newline.\<close>

definition callout_handler :: "memory \<Rightarrow> nat \<Rightarrow> nat \<Rightarrow> nat \<Rightarrow> int" where
  "callout_handler mem subject start_match current_position =
     (case mem_chr mem (subject + start_match) NL (current_position - start_match) of
        None \<Rightarrow> 0 | Some _ \<Rightarrow> 1)"

text \<open>The pattern handed to \<open>pcre2_compile\<close>.\<close>

definition wrapped_pattern :: "string \<Rightarrow> bool \<Rightarrow> bool \<Rightarrow> string" where
  "wrapped_pattern regex word_regexp pattern_is_literal =
     (let r1 = (if pattern_is_literal then [CHR 0x5C] @ ''Q'' @ regex @ [CHR 0x5C] @ ''E'' else regex);
          r2 = (if word_regexp then [CHR 0x5C] @ ''b(?:'' @ r1 @ '')'' @ [CHR 0x5C] @ ''b'' else r1)
      in ''(?:'' @ r2 @ '')(?=.*?$)(?C1)'')"

record scanner =
  m_use_literal :: bool
  m_use_lit_prefix :: bool
  m_use_first_code_unit_table :: bool
  m_use_range_pair_table :: bool
  m_literal_search_string :: string
  m_tables :: cu_tables

definition scanner_init :: scanner where
  "scanner_init =
     \<lparr> m_use_literal = False, m_use_lit_prefix = False, m_use_first_code_unit_table = False,
       m_use_range_pair_table = False, m_literal_search_string = [],
       m_tables = \<lparr>m_compiled_cu_bitmap = [], m_compiled_range_bitmap = []\<rparr> \<rparr>"

text \<open>What \<open>pcre2_pattern_info\<close> reports: the first-byte bit map, or the type and value of a single
  first code unit.\<close>

record pattern_info =
  first_bitmap :: "8 word list option"
  first_code_type :: nat
  first_code_unit :: "8 word"

text \<open>The first half of \<open>AnalyzeRegex\<close>: a table of possible first code units.\<close>

definition analyze_first_units :: "pattern_info \<Rightarrow> bool \<Rightarrow> scanner \<Rightarrow> scanner" where
  "analyze_first_units info ignore_case sc =
     (case first_bitmap info of
        Some bm \<Rightarrow>
          (let t = ConstructRangePairTable (ConstructCodeUnitTable bm (m_tables sc)); sc = sc\<lparr>m_tables := t\<rparr>
           in if m_end_fpcu_table t > 0 \<and> m_end_fpcu_table t < m_end_ranges_table t
              then sc\<lparr>m_use_first_code_unit_table := True\<rparr>
              else if m_end_ranges_table t > 0 then sc\<lparr>m_use_range_pair_table := True\<rparr>
              else sc)
      | None \<Rightarrow>
          (if first_code_type info = 1 \<and> \<not> ignore_case
           then sc\<lparr>m_tables := (m_tables sc)\<lparr>m_compiled_cu_bitmap := [first_code_unit info]\<rparr>,
                   m_use_first_code_unit_table := True\<rparr>
           else sc))"

text \<open>The second half: a literal, or a literal prefix.\<close>

definition analyze_literal :: "bool \<Rightarrow> bool \<Rightarrow> bool \<Rightarrow> string \<Rightarrow> scanner \<Rightarrow> scanner" where
  "analyze_literal ignore_case word_regexp pattern_is_literal regex_passed_in sc =
     (if \<not> ignore_case \<and> \<not> word_regexp
      then (if pattern_is_literal \<or> IsPatternLiteral regex_passed_in
            then sc\<lparr>m_literal_search_string := regex_passed_in, m_use_literal := True\<rparr>
            else if m_use_first_code_unit_table sc
            then (let lit_prefix_len = GetLiteralPrefixLen regex_passed_in
                  in if lit_prefix_len > 1
                     then sc\<lparr>m_literal_search_string := take lit_prefix_len regex_passed_in,
                             m_use_lit_prefix := True\<rparr>
                     else sc)
            else sc)
      else sc)"

definition AnalyzeRegex :: "pattern_info \<Rightarrow> bool \<Rightarrow> bool \<Rightarrow> bool \<Rightarrow> string \<Rightarrow> scanner \<Rightarrow> scanner" where
  "AnalyzeRegex info ignore_case word_regexp pattern_is_literal regex_passed_in sc =
     analyze_literal ignore_case word_regexp pattern_is_literal regex_passed_in
       (analyze_first_units info ignore_case sc)"

datatype FileScannerException =
    CompilationFailed string nat int
  | JitError int
  | CalloutsNotSupported
  | MatchError int

text \<open>
  The constructor, on the library's compiler (\<open>Inl\<close> the error code and offset), JIT compiler (its
  return value, \<open>PCRE2_ERROR_JIT_BADOPTION\<close> when there is no JIT), callout count and information.
\<close>

definition PCRE2_ERROR_JIT_BADOPTION :: int where
  "PCRE2_ERROR_JIT_BADOPTION = -45"

definition FileScannerPCRE2_ctor ::
    "(string \<Rightarrow> bool \<Rightarrow> (int \<times> nat) + 'code) \<Rightarrow> ('code \<Rightarrow> int) \<Rightarrow> ('code \<Rightarrow> nat) \<Rightarrow>
     ('code \<Rightarrow> pattern_info) \<Rightarrow> string \<Rightarrow> bool \<Rightarrow> bool \<Rightarrow> bool \<Rightarrow>
     FileScannerException + ('code \<times> scanner)" where
  "FileScannerPCRE2_ctor pcre2_compile pcre2_jit_compile num_callouts pcre2_info
       regex ignore_case word_regexp pattern_is_literal =
     (let wrapped = wrapped_pattern regex word_regexp pattern_is_literal
      in case pcre2_compile wrapped ignore_case of
           Inl (error_code, error_offset) \<Rightarrow> Inl (CompilationFailed wrapped error_offset error_code)
         | Inr code \<Rightarrow>
             (let jit_retval = pcre2_jit_compile code
              in if jit_retval \<noteq> 0 \<and> jit_retval \<noteq> PCRE2_ERROR_JIT_BADOPTION then Inl (JitError jit_retval)
                 else if num_callouts code > 1 then Inl CalloutsNotSupported
                 else Inr (code, AnalyzeRegex (pcre2_info code) ignore_case word_regexp
                                   pattern_is_literal regex scanner_init)))"

subsection \<open>Scanning a file\<close>

text \<open>What one call of \<open>ScanFile\<close> works on.\<close>

record scan_env =
  env_mem :: memory
  env_data :: nat
  env_size :: nat
  env_sse4_2 :: bool
  env_scanner :: scanner
  env_match :: "nat \<Rightarrow> bool \<Rightarrow> int \<times> nat \<times> nat"
  env_count :: "memory \<Rightarrow> nat \<Rightarrow> nat \<Rightarrow> nat"

record scan_state =
  start_offset :: nat
  ov0 :: nat
  ov1 :: nat
  line_no :: nat
  prev_lineno :: nat
  prev_lineno_search_end :: nat
  found :: match_list

datatype scan_exception = ScannerException FileScannerException | MatchRange range_error

text \<open>How one pass through the loop body ends: with the loop going on, or with the function over,
  by \<open>break\<close>, \<open>return\<close> or an exception.\<close>

datatype flow = Continue scan_state | Stop "scan_exception option" scan_state

text \<open>
  The prefilters: \<open>Some (Some off)\<close> continues at offset \<open>off\<close>, \<open>Some None\<close> breaks; \<open>None\<close> stands for
  a literal search that does not return.
\<close>

definition skip_ahead :: "scan_env \<Rightarrow> nat \<Rightarrow> nat option option" where
  "skip_ahead env start =
     (let sc = env_scanner env; mem = env_mem env; fd = env_data env; n = env_size env in
      if m_use_lit_prefix sc then
        (case resolve_LiteralMatch (env_sse4_2 env) mem (m_literal_search_string sc) fd n start of
           None \<Rightarrow> None
         | Some (rc, s, e) \<Rightarrow> if s > n then Some None else if rc \<le> 0 then Some None else Some (Some s))
      else if m_use_first_code_unit_table sc then
        (let r = FindFirstPossibleCodeUnit_default (m_tables sc) mem (fd + start) (n - start)
         in Some (if r \<noteq> fd + n then Some (r - fd) else None))
      else if m_use_range_pair_table sc then
        (let r = find_first_in_ranges_sse4_2 (m_tables sc) mem (fd + start) (n - start)
         in Some (if r \<noteq> fd + n then Some (r - fd) else None))
      else Some (Some start))"

text \<open>\<open>while(ovector[1] < file_size)\<close> skip the bytes \<open>10xxxxxx\<close>.\<close>

definition skip_continuation :: "scan_env \<Rightarrow> nat \<Rightarrow> nat" where
  "skip_continuation env off =
     off + find_if (\<lambda>a. (of_char (env_mem env a) AND (0xC0 :: 8 word)) \<noteq> 0x80)
             [env_data env + off..<env_data env + env_size env]"

definition file_bytes :: "memory \<Rightarrow> nat \<Rightarrow> nat \<Rightarrow> string" where
  "file_bytes mem fd n = map mem [fd..<fd + n]"

text \<open>A match at offsets \<open>[s, e)\<close>: count lines, skip a second match on a line, package the rest.\<close>

definition add_match :: "scan_env \<Rightarrow> nat \<Rightarrow> nat \<Rightarrow> scan_state \<Rightarrow> flow" where
  "add_match env s e st =
     (let line = line_no st + env_count env (env_mem env) (prev_lineno_search_end st) (env_data env + s);
          st1 = st\<lparr>line_no := line, prev_lineno_search_end := env_data env + s\<rparr>
      in if line = prev_lineno st1 then Continue st1
         else (let st2 = st1\<lparr>prev_lineno := line\<rparr>
               in case Match_ctor (file_bytes (env_mem env) (env_data env) (env_size env)) s e line of
                    Inl err \<Rightarrow> Stop (Some (MatchRange err)) st2
                  | Inr m \<Rightarrow> Continue (st2\<lparr>found := AddMatch m (found st2)\<rparr>)))"

text \<open>What follows the match call: its return code and offsets, with the option that was set.\<close>

definition after_match :: "scan_env \<Rightarrow> bool \<Rightarrow> int \<times> nat \<times> nat \<Rightarrow> scan_state \<Rightarrow> flow" where
  "after_match env opt result st =
     (case result of (rc, s, e) \<Rightarrow>
        (let st1 = (if rc > 0 \<or> m_use_literal (env_scanner env) then st\<lparr>ov0 := s, ov1 := e\<rparr> else st)
         in if rc = -1 then
              (if \<not> opt then Stop None st1
               else Continue (st1\<lparr>ov1 := skip_continuation env (start_offset st + 1)\<rparr>))
            else if rc < 0 then Stop (Some (ScannerException (MatchError rc))) st1
            else if rc = 0 then Stop None st1
            else add_match env s e st1))"

definition scan_body :: "scan_env \<Rightarrow> scan_state \<Rightarrow> flow option" where
  "scan_body env st0 =
     (let st = st0\<lparr>start_offset := ov1 st0\<rparr>; n = env_size env; sc = env_scanner env;
          opt = (ov0 st = ov1 st)
      in if opt \<and> ov0 st = n then Some (Stop None st)
         else
           (case (if \<not> opt \<and> \<not> m_use_literal sc then skip_ahead env (start_offset st)
                  else Some (Some (start_offset st))) of
              None \<Rightarrow> None
            | Some None \<Rightarrow> Some (Stop None st)
            | Some (Some off) \<Rightarrow>
                (let st = st\<lparr>start_offset := off\<rparr>
                 in if \<not> m_use_literal sc
                    then Some (after_match env opt (env_match env off opt) st)
                    else
                      (case resolve_LiteralMatch (env_sse4_2 env) (env_mem env)
                              (m_literal_search_string sc) (env_data env) n off of
                         None \<Rightarrow> None
                       | Some r \<Rightarrow> Some (after_match env opt r st)))))"

partial_function (option) scan_loop :: "scan_env \<Rightarrow> scan_state \<Rightarrow> (scan_exception option \<times> scan_state) option" where
  "scan_loop env st =
     (if start_offset st < env_size env
      then (case scan_body env st of
              None \<Rightarrow> None
            | Some (Stop x st') \<Rightarrow> Some (x, st')
            | Some (Continue st') \<Rightarrow> scan_loop env st')
      else Some (None, st))"

text \<open>
  \<open>ScanFile\<close> from an empty or partly filled match list. An exception is caught and printed inside
  the function, so the match list found so far is what remains; \<open>None\<close> is a scan that never returns.
\<close>

definition scan_start :: "scan_env \<Rightarrow> match_list \<Rightarrow> scan_state" where
  "scan_start env ml =
     \<lparr> start_offset = 0, ov0 = SIZE_MAX, ov1 = 0, line_no = 1, prev_lineno = 0,
       prev_lineno_search_end = env_data env, found = ml \<rparr>"

definition ScanFile :: "scan_env \<Rightarrow> match_list \<Rightarrow> (scan_exception option \<times> match_list) option" where
  "ScanFile env ml = map_option (\<lambda>(x, st). (x, found st)) (scan_loop env (scan_start env ml))"

subsection \<open>What the scanner relies on\<close>

text \<open>
  The documented behaviour of \<open>pcre2_match\<close> for a pattern that does not refer to the start offset: a match lies between the start
  offset and the end of the subject; with the two options set it is anchored and not empty; the
  callout has accepted it; it is the leftmost one, so starting later, but not after it, finds the
  same match; there is no other return code than a match or \<open>NOMATCH\<close>.
\<close>

locale regex_engine =
  fixes mem :: memory and fd n :: nat and pm :: "nat \<Rightarrow> bool \<Rightarrow> int \<times> nat \<times> nat"
  assumes code: "pm t opt = (rc, s, e) \<Longrightarrow> rc = -1 \<or> rc > 0"
    and range: "t \<le> n \<Longrightarrow> pm t opt = (rc, s, e) \<Longrightarrow> rc > 0 \<Longrightarrow> t \<le> s \<and> s \<le> e \<and> e \<le> n"
    and anchored: "t \<le> n \<Longrightarrow> pm t True = (rc, s, e) \<Longrightarrow> rc > 0 \<Longrightarrow> s = t \<and> t < e"
    and one_line: "t \<le> n \<Longrightarrow> pm t opt = (rc, s, e) \<Longrightarrow> rc > 0 \<Longrightarrow> callout_handler mem fd s e = 0"
    and leftmost: "t \<le> t' \<Longrightarrow> t' \<le> s \<Longrightarrow> pm t False = (rc, s, e) \<Longrightarrow> rc > 0 \<Longrightarrow> s \<le> n \<Longrightarrow> pm t' False = (rc, s, e)"
    and no_match: "t \<le> t' \<Longrightarrow> t' \<le> n \<Longrightarrow> fst (pm t False) = -1 \<Longrightarrow> fst (pm t' False) = -1"

subsection \<open>The attempt at one offset\<close>

definition attempt :: "scan_env \<Rightarrow> bool \<Rightarrow> nat \<Rightarrow> (int \<times> nat \<times> nat) option" where
  "attempt env opt t =
     (if \<not> m_use_literal (env_scanner env) then Some (env_match env t opt)
      else resolve_LiteralMatch (env_sse4_2 env) (env_mem env) (m_literal_search_string (env_scanner env))
             (env_data env) (env_size env) t)"

lemma scan_body_attempt:
  "scan_body env st0 =
     (let st = st0\<lparr>start_offset := ov1 st0\<rparr>; opt = (ov0 st0 = ov1 st0)
      in if opt \<and> ov0 st0 = env_size env then Some (Stop None st)
         else
           (case (if \<not> opt \<and> \<not> m_use_literal (env_scanner env) then skip_ahead env (ov1 st0)
                  else Some (Some (ov1 st0))) of
              None \<Rightarrow> None
            | Some None \<Rightarrow> Some (Stop None st)
            | Some (Some off) \<Rightarrow>
                map_option (\<lambda>r. after_match env opt r (st0\<lparr>start_offset := off\<rparr>)) (attempt env opt off)))"
  unfolding scan_body_def attempt_def Let_def by (auto split: option.split)

lemma file_bytes_nth [simp]: "i < n \<Longrightarrow> file_bytes mem fd n ! i = mem (fd + i)"
  by (simp add: file_bytes_def)

lemma length_file_bytes [simp]: "length (file_bytes mem fd n) = n"
  by (simp add: file_bytes_def)

lemma callout_accepts:
  assumes "callout_handler mem fd s e = 0" and "s \<le> e" and "e \<le> n"
  shows "NL \<notin> set (sub_range s e (file_bytes mem fd n))"
proof
  assume "NL \<in> set (sub_range s e (file_bytes mem fd n))"
  then obtain i where i: "s \<le> i" "i < e" "mem (fd + i) = NL"
    using assms(3) by (auto simp: set_sub_range)
  have "mem_chr mem (fd + s) NL (e - s) = None"
    using assms(1) by (auto simp: callout_handler_def split: option.splits)
  from mem_chr_None[OF this, of "fd + i"] i show False by auto
qed

text \<open>A match of the file as it is reported: the range of an actual match of the file, cut out of its
  line, with the number of the line its start is on.\<close>

definition line_at :: "scan_env \<Rightarrow> nat \<Rightarrow> nat" where
  "line_at env off = 1 + newlines (env_mem env) (env_data env) (env_data env + off)"

definition good_match :: "scan_env \<Rightarrow> match_line \<Rightarrow> bool" where
  "good_match env m \<longleftrightarrow>
     (\<exists>opt t rc s e. t \<le> s \<and> s \<le> e \<and> e \<le> env_size env \<and> attempt env opt t = Some (rc, s, e) \<and> rc > 0
        \<and> Match_ctor (file_bytes (env_mem env) (env_data env) (env_size env)) s e (line_at env s) = Inr m
        \<and> m_line_number m = line_at env s)"

text \<open>What an attempt must deliver for the loop to be well behaved.\<close>

definition attempts_ok :: "scan_env \<Rightarrow> bool" where
  "attempts_ok env \<longleftrightarrow>
     (\<forall>opt t. t \<le> env_size env \<longrightarrow>
        (\<exists>rc s e. attempt env opt t = Some (rc, s, e) \<and> (rc = -1 \<or> rc > 0)
           \<and> (rc > 0 \<longrightarrow> t \<le> s \<and> s \<le> e \<and> e \<le> env_size env \<and> (opt \<longrightarrow> t < e)
                 \<and> callout_handler (env_mem env) (env_data env) s e = 0)))"

definition skips_ok :: "scan_env \<Rightarrow> bool" where
  "skips_ok env \<longleftrightarrow>
     (\<forall>t. t \<le> env_size env \<longrightarrow>
        (\<exists>r. skip_ahead env t = Some r \<and> (\<forall>off. r = Some off \<longrightarrow> t \<le> off \<and> off \<le> env_size env)))"

definition counts_ok :: "scan_env \<Rightarrow> bool" where
  "counts_ok env \<longleftrightarrow> (\<forall>mem a b. a \<le> b \<longrightarrow> env_count env mem a b = newlines mem a b)"

definition scan_inv :: "scan_env \<Rightarrow> scan_state \<Rightarrow> bool" where
  "scan_inv env st \<longleftrightarrow>
     ov1 st \<le> env_size env
     \<and> (\<exists>p \<le> ov1 st. prev_lineno_search_end st = env_data env + p
           \<and> line_no st = line_at env p)
     \<and> prev_lineno st \<le> line_no st
     \<and> sorted_wrt (<) (map m_line_number (m_match_list (found st)))
     \<and> (\<forall>m \<in> set (m_match_list (found st)).
          good_match env m \<and> m_line_number m \<le> prev_lineno st)"

definition scan_measure :: "scan_env \<Rightarrow> scan_state \<Rightarrow> nat" where
  "scan_measure env st = 2 * (env_size env - ov1 st) + of_bool (ov0 st \<noteq> ov1 st)"

lemma add_match_inv:
  assumes "counts_ok env" and "scan_inv env st" and "ov1 st \<le> s" and "s \<le> e" and "e \<le> env_size env"
    and "callout_handler (env_mem env) (env_data env) s e = 0"
    and "attempt env opt t = Some (rc, s, e)" and "rc > 0" and "t \<le> s"
  shows "\<exists>st'. add_match env s e (st\<lparr>ov0 := s, ov1 := e\<rparr>) = Continue st' \<and> scan_inv env st'
     \<and> ov0 st' = s \<and> ov1 st' = e \<and> start_offset st' = start_offset st
     \<and> prev_lineno st' = line_at env s
     \<and> set (m_match_list (found st)) \<subseteq> set (m_match_list (found st'))
     \<and> (line_at env s = prev_lineno st \<or> line_at env s \<in> m_line_number ` set (m_match_list (found st')))"
proof -
  let ?mem = "env_mem env" and ?fd = "env_data env" and ?n = "env_size env"
  let ?st = "st\<lparr>ov0 := s, ov1 := e\<rparr>"
  obtain p where p: "p \<le> ov1 st" "prev_lineno_search_end st = ?fd + p"
      "line_no st = line_at env p"
    using assms(2) by (auto simp: scan_inv_def)
  define line where "line = line_at env s"
  have le: "p \<le> s" using p(1) assms(3) by simp
  then have split: "newlines ?mem ?fd (?fd + s) = newlines ?mem ?fd (?fd + p) + newlines ?mem (?fd + p) (?fd + s)"
    by (intro newlines_split) simp_all
  have ln: "line_no st + env_count env ?mem (?fd + p) (?fd + s) = line"
    using assms(1) le split p(3) by (simp add: counts_ok_def line_def line_at_def)
  have mono: "line_no st \<le> line" using split p(3) by (simp add: line_def line_at_def)
  have nl: "NL \<notin> set (sub_range s e (file_bytes ?mem ?fd ?n))"
    using callout_accepts[OF assms(6,4,5)] .
  then obtain m where m: "Match_ctor (file_bytes ?mem ?fd ?n) s e line = Inr m" "m_line_number m = line"
  proof -
    have "s \<le> length (file_bytes ?mem ?fd ?n)" using assms(4,5) by simp
    with nl assms(4,5) that show ?thesis
      using line_end_beyond[of s e "file_bytes ?mem ?fd ?n"] by (simp add: Match_ctor_eq)
  qed
  show ?thesis
  proof (cases "line = prev_lineno st")
    case True
    let ?st' = "?st\<lparr>line_no := line, prev_lineno_search_end := ?fd + s\<rparr>"
    have "add_match env s e ?st = Continue ?st'"
      using True ln p(2) by (simp add: add_match_def Let_def)
    moreover have "scan_inv env ?st'"
      using assms(2,4,5) True by (auto simp: scan_inv_def line_def)
    ultimately show ?thesis using True by (simp add: line_def)
  next
    case False
    let ?st' = "?st\<lparr>line_no := line, prev_lineno_search_end := ?fd + s, prev_lineno := line,
                    found := AddMatch m (found st)\<rparr>"
    have "add_match env s e ?st = Continue ?st'"
      using False ln p(2) m(1) by (simp add: add_match_def Let_def)
    moreover have "scan_inv env ?st'"
    proof -
      have "prev_lineno st < line" using assms(2) mono False by (simp add: scan_inv_def)
      moreover have "good_match env m"
        using m assms(4,5,7-9) unfolding good_match_def line_def by blast
      ultimately show ?thesis
        using assms(2,4,5) m(2)
        by (force simp: scan_inv_def line_def AddMatch_def sorted_wrt_append)
    qed
    ultimately show ?thesis using m(2) by (simp add: line_def AddMatch_def subset_insertI)
  qed
qed

lemma skip_continuation_bounds:
  "off \<le> env_size env \<Longrightarrow> off \<le> skip_continuation env off \<and> skip_continuation env off \<le> env_size env"
proof -
  let ?l = "[env_data env + off..<env_data env + env_size env]"
  assume "off \<le> env_size env"
  then have "length ?l = env_size env - off" by simp
  then show ?thesis
    using \<open>off \<le> env_size env\<close> find_if_le[of "\<lambda>a. (of_char (env_mem env a) AND (0xC0 :: 8 word)) \<noteq> 0x80" ?l]
    unfolding skip_continuation_def by linarith
qed

text \<open>One pass keeps the invariant; unless it ends the scan it makes progress.\<close>

lemma scan_body_cases:
  assumes "attempts_ok env" and "skips_ok env" and "ov1 st \<le> env_size env"
  obtains (at_end) "ov0 st = ov1 st" "ov1 st = env_size env"
      "scan_body env st = Some (Stop None (st\<lparr>start_offset := ov1 st\<rparr>))"
    | (skipped) "ov0 st \<noteq> ov1 st" "\<not> m_use_literal (env_scanner env)" "skip_ahead env (ov1 st) = Some None"
      "scan_body env st = Some (Stop None (st\<lparr>start_offset := ov1 st\<rparr>))"
    | (attempted) off rc s e where "ov1 st \<le> off" "off \<le> env_size env"
      "off = ov1 st \<or> ov0 st \<noteq> ov1 st \<and> \<not> m_use_literal (env_scanner env) \<and> skip_ahead env (ov1 st) = Some (Some off)"
      "ov0 st = ov1 st \<Longrightarrow> off = ov1 st \<and> ov1 st < env_size env"
      "attempt env (ov0 st = ov1 st) off = Some (rc, s, e)" "rc = -1 \<or> rc > 0"
      "rc > 0 \<Longrightarrow> off \<le> s \<and> s \<le> e \<and> e \<le> env_size env \<and> (ov0 st = ov1 st \<longrightarrow> off < e)
              \<and> callout_handler (env_mem env) (env_data env) s e = 0"
      "scan_body env st = Some (after_match env (ov0 st = ov1 st) (rc, s, e) (st\<lparr>start_offset := off\<rparr>))"
proof -
  let ?n = "env_size env"
  let ?opt = "ov0 st = ov1 st"
  show thesis
  proof (cases "?opt \<and> ov0 st = ?n")
    case True
    then have "scan_body env st = Some (Stop None (st\<lparr>start_offset := ov1 st\<rparr>))"
      by (simp add: scan_body_attempt Let_def)
    then show thesis using True at_end by simp
  next
    case False
    define r where "r = (if \<not> ?opt \<and> \<not> m_use_literal (env_scanner env) then skip_ahead env (ov1 st)
                  else Some (Some (ov1 st)))"
    have body: "scan_body env st =
        (case r of
              None \<Rightarrow> None
            | Some None \<Rightarrow> Some (Stop None (st\<lparr>start_offset := ov1 st\<rparr>))
            | Some (Some off) \<Rightarrow>
                map_option (\<lambda>x. after_match env ?opt x (st\<lparr>start_offset := off\<rparr>)) (attempt env ?opt off))"
    proof -
      have "(?opt \<and> ov0 st = ?n) = False" using False by blast
      then show ?thesis unfolding scan_body_attempt Let_def r_def by (simp only: if_False)
    qed
    have go: thesis if r: "r = Some (Some off)" and off: "ov1 st \<le> off" "off \<le> ?n"
      and skip: "off = ov1 st \<or> \<not> ?opt \<and> \<not> m_use_literal (env_scanner env) \<and> skip_ahead env (ov1 st) = Some (Some off)"
      for off
    proof -
      obtain rc s e where a: "attempt env ?opt off = Some (rc, s, e)" "rc = -1 \<or> rc > 0"
          "rc > 0 \<Longrightarrow> off \<le> s \<and> s \<le> e \<and> e \<le> ?n \<and> (?opt \<longrightarrow> off < e)
              \<and> callout_handler (env_mem env) (env_data env) s e = 0"
        using assms(1) off(2) unfolding attempts_ok_def by metis
      have "scan_body env st = Some (after_match env ?opt (rc, s, e) (st\<lparr>start_offset := off\<rparr>))"
        by (simp add: body r a(1))
      moreover have "off = ov1 st \<and> ov1 st < ?n" if ?opt using that skip False assms(3) by auto
      ultimately show thesis using attempted[OF off skip _ a] by blast
    qed
    show thesis
    proof (cases "\<not> ?opt \<and> \<not> m_use_literal (env_scanner env)")
      case True
      from assms(2,3) obtain q where q: "skip_ahead env (ov1 st) = Some q"
          "\<forall>off. q = Some off \<longrightarrow> ov1 st \<le> off \<and> off \<le> ?n"
        unfolding skips_ok_def by blast
      have r: "r = Some q" unfolding r_def using True q(1) by simp
      show thesis
      proof (cases q)
        case None
        then show thesis using skipped body r q(1) True by simp
      next
        case (Some off)
        then show thesis using go[of off] r q True by simp
      qed
    next
      case False
      then have "r = Some (Some (ov1 st))" unfolding r_def by (simp only: if_False)
      then show thesis using go[of "ov1 st"] assms(3) by simp
    qed
  qed
qed

lemma scan_body_inv:
  assumes "counts_ok env" and "attempts_ok env" and "skips_ok env" and "scan_inv env st"
  shows "\<exists>f. scan_body env st = Some f \<and>
     (case f of
        Stop x st' \<Rightarrow> x = None \<and> found st' = found st
      | Continue st' \<Rightarrow> scan_inv env st' \<and> scan_measure env st' < scan_measure env st)"
proof -
  let ?n = "env_size env"
  let ?opt = "ov0 st = ov1 st"
  have ov1: "ov1 st \<le> ?n" using assms(4) by (simp add: scan_inv_def)
  show ?thesis
  proof (cases rule: scan_body_cases[OF assms(2,3) ov1, case_names at_end skipped attempted])
    case (attempted off rc s e)
    note off = attempted(1,2) and a = attempted(5-7) and res = attempted(8)
    let ?st = "st\<lparr>start_offset := off\<rparr>"
    have inv: "scan_inv env ?st" using assms(4) by (simp add: scan_inv_def)
    show ?thesis
    proof (cases "rc > 0")
      case True
      note m = a(3)[OF True]
      obtain st' where st': "add_match env s e (?st\<lparr>ov0 := s, ov1 := e\<rparr>) = Continue st'" "scan_inv env st'"
          "ov0 st' = s" "ov1 st' = e"
        using add_match_inv[OF assms(1) inv, of s e ?opt off rc] m off a(1) True by auto
      have "after_match env ?opt (rc, s, e) ?st = Continue st'"
        using True st'(1) by (simp add: after_match_def)
      moreover have "scan_measure env st' < scan_measure env st"
      proof (cases "ov1 st < e")
        case True
        then have "2 * (?n - e) + 1 < 2 * (?n - ov1 st)" using m by linarith
        moreover have "of_bool (ov0 st' \<noteq> ov1 st') \<le> (1 :: nat)" by simp
        ultimately show ?thesis using st'(4) unfolding scan_measure_def by linarith
      next
        case False
        then have "e = ov1 st" "s = e" "\<not> ?opt" using m off by auto
        then show ?thesis using st' by (simp add: scan_measure_def)
      qed
      ultimately show ?thesis using res st'(2) by simp
    next
      case False
      then have rc: "rc = -1" using a(2) by simp
      show ?thesis
      proof (cases ?opt)
        case False
        then show ?thesis using res rc by (simp add: after_match_def)
      next
        case True
        then have "off = ov1 st" and "off < ?n" using attempted(4) by auto
        then have sk: "off + 1 \<le> skip_continuation env (off + 1)" "skip_continuation env (off + 1) \<le> ?n"
          using skip_continuation_bounds[of "off + 1" env] by simp_all
        obtain st1 where st1: "after_match env ?opt (rc, s, e) ?st =
            Continue (st1\<lparr>ov1 := skip_continuation env (off + 1)\<rparr>)"
            "st1 = ?st \<or> st1 = ?st\<lparr>ov0 := s, ov1 := e\<rparr>"
          using rc True by (auto simp: after_match_def)
        define off' where "off' = skip_continuation env (off + 1)"
        note sk = sk[folded off'_def] and st1 = st1[folded off'_def]
        have "scan_inv env (st1\<lparr>ov1 := off'\<rparr>)"
          using assms(4) st1(2) sk off unfolding scan_inv_def by (auto intro: le_trans)
        moreover have "scan_measure env (st1\<lparr>ov1 := off'\<rparr>) < scan_measure env st"
        proof -
          have "2 * (?n - off') + 1 < 2 * (?n - ov1 st)"
            using sk \<open>off = ov1 st\<close> \<open>off < ?n\<close> by linarith
          moreover have "of_bool (ov0 (st1\<lparr>ov1 := off'\<rparr>) \<noteq> ov1 (st1\<lparr>ov1 := off'\<rparr>)) \<le> (1 :: nat)" by simp
          ultimately show ?thesis unfolding scan_measure_def by simp
        qed
        ultimately show ?thesis using res st1(1) by simp
      qed
    qed
  qed (simp_all)
qed

lemma scan_loop_inv:
  assumes "counts_ok env" and "attempts_ok env" and "skips_ok env" and "scan_inv env st"
  shows "\<exists>st'. scan_loop env st = Some (None, st')
    \<and> sorted_wrt (<) (map m_line_number (m_match_list (found st')))
    \<and> (\<forall>m \<in> set (m_match_list (found st')). good_match env m)"
  using assms(4)
proof (induction "scan_measure env st" arbitrary: st rule: less_induct)
  case less
  have fin: "sorted_wrt (<) (map m_line_number (m_match_list (found st)))
    \<and> (\<forall>m \<in> set (m_match_list (found st)). good_match env m)"
    using less.prems by (auto simp: scan_inv_def)
  show ?case
  proof (cases "start_offset st < env_size env")
    case False
    then show ?thesis using fin by (subst scan_loop.simps) simp
  next
    case True
    obtain f where f: "scan_body env st = Some f"
        "case f of Stop x st' \<Rightarrow> x = None \<and> found st' = found st
         | Continue st' \<Rightarrow> scan_inv env st' \<and> scan_measure env st' < scan_measure env st"
      using scan_body_inv[OF assms(1-3) less.prems] by blast
    show ?thesis
    proof (cases f)
      case (Continue st')
      then show ?thesis using less.hyps[of st'] f True by (subst scan_loop.simps) simp
    next
      case (Stop x st')
      then show ?thesis using fin f True by (subst scan_loop.simps) simp
    qed
  qed
qed

subsection \<open>The contract holds for every configuration of the scanner\<close>

text \<open>
  A configured scan: line counting resolved for the CPU, the file in a padded buffer, and either the
  regex library as \<open>regex_engine\<close> describes it or a literal without newlines or zero bytes; a literal
  prefix is of the same kind and a table in use is not empty.
\<close>

definition plain :: "string \<Rightarrow> bool" where
  "plain pat \<longleftrightarrow> pat \<noteq> [] \<and> NUL \<notin> set pat \<and> NL \<notin> set pat"

definition scan_setup :: "scan_env \<Rightarrow> bool" where
  "scan_setup env \<longleftrightarrow>
     (let sc = env_scanner env in
        (\<exists>a b c. env_count env = resolve_CountLinesSinceLastMatch a b c)
        \<and> padded (env_mem env) (env_data env + env_size env)
        \<and> (if m_use_literal sc then plain (m_literal_search_string sc)
           else regex_engine (env_mem env) (env_data env) (env_size env) (env_match env))
        \<and> (m_use_lit_prefix sc \<longrightarrow> plain (m_literal_search_string sc))
        \<and> (m_use_first_code_unit_table sc \<longrightarrow> 0 < m_end_fpcu_table (m_tables sc)))"

lemma setup_counts: "scan_setup env \<Longrightarrow> counts_ok env"
  by (auto simp: scan_setup_def counts_ok_def Let_def lc.counts)

text \<open>A literal attempt, whatever the CPU.\<close>

lemma literal_attempt:
  assumes "scan_setup env" and "m_use_literal (env_scanner env)" and "t \<le> env_size env"
  shows "attempt env opt t = Some (LiteralMatch_default (env_mem env)
           (m_literal_search_string (env_scanner env)) (env_data env) (env_size env) t)"
  using assms LiteralMatch_versions unfolding attempt_def scan_setup_def Let_def plain_def by auto

lemma literal_default_cases:
  assumes "t \<le> n"
  obtains (hit) s where "LiteralMatch_default mem pat fd n t = (1, s, s + length pat)"
      "t \<le> s" "s + length pat \<le> n" "mem_occurs mem (fd + s) pat"
      "\<And>a. t \<le> a \<Longrightarrow> a < s \<Longrightarrow> \<not> mem_occurs mem (fd + a) pat"
    | (miss) "LiteralMatch_default mem pat fd n t = (-1, n, n)"
      "\<And>a. t \<le> a \<Longrightarrow> a + length pat \<le> n \<Longrightarrow> \<not> mem_occurs mem (fd + a) pat"
proof -
  from libc_search.literal_match_spec[OF TrueI assms, of fd pat mem]
  obtain rc s e where r: "LiteralMatch_default mem pat fd n t = (rc, s, e)"
      "if rc = 1 then t \<le> s \<and> e = s + length pat \<and> e \<le> n \<and> mem_occurs mem (fd + s) pat
            \<and> (\<forall>a. t \<le> a \<and> a < s \<longrightarrow> \<not> mem_occurs mem (fd + a) pat)
        else rc = -1 \<and> s = n \<and> e = n \<and> (\<forall>a. t \<le> a \<and> a + length pat \<le> n \<longrightarrow> \<not> mem_occurs mem (fd + a) pat)"
    by (auto simp: LiteralMatch_default_def)
  show thesis
  proof (cases "rc = 1")
    case True
    then show thesis using r hit by simp
  next
    case False
    then show thesis using r miss by simp
  qed
qed

lemma occurrence_one_line:
  assumes "mem_occurs mem (fd + s) pat" and "NL \<notin> set pat"
  shows "callout_handler mem fd s (s + length pat) = 0"
proof (cases "mem_chr mem (fd + s) NL (length pat)")
  case (Some a)
  from mem_chr_Some[OF this] have "fd + s \<le> a" "a < fd + s + length pat" "mem a = NL" by auto
  moreover define k where "k = a - (fd + s)"
  ultimately have "mem (fd + s + k) = NL" "k < length pat" by auto
  then have "pat ! k = NL" "k < length pat" using assms(1) by (auto simp: mem_occurs_def)
  then show ?thesis using assms(2) nth_mem by metis
qed (simp add: callout_handler_def)

lemma setup_attempts:
  assumes "scan_setup env"
  shows "attempts_ok env"
  unfolding attempts_ok_def
proof (intro allI impI)
  fix opt t
  assume t: "t \<le> env_size env"
  show "\<exists>rc s e. attempt env opt t = Some (rc, s, e) \<and> (rc = -1 \<or> rc > 0)
           \<and> (rc > 0 \<longrightarrow> t \<le> s \<and> s \<le> e \<and> e \<le> env_size env \<and> (opt \<longrightarrow> t < e)
                 \<and> callout_handler (env_mem env) (env_data env) s e = 0)"
  proof (cases "m_use_literal (env_scanner env)")
    case True
    define pat where "pat = m_literal_search_string (env_scanner env)"
    have pat: "pat \<noteq> []" "NL \<notin> set pat"
      using assms True by (auto simp: scan_setup_def plain_def pat_def Let_def)
    note a = literal_attempt[OF assms True t, of opt, folded pat_def]
    show ?thesis
    proof (cases rule: literal_default_cases[OF t, where mem = "env_mem env" and pat = pat and fd = "env_data env",
          case_names hit miss])
      case (hit s)
      have "t < s + length pat" using pat(1) hit(2) by (cases pat) auto
      then show ?thesis using a hit occurrence_one_line[OF hit(4) pat(2)] by simp
    qed (simp add: a)
  next
    case False
    have eng: "regex_engine (env_mem env) (env_data env) (env_size env) (env_match env)"
      using assms False by (simp add: scan_setup_def Let_def)
    note code = regex_engine.code[OF eng] and range = regex_engine.range[OF eng]
      and anchored = regex_engine.anchored[OF eng] and one_line = regex_engine.one_line[OF eng]
    obtain rc s e where m: "env_match env t opt = (rc, s, e)" by (cases "env_match env t opt")
    show ?thesis
      using code[OF m] range[OF t m] anchored[OF t, of rc s e] one_line[OF t m] m False
      by (cases opt) (auto simp: attempt_def)
  qed
qed

lemma FindFirstPossibleCodeUnit_some_hit:
  assumes "0 < m_end_fpcu_table t"
  shows "some_hit (\<lambda>c. c \<in> set (m_compiled_cu_bitmap t)) mem b (b + len)
           (FindFirstPossibleCodeUnit_default t mem b len)"
proof (cases "m_end_fpcu_table t = 1")
  case True
  then have "first_hit (\<lambda>c. c \<in> set (m_compiled_cu_bitmap t)) mem b (b + len)
           (FindFirstPossibleCodeUnit_default t mem b len)"
    by (intro FindFirstPossibleCodeUnit_first_hit) simp_all
  then show ?thesis by (auto simp: first_hit_def some_hit_def)
next
  case False
  then show ?thesis using assms find_first_of_some_hit by (simp add: FindFirstPossibleCodeUnit_default_def)
qed

lemma find_first_in_ranges_bounds:
  "b \<le> find_first_in_ranges_sse4_2 t mem b len \<and> find_first_in_ranges_sse4_2 t mem b len \<le> b + len"
  using table_search_some_hit[OF compares_range, of "m_compiled_range_bitmap t" mem b len]
  by (simp add: find_first_in_ranges_sse4_2_def some_hit_def)

text \<open>The three prefilters in one: what \<open>skip_ahead\<close> returns.\<close>

lemma skip_ahead_prefix:
  assumes "scan_setup env" and "m_use_lit_prefix (env_scanner env)" and "t \<le> env_size env"
  defines "pat \<equiv> m_literal_search_string (env_scanner env)"
  shows "skip_ahead env t = Some (case LiteralMatch_default (env_mem env) pat (env_data env) (env_size env) t of
            (rc, s, e) \<Rightarrow> if rc = 1 then Some s else None)"
proof -
  have "resolve_LiteralMatch (env_sse4_2 env) (env_mem env) pat (env_data env) (env_size env) t =
          Some (LiteralMatch_default (env_mem env) pat (env_data env) (env_size env) t)"
    using assms LiteralMatch_versions unfolding scan_setup_def Let_def plain_def by auto
  then show ?thesis
    using assms(2)
    by (cases rule: literal_default_cases[OF assms(3), where mem = "env_mem env" and pat = pat
          and fd = "env_data env", case_names hit miss]) (simp_all add: skip_ahead_def pat_def Let_def)
qed

lemma setup_skips:
  assumes "scan_setup env"
  shows "skips_ok env"
  unfolding skips_ok_def
proof (intro allI impI)
  fix t
  assume t: "t \<le> env_size env"
  let ?sc = "env_scanner env"
  show "\<exists>r. skip_ahead env t = Some r \<and> (\<forall>off. r = Some off \<longrightarrow> t \<le> off \<and> off \<le> env_size env)"
  proof (cases "m_use_lit_prefix ?sc")
    case True
    show ?thesis
      unfolding skip_ahead_prefix[OF assms True t]
      by (cases rule: literal_default_cases[OF t, where mem = "env_mem env"
            and pat = "m_literal_search_string ?sc" and fd = "env_data env", case_names hit miss]) auto
  next
    case False
    have "env_data env + t + (env_size env - t) = env_data env + env_size env" using t by simp
    moreover have "0 < m_end_fpcu_table (m_tables ?sc)" if "m_use_first_code_unit_table ?sc"
      using assms that by (simp add: scan_setup_def Let_def)
    ultimately show ?thesis
      using False t FindFirstPossibleCodeUnit_some_hit[of "m_tables ?sc" "env_mem env" "env_data env + t" "env_size env - t"]
        find_first_in_ranges_bounds[of "env_data env + t" "m_tables ?sc" "env_mem env" "env_size env - t"]
      by (auto simp: skip_ahead_def some_hit_def Let_def)
  qed
qed

lemma scan_start_inv: "m_match_list ml = [] \<Longrightarrow> scan_inv env (scan_start env ml)"
  by (auto simp: scan_inv_def scan_start_def line_at_def intro: exI[of _ 0])

subsection \<open>No matching line is missed\<close>

text \<open>A match starts at an offset when an unrestricted attempt there finds one there.\<close>

definition starts :: "scan_env \<Rightarrow> nat \<Rightarrow> bool" where
  "starts env s \<longleftrightarrow> (\<exists>rc e. attempt env False s = Some (rc, s, e) \<and> rc > 0)"

definition leftmost_ok :: "scan_env \<Rightarrow> bool" where
  "leftmost_ok env \<longleftrightarrow>
     (\<forall>opt t rc s e q. t \<le> q \<and> q < s \<and> s \<le> env_size env \<and> attempt env opt t = Some (rc, s, e) \<and> rc > 0
         \<longrightarrow> \<not> starts env q)
   \<and> (\<forall>t s e q. t \<le> q \<and> q \<le> env_size env \<and> attempt env False t = Some (-1, s, e) \<longrightarrow> \<not> starts env q)"

definition skips_sound :: "scan_env \<Rightarrow> bool" where
  "skips_sound env \<longleftrightarrow>
     (\<forall>t r s. t \<le> s \<and> s \<le> env_size env \<and> skip_ahead env t = Some r
         \<and> (\<forall>off. r = Some off \<longrightarrow> s < off) \<longrightarrow> \<not> starts env s)"

text \<open>
  What the prefilter in use promises about every match of the pattern: it starts with the literal
  prefix, with a byte of the code unit table, or with a byte of the range table.
\<close>

definition prefilter_law :: "scan_env \<Rightarrow> bool" where
  "prefilter_law env \<longleftrightarrow>
     (let sc = env_scanner env; mem = env_mem env; fd = env_data env; n = env_size env;
          pat = m_literal_search_string sc; t = m_tables sc in
        \<forall>s \<le> n. starts env s \<and> \<not> m_use_literal sc \<longrightarrow>
          (m_use_lit_prefix sc \<longrightarrow> s + length pat \<le> n \<and> mem_occurs mem (fd + s) pat)
          \<and> (m_use_first_code_unit_table sc \<longrightarrow> s < n \<and> of_char (mem (fd + s)) \<in> set (m_compiled_cu_bitmap t))
          \<and> (m_use_range_pair_table sc \<longrightarrow> s < n \<and> in_ranges (m_compiled_range_bitmap t) (of_char (mem (fd + s)))))"

text \<open>The table in use fits one vector: beyond that a search can skip a match.\<close>

definition short_tables :: "scanner \<Rightarrow> bool" where
  "short_tables sc \<longleftrightarrow>
     (m_use_first_code_unit_table sc \<longrightarrow> 0 < m_end_fpcu_table (m_tables sc) \<and> m_end_fpcu_table (m_tables sc) \<le> 16)
   \<and> (m_use_range_pair_table sc \<longrightarrow> 0 < m_end_ranges_table (m_tables sc)
         \<and> m_end_ranges_table (m_tables sc) \<le> 16 \<and> even (m_end_ranges_table (m_tables sc)))"

lemma starts_literal:
  assumes "scan_setup env" and "m_use_literal (env_scanner env)" and "q \<le> env_size env"
    and "starts env q"
  shows "mem_occurs (env_mem env) (env_data env + q) (m_literal_search_string (env_scanner env))
    \<and> q + length (m_literal_search_string (env_scanner env)) \<le> env_size env"
  using assms(4) literal_attempt[OF assms(1,2,3), of False]
  by (cases rule: literal_default_cases[OF assms(3), where mem = "env_mem env" and fd = "env_data env"
        and pat = "m_literal_search_string (env_scanner env)", case_names hit miss])
     (auto simp: starts_def)

lemma setup_leftmost:
  assumes "scan_setup env"
  shows "leftmost_ok env"
proof (cases "m_use_literal (env_scanner env)")
  case True
  let ?pat = "m_literal_search_string (env_scanner env)"
  note att = literal_attempt[OF assms True] and st = starts_literal[OF assms True]
  show ?thesis
    unfolding leftmost_ok_def
  proof (intro conjI allI impI)
    fix opt t rc s e q
    assume a: "t \<le> q \<and> q < s \<and> s \<le> env_size env \<and> attempt env opt t = Some (rc, s, e) \<and> rc > 0"
    then have t: "t \<le> env_size env" by simp
    show "\<not> starts env q"
      using a att[OF t, of opt] st[of q]
      by (cases rule: literal_default_cases[OF t, where mem = "env_mem env" and fd = "env_data env"
        and pat = ?pat, case_names hit miss]) auto
  next
    fix t s e q
    assume a: "t \<le> q \<and> q \<le> env_size env \<and> attempt env False t = Some (-1, s, e)"
    then have t: "t \<le> env_size env" by simp
    show "\<not> starts env q"
      using a att[OF t, of False] st[of q]
      by (cases rule: literal_default_cases[OF t, where mem = "env_mem env" and fd = "env_data env"
        and pat = ?pat, case_names hit miss]) auto
  qed
next
  case False
  have eng: "regex_engine (env_mem env) (env_data env) (env_size env) (env_match env)"
    using assms False by (simp add: scan_setup_def Let_def)
  show ?thesis
    unfolding leftmost_ok_def
  proof (intro conjI allI impI)
    fix opt t rc s e q
    assume a: "t \<le> q \<and> q < s \<and> s \<le> env_size env \<and> attempt env opt t = Some (rc, s, e) \<and> rc > 0"
    then have m: "env_match env t opt = (rc, s, e)" using False by (simp add: attempt_def)
    show "\<not> starts env q"
    proof (cases opt)
      case True
      then show ?thesis using regex_engine.anchored[OF eng, of t rc s e] m a by simp
    next
      case opt: False
      then have "env_match env q False = (rc, s, e)"
        using regex_engine.leftmost[OF eng, of t q s rc e] m a by simp
      then show ?thesis using a False by (auto simp: starts_def attempt_def)
    qed
  next
    fix t s e q
    assume a: "t \<le> q \<and> q \<le> env_size env \<and> attempt env False t = Some (-1, s, e)"
    then have "fst (env_match env q False) = -1"
      using regex_engine.no_match[OF eng, of t q] False by (simp add: attempt_def)
    then show "\<not> starts env q" using False by (auto simp: starts_def attempt_def)
  qed
qed

lemma setup_skips_sound:
  assumes "scan_setup env" and "prefilter_law env" and "short_tables (env_scanner env)"
    and "\<not> m_use_literal (env_scanner env)"
  shows "skips_sound env"
  unfolding skips_sound_def
proof (intro allI impI notI)
  fix t r s
  let ?sc = "env_scanner env"
  let ?t = "m_tables ?sc" and ?mem = "env_mem env" and ?fd = "env_data env" and ?n = "env_size env"
  assume a: "t \<le> s \<and> s \<le> ?n \<and> skip_ahead env t = Some r \<and> (\<forall>off. r = Some off \<longrightarrow> s < off)"
    and st: "starts env s"
  then have t: "t \<le> ?n" and ts: "t \<le> s" "s \<le> ?n" and r: "skip_ahead env t = Some r"
    and rs: "\<And>off. r = Some off \<Longrightarrow> s < off" by auto
  have law: "m_use_lit_prefix ?sc \<Longrightarrow> s + length (m_literal_search_string ?sc) \<le> ?n
        \<and> mem_occurs ?mem (?fd + s) (m_literal_search_string ?sc)"
    "m_use_first_code_unit_table ?sc \<Longrightarrow> s < ?n \<and> of_char (?mem (?fd + s)) \<in> set (m_compiled_cu_bitmap ?t)"
    "m_use_range_pair_table ?sc \<Longrightarrow> s < ?n \<and> in_ranges (m_compiled_range_bitmap ?t) (of_char (?mem (?fd + s)))"
    using assms(2,4) ts(2) st by (auto simp: prefilter_law_def Let_def)
  have e: "?fd + t + (?n - t) = ?fd + ?n" using t by simp
  consider (prefix) "m_use_lit_prefix ?sc" | (table) "\<not> m_use_lit_prefix ?sc" "m_use_first_code_unit_table ?sc"
    | (range) "\<not> m_use_lit_prefix ?sc" "\<not> m_use_first_code_unit_table ?sc" "m_use_range_pair_table ?sc"
    | (plain) "\<not> m_use_lit_prefix ?sc" "\<not> m_use_first_code_unit_table ?sc" "\<not> m_use_range_pair_table ?sc"
    by blast
  then show False
  proof cases
    case prefix
    then show False
      using law(1)[OF prefix] skip_ahead_prefix[OF assms(1) prefix t] r rs ts
      by (cases rule: literal_default_cases[OF t, where mem = ?mem and fd = ?fd
          and pat = "m_literal_search_string ?sc", case_names hit miss]) auto
  next
    case table
    define r' where "r' = FindFirstPossibleCodeUnit_default ?t ?mem (?fd + t) (?n - t)"
    have "0 < m_end_fpcu_table ?t \<and> m_end_fpcu_table ?t \<le> 16"
      using assms(3) table(2) by (simp add: short_tables_def)
    from cu_filter.search_first_hit[OF this, of ?mem "?fd + t" "?n - t"]
    have "first_hit (\<lambda>c. c \<in> set (m_compiled_cu_bitmap ?t)) ?mem (?fd + t) (?fd + ?n) r'"
      by (simp only: e r'_def)
    moreover have "r = (if r' \<noteq> ?fd + ?n then Some (r' - ?fd) else None)"
      using r table unfolding skip_ahead_def Let_def r'_def by (auto split: if_splits)
    ultimately show False
      using law(2)[OF table(2)] ts rs[of "r' - ?fd"] by (auto simp: first_hit_def split: if_splits)
  next
    case range
    define r' where "r' = find_first_in_ranges_sse4_2 ?t ?mem (?fd + t) (?n - t)"
    have "0 < m_end_ranges_table ?t \<and> m_end_ranges_table ?t \<le> 16 \<and> even (m_end_ranges_table ?t)"
      using assms(3) range(3) by (simp add: short_tables_def)
    from range_filter.search_first_hit[OF this, of ?mem "?fd + t" "?n - t"]
    have "first_hit (in_ranges (m_compiled_range_bitmap ?t)) ?mem (?fd + t) (?fd + ?n) r'"
      by (simp only: e r'_def)
    moreover have "r = (if r' \<noteq> ?fd + ?n then Some (r' - ?fd) else None)"
      using r range unfolding skip_ahead_def Let_def r'_def by (auto split: if_splits)
    ultimately show False
      using law(3)[OF range(3)] ts rs[of "r' - ?fd"] by (auto simp: first_hit_def split: if_splits)
  next
    case plain
    then have "r = Some t" using r by (simp add: skip_ahead_def Let_def)
    then show False using rs ts by simp
  qed
qed

text \<open>Offsets with no newline between them are on the same line.\<close>

lemma same_line:
  assumes "s \<le> q" and "\<And>a. s \<le> a \<Longrightarrow> a < q \<Longrightarrow> env_mem env (env_data env + a) \<noteq> NL"
  shows "line_at env q = line_at env s"
proof -
  have "newlines (env_mem env) (env_data env + s) (env_data env + q) = 0"
  proof (rule newlines_none)
    fix p assume "env_data env + s \<le> p" "p < env_data env + q"
    then show "env_mem env p \<noteq> NL" using assms(2)[of "p - env_data env"] by auto
  qed
  moreover have "newlines (env_mem env) (env_data env) (env_data env + q) =
      newlines (env_mem env) (env_data env) (env_data env + s)
      + newlines (env_mem env) (env_data env + s) (env_data env + q)"
    using assms(1) by (intro newlines_split) simp_all
  ultimately show ?thesis by (simp add: line_at_def)
qed

lemma inside_match_same_line:
  assumes "callout_handler (env_mem env) (env_data env) s e = 0" and "s \<le> q" and "q \<le> e"
  shows "line_at env q = line_at env s"
proof (rule same_line[OF assms(2)])
  fix a assume a: "s \<le> a" "a < q"
  have "mem_chr (env_mem env) (env_data env + s) NL (e - s) = None"
    using assms(1) by (auto simp: callout_handler_def split: option.splits)
  from mem_chr_None[OF this, of "env_data env + a"] a assms(3)
  show "env_mem env (env_data env + a) \<noteq> NL" by auto
qed

text \<open>
  After an empty match the scan steps over a byte and over UTF-8 continuation bytes. Where the match was at the
  end of a line, these are the continuation bytes the next line begins with: a match that starts there is not seen.
\<close>

definition continuation :: "char \<Rightarrow> bool" where
  "continuation b \<longleftrightarrow> (of_char b AND (0xC0 :: 8 word)) = 0x80"

definition empty_match :: "scan_env \<Rightarrow> nat \<Rightarrow> bool" where
  "empty_match env p \<longleftrightarrow> (\<exists>opt. \<exists>t \<le> p. \<exists>rc. attempt env opt t = Some (rc, p, p) \<and> rc > 0)"

definition stepped_over :: "scan_env \<Rightarrow> nat \<Rightarrow> bool" where
  "stepped_over env q \<longleftrightarrow> q < env_size env \<and>
     (\<exists>p < q. env_mem env (env_data env + p) = NL \<and> empty_match env p
        \<and> (\<forall>a \<in> {p<..q}. continuation (env_mem env (env_data env + a))))"

text \<open>
  The completeness invariant: every line on which a match starts before the next attempt, other than at an offset
  that may be missed, is in the list; after an empty match also the line the scan stands on; after an attempt at the end of the
  file all of them.
\<close>

definition lines_found :: "scan_state \<Rightarrow> nat set" where
  "lines_found st = m_line_number ` set (m_match_list (found st))"

definition covered :: "(nat \<Rightarrow> bool) \<Rightarrow> scan_env \<Rightarrow> scan_state \<Rightarrow> bool" where
  "covered missed env st \<longleftrightarrow>
     (\<forall>s \<le> env_size env. starts env s \<and> \<not> missed s
         \<and> (s < ov1 st \<or> s = ov1 st \<and> ov0 st = ov1 st \<or> env_size env \<le> start_offset st)
       \<longrightarrow> line_at env s \<in> lines_found st)
     \<and> (ov0 st = ov1 st \<longrightarrow> line_at env (ov1 st) \<in> lines_found st \<and> empty_match env (ov1 st))
     \<and> (prev_lineno st = 0 \<or> prev_lineno st \<in> lines_found st)
     \<and> (m_use_literal (env_scanner env) \<longrightarrow> ov0 st \<noteq> ov1 st)"

definition all_found :: "(nat \<Rightarrow> bool) \<Rightarrow> scan_env \<Rightarrow> scan_state \<Rightarrow> bool" where
  "all_found missed env st \<longleftrightarrow> (\<forall>s \<le> env_size env. starts env s \<and> \<not> missed s \<longrightarrow> line_at env s \<in> lines_found st)"

lemma skipped_same_line:
  assumes "\<not> stepped_over env q" and "p < env_size env" and "p \<le> q"
    and "q < skip_continuation env (p + 1)" and "empty_match env p"
  shows "line_at env q = line_at env p"
proof (cases "q = p")
  case False
  define l where "l = [env_data env + (p + 1)..<env_data env + env_size env]"
  define Q where "Q a \<longleftrightarrow> (of_char (env_mem env a) AND (0xC0 :: 8 word)) \<noteq> 0x80" for a
  have sk: "skip_continuation env (p + 1) = p + 1 + find_if Q l"
    by (simp add: skip_continuation_def l_def Q_def)
  have cont: "\<not> Q (env_data env + a)" if "p + 1 \<le> a" "a < skip_continuation env (p + 1)" for a
  proof -
    have "a - (p + 1) < find_if Q l" using that sk by linarith
    moreover have "find_if Q l \<le> length l" by simp
    ultimately have "l ! (a - (p + 1)) = env_data env + a" using that(1) by (simp add: l_def)
    then show ?thesis using find_if_miss[OF \<open>a - (p + 1) < find_if Q l\<close>] by simp
  qed
  have c: "continuation (env_mem env (env_data env + a))" if "p < a" "a \<le> q" for a
    using cont[of a] that assms(4) by (simp add: Q_def continuation_def)
  have NLQ: "Q a" if "env_mem env a = NL" for a
  proof -
    have "(of_char NL :: 8 word) AND 0xC0 \<noteq> 0x80" by code_simp
    then show ?thesis by (simp add: Q_def that)
  qed
  show ?thesis
  proof (rule same_line[OF assms(3)])
    fix a assume a: "p \<le> a" "a < q"
    show "env_mem env (env_data env + a) \<noteq> NL"
    proof (cases "a = p")
      case True
      have "p < q" using assms(3) False by simp
      moreover have "q < env_size env"
        using assms(2,4) skip_continuation_bounds[of "p + 1" env] by simp
      ultimately show ?thesis using assms(1,5) c True by (auto simp: stepped_over_def)
    next
      case False
      then show ?thesis using cont[of a] NLQ a assms(4) by auto
    qed
  qed
qed simp

lemma literal_not_empty:
  assumes "scan_setup env" and "m_use_literal (env_scanner env)" and "t \<le> env_size env"
    and "attempt env opt t = Some (rc, s, e)" and "rc > 0"
  shows "s < e"
proof -
  have "m_literal_search_string (env_scanner env) \<noteq> []"
    using assms(1,2) by (simp add: scan_setup_def plain_def Let_def)
  then show ?thesis
    using literal_attempt[OF assms(1-3), of opt] assms(4,5)
    by (cases rule: literal_default_cases[OF assms(3), where mem = "env_mem env" and fd = "env_data env"
        and pat = "m_literal_search_string (env_scanner env)", case_names hit miss]) auto
qed

lemma scan_body_covered:
  assumes "scan_setup env" and "m_use_literal (env_scanner env) \<or> skips_sound env"
    and "scan_inv env st" and "covered missed env st"
    and "ov0 st = ov1 st \<and> (\<exists>s e. attempt env True (ov1 st) = Some (-1, s, e)) \<longrightarrow> (\<forall>q. stepped_over env q \<longrightarrow> missed q)"
  shows "\<exists>f. scan_body env st = Some f \<and>
     (case f of Stop x st' \<Rightarrow> all_found missed env st' | Continue st' \<Rightarrow> covered missed env st')"
proof -
  let ?n = "env_size env"
  let ?opt = "ov0 st = ov1 st"
  let ?line = "line_at env"
  define visible where "visible q \<longleftrightarrow> starts env q \<and> \<not> missed q" for q
  have ov1: "ov1 st \<le> ?n" using assms(3) by (simp add: scan_inv_def)
  have before: "?line q \<in> lines_found st" if "q \<le> ?n" "visible q" "q < ov1 st" for q
    using assms(4) that by (auto simp: covered_def visible_def)
  have here: "?line (ov1 st) \<in> lines_found st" if ?opt
    using assms(4) that by (auto simp: covered_def visible_def)
  note left = setup_leftmost[OF assms(1), unfolded leftmost_ok_def]
  show ?thesis
  proof (cases rule: scan_body_cases[OF setup_attempts[OF assms(1)] setup_skips[OF assms(1)] ov1,
      case_names at_end skipped attempted])
    case at_end
    have "?line q \<in> lines_found st" if "q \<le> ?n" "visible q" for q
      using before[OF that] here that at_end by (cases "q = ?n") auto
    then show ?thesis using at_end(3) by (simp add: all_found_def visible_def lines_found_def)
  next
    case skipped
    have "?line q \<in> lines_found st" if q: "q \<le> ?n" "visible q" for q
    proof (cases "q < ov1 st")
      case False
      then have "\<not> starts env q" using assms(2) skipped(2,3) q(1) unfolding skips_sound_def
        by (metis linorder_not_le option.distinct(1))
      then show ?thesis using q(2) by (simp add: visible_def)
    qed (use before[OF q] in simp)
    then show ?thesis using skipped(4) by (simp add: all_found_def visible_def lines_found_def)
  next
    case (attempted off rc s e)
    let ?st = "st\<lparr>start_offset := off\<rparr>"
    have before_off: "?line q \<in> lines_found st" if q: "q \<le> ?n" "visible q" "q < off" for q
    proof (cases "q < ov1 st")
      case False
      then have "off \<noteq> ov1 st" using q(3) by simp
      then have sk: "skip_ahead env (ov1 st) = Some (Some off)" "skips_sound env"
        using attempted(3) assms(2) by auto
      have "\<not> starts env q"
        using sk(2)[unfolded skips_sound_def, rule_format, of "ov1 st" q "Some off"] sk(1) False q(1,3) by auto
      then show ?thesis using q(2) by (simp add: visible_def)
    qed (use before[OF q(1,2)] in simp)
    show ?thesis
    proof (cases "rc > 0")
      case True
      note m = attempted(7)[OF True]
      have inv: "scan_inv env ?st" using assms(3) by (simp add: scan_inv_def)
      obtain st' where st': "add_match env s e (?st\<lparr>ov0 := s, ov1 := e\<rparr>) = Continue st'"
          "ov0 st' = s" "ov1 st' = e" "start_offset st' = off" "prev_lineno st' = ?line s"
          "lines_found st \<subseteq> lines_found st'" "?line s = prev_lineno st \<or> ?line s \<in> lines_found st'"
        using add_match_inv[OF setup_counts[OF assms(1)] inv, of s e ?opt off rc] m attempted(1,5) True
        by (auto simp: lines_found_def)
      have line_s: "?line s \<in> lines_found st'"
        using st'(6,7) assms(4) by (auto simp: covered_def line_at_def)
      have same: "?line q = ?line s" if "s \<le> q" "q \<le> e" for q
        using inside_match_same_line[of env s e q] m that by simp
      have new: "?line q \<in> lines_found st'"
        if q: "q \<le> ?n" "visible q" "q < e \<or> q = e \<and> s = e \<or> ?n \<le> off" for q
      proof -
        consider "q < off" | "off \<le> q" "q < s" | "s \<le> q" by linarith
        then show ?thesis
        proof cases
          case 1
          then show ?thesis using before_off[OF q(1,2)] st'(6) by auto
        next
          case 2
          have "starts env q" using q(2) by (simp add: visible_def)
          then show ?thesis using left attempted(5) True m 2 by (meson order_trans)
        next
          case 3
          then have "q \<le> e" using q m by auto
          then show ?thesis using same[OF 3] line_s by simp
        qed
      qed
      have "?line e \<in> lines_found st' \<and> empty_match env e" if "s = e"
        using line_s that attempted(5) m True by (auto simp: empty_match_def)
      moreover have "s \<noteq> e" if "m_use_literal (env_scanner env)"
        using literal_not_empty[OF assms(1) that attempted(2,5) True] by simp
      ultimately have "covered missed env st'"
        using st' line_s new unfolding covered_def by (auto simp: visible_def)
      moreover have "after_match env ?opt (rc, s, e) ?st = Continue st'"
        using True st'(1) by (simp add: after_match_def)
      ultimately show ?thesis using attempted(8) by simp
    next
      case False
      then have rc: "rc = -1" using attempted(6) by simp
      show ?thesis
      proof (cases ?opt)
        case False
        have "?line q \<in> lines_found st" if q: "q \<le> ?n" "visible q" for q
        proof (cases "q < off")
          case past: False
          have "attempt env False off = Some (-1, s, e)" using attempted(5) rc False by simp
          then have "\<not> starts env q" using conjunct2[OF left] q(1) past by (meson linorder_not_le)
          then show ?thesis using q(2) by (simp add: visible_def)
        qed (use before_off[OF q] in simp)
        then show ?thesis using attempted(8) rc False
          by (simp add: after_match_def all_found_def visible_def lines_found_def)
      next
        case True
        then have off: "off = ov1 st" "off < ?n" using attempted(4) by auto
        have nolit: "\<not> m_use_literal (env_scanner env)" using assms(4) True by (auto simp: covered_def visible_def)
        define off' where "off' = skip_continuation env (off + 1)"
        have sk: "off < off'" "off' \<le> ?n"
          using skip_continuation_bounds[of "off + 1" env] off(2) by (simp_all add: off'_def)
        have res: "after_match env ?opt (rc, s, e) ?st = Continue (?st\<lparr>ov1 := off'\<rparr>)"
          using rc True nolit by (simp add: after_match_def off'_def)
        have "?line q \<in> lines_found st" if q: "q \<le> ?n" "visible q" "q < off'" for q
        proof (cases "q < off")
          case False
          have "\<not> stepped_over env q" using assms(5) True attempted(5) off(1) rc q(2) by (auto simp: visible_def)
          moreover have "empty_match env off" using assms(4) True off(1) by (simp add: covered_def)
          ultimately have "?line q = ?line off"
            using skipped_same_line[OF _ off(2), of q] q(3) False by (simp add: off'_def)
          then show ?thesis using here True off(1) by simp
        qed (use before_off[OF q(1,2)] in simp)
        then have "covered missed env (?st\<lparr>ov1 := off'\<rparr>)"
          using assms(4) True off sk nolit by (auto simp: covered_def visible_def lines_found_def)
        then show ?thesis using attempted(8) res by simp
      qed
    qed
  qed
qed

lemma scan_loop_complete:
  assumes "scan_setup env" and "m_use_literal (env_scanner env) \<or> skips_sound env"
    and "scan_inv env st" and "covered (stepped_over env) env st"
  shows "\<exists>st'. scan_loop env st = Some (None, st') \<and> all_found (stepped_over env) env st'"
  using assms(3,4)
proof (induction "scan_measure env st" arbitrary: st rule: less_induct)
  case less
  show ?case
  proof (cases "start_offset st < env_size env")
    case False
    then have "all_found (stepped_over env) env st" using less.prems(2) by (auto simp: covered_def all_found_def)
    then show ?thesis using False by (subst scan_loop.simps) simp
  next
    case True
    obtain f where f: "scan_body env st = Some f"
        "case f of Stop x st' \<Rightarrow> x = None \<and> found st' = found st
         | Continue st' \<Rightarrow> scan_inv env st' \<and> scan_measure env st' < scan_measure env st"
      using scan_body_inv[OF setup_counts setup_attempts setup_skips less.prems(1)] assms(1) by blast
    have g: "case f of Stop x st' \<Rightarrow> all_found (stepped_over env) env st' | Continue st' \<Rightarrow> covered (stepped_over env) env st'"
      using scan_body_covered[OF assms(1,2) less.prems] f(1) by auto
    show ?thesis
    proof (cases f)
      case (Continue st')
      then show ?thesis using less.hyps[of st'] f g True by (subst scan_loop.simps) simp
    next
      case (Stop x st')
      then show ?thesis using f g True by (subst scan_loop.simps) simp
    qed
  qed
qed

lemma scan_start_covered:
  assumes "0 < env_size env"
  shows "covered missed env (scan_start env ml)"
  using assms by (simp add: covered_def scan_start_def SIZE_MAX_def)

subsection \<open>The analysis of the regex\<close>

text \<open>
  The documented meaning of the pattern information, and of a regex that begins with ordinary
  characters: every match starts with a byte of the bit map, with the single first code unit (when
  case matters), with the characters before the first metacharacter that cannot be optional.
\<close>

definition info_law :: "scan_env \<Rightarrow> pattern_info \<Rightarrow> bool \<Rightarrow> bool \<Rightarrow> string \<Rightarrow> bool" where
  "info_law env info ignore_case word_regexp regex \<longleftrightarrow>
     (\<forall>s \<le> env_size env. starts env s \<longrightarrow>
        (\<forall>bm. first_bitmap info = Some bm \<longrightarrow>
           s < env_size env \<and> of_char (env_mem env (env_data env + s)) \<in> bitmap_bytes bm)
      \<and> (first_bitmap info = None \<and> first_code_type info = 1 \<and> \<not> ignore_case \<longrightarrow>
           s < env_size env \<and> of_char (env_mem env (env_data env + s)) = first_code_unit info)
      \<and> (\<forall>k. \<not> ignore_case \<and> \<not> word_regexp \<and> k < length regex \<and> CHR ''|'' \<notin> set regex
            \<and> (\<forall>i < k. regex ! i \<notin> set metachars)
            \<and> (regex ! k \<in> set metachars \<longrightarrow> regex ! k \<notin> set ''?*{'') \<longrightarrow>
           s + k \<le> env_size env \<and> mem_occurs (env_mem env) (env_data env + s) (take k regex)))"

lemma analyze_literal_keeps:
  "m_tables (analyze_literal ic wr lit regex sc) = m_tables sc
   \<and> m_use_first_code_unit_table (analyze_literal ic wr lit regex sc) = m_use_first_code_unit_table sc
   \<and> m_use_range_pair_table (analyze_literal ic wr lit regex sc) = m_use_range_pair_table sc"
  by (simp add: analyze_literal_def Let_def)

lemma analyze_literal_result:
  assumes "\<not> m_use_literal sc" and "\<not> m_use_lit_prefix sc"
  shows "m_use_literal (analyze_literal ic wr lit regex sc) \<Longrightarrow>
      m_literal_search_string (analyze_literal ic wr lit regex sc) = regex"
    and "m_use_lit_prefix (analyze_literal ic wr lit regex sc) \<Longrightarrow>
      (\<exists>k. m_literal_search_string (analyze_literal ic wr lit regex sc) = take k regex
         \<and> k = GetLiteralPrefixLen regex \<and> k > 1 \<and> \<not> ic \<and> \<not> wr)"
  using assms by (auto simp: analyze_literal_def Let_def split: if_splits)

lemma empty_range_table:
  "m_end_fpcu_table (ConstructRangePairTable t) = 0 \<Longrightarrow> m_end_ranges_table (ConstructRangePairTable t) = 0"
  by (auto simp: ConstructRangePairTable_def m_end_fpcu_table_def m_end_ranges_table_def split: list.splits)

text \<open>The tables after the analysis, case by case.\<close>

lemma analyze_tables:
  fixes info ic bm sc
  defines "sc \<equiv> analyze_first_units info ic scanner_init"
  shows "m_use_first_code_unit_table sc \<Longrightarrow> first_bitmap info = Some bm \<Longrightarrow>
      set (m_compiled_cu_bitmap (m_tables sc)) = bitmap_bytes bm
      \<and> 0 < m_end_fpcu_table (m_tables sc) \<and> m_end_fpcu_table (m_tables sc) < m_end_ranges_table (m_tables sc)"
    and "m_use_first_code_unit_table sc \<Longrightarrow> first_bitmap info = None \<Longrightarrow>
      m_compiled_cu_bitmap (m_tables sc) = [first_code_unit info] \<and> first_code_type info = 1 \<and> \<not> ic"
    and "m_use_range_pair_table sc \<Longrightarrow>
      (\<exists>bm. first_bitmap info = Some bm \<and> {c. in_ranges (m_compiled_range_bitmap (m_tables sc)) c} = bitmap_bytes bm)
      \<and> 0 < m_end_ranges_table (m_tables sc) \<and> even (m_end_ranges_table (m_tables sc))
      \<and> m_end_ranges_table (m_tables sc) \<le> m_end_fpcu_table (m_tables sc)"
    and "\<not> m_use_literal sc" and "\<not> m_use_lit_prefix sc"
proof -
  define t where "t bm = ConstructRangePairTable (ConstructCodeUnitTable bm (m_tables scanner_init))" for bm
  have t: "set (m_compiled_cu_bitmap (t bm)) = bitmap_bytes bm"
    "{c. in_ranges (m_compiled_range_bitmap (t bm)) c} = bitmap_bytes bm" "even (m_end_ranges_table (t bm))" for bm
    using bitmap_tables[of bm "m_tables scanner_init"] unfolding t_def Let_def by blast+
  have empty: "m_end_fpcu_table (t bm) = 0 \<Longrightarrow> m_end_ranges_table (t bm) = 0" for bm
    unfolding t_def by (rule empty_range_table)
  have sc: "sc = (case first_bitmap info of
        Some bm \<Rightarrow> (if m_end_fpcu_table (t bm) > 0 \<and> m_end_fpcu_table (t bm) < m_end_ranges_table (t bm)
              then scanner_init\<lparr>m_tables := t bm, m_use_first_code_unit_table := True\<rparr>
              else if m_end_ranges_table (t bm) > 0 then scanner_init\<lparr>m_tables := t bm, m_use_range_pair_table := True\<rparr>
              else scanner_init\<lparr>m_tables := t bm\<rparr>)
      | None \<Rightarrow> (if first_code_type info = 1 \<and> \<not> ic
           then scanner_init\<lparr>m_tables := (m_tables scanner_init)\<lparr>m_compiled_cu_bitmap := [first_code_unit info]\<rparr>,
                   m_use_first_code_unit_table := True\<rparr>
           else scanner_init))"
    by (simp add: sc_def analyze_first_units_def t_def Let_def split: option.split)
  show "set (m_compiled_cu_bitmap (m_tables sc)) = bitmap_bytes bm
      \<and> 0 < m_end_fpcu_table (m_tables sc) \<and> m_end_fpcu_table (m_tables sc) < m_end_ranges_table (m_tables sc)"
    if "m_use_first_code_unit_table sc" "first_bitmap info = Some bm"
    using that t(1) by (auto simp: sc scanner_init_def split: if_splits)
  show "m_compiled_cu_bitmap (m_tables sc) = [first_code_unit info] \<and> first_code_type info = 1 \<and> \<not> ic"
    if "m_use_first_code_unit_table sc" "first_bitmap info = None"
    using that by (auto simp: sc scanner_init_def split: if_splits)
  show "(\<exists>bm. first_bitmap info = Some bm \<and> {c. in_ranges (m_compiled_range_bitmap (m_tables sc)) c} = bitmap_bytes bm)
      \<and> 0 < m_end_ranges_table (m_tables sc) \<and> even (m_end_ranges_table (m_tables sc))
      \<and> m_end_ranges_table (m_tables sc) \<le> m_end_fpcu_table (m_tables sc)"
    if "m_use_range_pair_table sc"
    using that t(2,3) empty by (auto simp: sc scanner_init_def not_less split: if_splits option.splits)
  show "\<not> m_use_literal sc" "\<not> m_use_lit_prefix sc"
    by (auto simp: sc scanner_init_def split: option.split)
qed

lemma analysis_sound:
  assumes sc: "env_scanner env = AnalyzeRegex info ic wr lit regex scanner_init"
    and law: "info_law env info ic wr regex" and plain: "plain regex"
    and cnt: "env_count env = resolve_CountLinesSinceLastMatch a b c"
    and pad: "padded (env_mem env) (env_data env + env_size env)"
    and eng: "m_use_literal (env_scanner env) \<or>
         regex_engine (env_mem env) (env_data env) (env_size env) (env_match env)"
  shows "scan_setup env" and "prefilter_law env"
    and "m_end_fpcu_table (m_tables (env_scanner env)) \<le> 16 \<Longrightarrow> short_tables (env_scanner env)"
proof -
  let ?sc = "env_scanner env" and ?one = "analyze_first_units info ic scanner_init"
  note keep = analyze_literal_keeps[of ic wr lit regex ?one]
  note res = analyze_literal_result[where sc = ?one and ic = ic and wr = wr and lit = lit and regex = regex,
      OF analyze_tables(4,5)]
  have s: "?sc = analyze_literal ic wr lit regex ?one" using sc by (simp add: AnalyzeRegex_def)
  have use: "m_tables ?sc = m_tables ?one" "m_use_first_code_unit_table ?sc = m_use_first_code_unit_table ?one"
    "m_use_range_pair_table ?sc = m_use_range_pair_table ?one"
    using keep s by simp_all
  note tabs = analyze_tables[of info ic, folded use]
  have pos: "0 < m_end_fpcu_table (m_tables ?sc)" if "m_use_first_code_unit_table ?sc"
    using that tabs(1,2) by (cases "first_bitmap info") (auto simp: m_end_fpcu_table_def)
  have pre: "\<exists>k. m_literal_search_string ?sc = take k regex \<and> k = GetLiteralPrefixLen regex \<and> k > 1 \<and> \<not> ic \<and> \<not> wr"
    if "m_use_lit_prefix ?sc"
    using res(2)[folded s] that by blast
  have plain_take: "plain (take k regex)" if "k > 1" for k
    using plain that by (auto simp: plain_def dest: in_set_takeD)
  show "scan_setup env"
    unfolding scan_setup_def Let_def
    using cnt pad eng pos pre plain plain_take res(1)[folded s] by (auto split: if_splits)
  show "prefilter_law env"
    unfolding prefilter_law_def Let_def
  proof (intro allI impI, elim conjE, intro conjI impI)
    fix q
    assume q: "q \<le> env_size env" "starts env q"
    note l = law[unfolded info_law_def, rule_format, OF q]
    {
      assume "m_use_lit_prefix ?sc"
      from pre[OF this] obtain k where k: "m_literal_search_string ?sc = take k regex"
        "GetLiteralPrefixLen regex = k" "k > 1" "\<not> ic" "\<not> wr" by auto
      have "q + k \<le> env_size env \<and> mem_occurs (env_mem env) (env_data env + q) (take k regex)"
        using l GetLiteralPrefixLen_spec[OF k(2,3)] k(4,5) by blast
      then show "q + length (m_literal_search_string ?sc) \<le> env_size env"
        "mem_occurs (env_mem env) (env_data env + q) (m_literal_search_string ?sc)"
        using min.cobounded2[of "length regex" k] unfolding k(1) length_take by linarith+
    }
    {
      assume u: "m_use_first_code_unit_table ?sc"
      show "q < env_size env" "of_char (env_mem env (env_data env + q)) \<in> set (m_compiled_cu_bitmap (m_tables ?sc))"
        using l tabs(1,2)[OF u] by (cases "first_bitmap info"; simp)+
    }
    {
      assume u: "m_use_range_pair_table ?sc"
      obtain bm where "first_bitmap info = Some bm"
          "{c. in_ranges (m_compiled_range_bitmap (m_tables ?sc)) c} = bitmap_bytes bm"
        using tabs(3)[OF u] by blast
      then show "q < env_size env" "in_ranges (m_compiled_range_bitmap (m_tables ?sc)) (of_char (env_mem env (env_data env + q)))"
        using l by auto
    }
  qed
  show "short_tables ?sc" if "m_end_fpcu_table (m_tables ?sc) \<le> 16"
    using that pos tabs(3) by (auto simp: short_tables_def)
qed

subsection \<open>An engine for literals\<close>

text \<open>
  The regex library on a quoted literal, written with the default literal search: leftmost occurrence,
  or with the two options set the occurrence at the start offset.
\<close>

definition literal_engine :: "memory \<Rightarrow> nat \<Rightarrow> nat \<Rightarrow> string \<Rightarrow> nat \<Rightarrow> bool \<Rightarrow> int \<times> nat \<times> nat" where
  "literal_engine mem fd n pat t opt =
     (if \<not> plain pat then (-1, n, n)
      else case LiteralMatch_default mem pat fd n t of (rc, s, e) \<Rightarrow>
             if opt \<and> s \<noteq> t then (-1, n, n) else (rc, s, e))"

lemma literal_engine_Some:
  assumes "literal_engine mem fd n pat t opt = (rc, s, e)" and "rc > 0" and "t \<le> n"
  shows "LiteralMatch_default mem pat fd n t = (1, s, s + length pat)" and "e = s + length pat" and "rc = 1"
    and "opt \<Longrightarrow> s = t" and "plain pat" and "t \<le> s" and "e \<le> n" and "mem_occurs mem (fd + s) pat"
    and "\<And>a. t \<le> a \<Longrightarrow> a < s \<Longrightarrow> \<not> mem_occurs mem (fd + a) pat"
  using assms
  by (cases rule: literal_default_cases[OF assms(3), where mem = mem and fd = fd and pat = pat,
        case_names hit miss]; auto simp: literal_engine_def split: if_splits)+

interpretation literal_re: regex_engine mem fd n "literal_engine mem fd n pat" for mem fd n pat
proof unfold_locales
  fix t opt rc s e
  assume m: "literal_engine mem fd n pat t opt = (rc, s, e)"
  show "rc = -1 \<or> rc > 0"
    using m by (auto simp: literal_engine_def LiteralMatch_default_def literal_result_def
        split: if_splits prod.splits option.splits)
  show "t \<le> s \<and> s \<le> e \<and> e \<le> n" if "t \<le> n" "rc > 0"
    using literal_engine_Some[OF m that(2,1)] by simp
  show "callout_handler mem fd s e = 0" if "t \<le> n" "rc > 0"
    using literal_engine_Some[OF m that(2,1)] occurrence_one_line[of mem fd s pat] by (simp add: plain_def)
next
  fix t rc s e
  assume m: "literal_engine mem fd n pat t True = (rc, s, e)" and h: "t \<le> n" "rc > 0"
  show "s = t \<and> t < e"
    using literal_engine_Some[OF m h(2,1)] by (cases pat) (auto simp: plain_def)
next
  fix t t' s rc e
  assume h: "t \<le> t'" "t' \<le> s" "literal_engine mem fd n pat t False = (rc, s, e)" "rc > 0" "s \<le> n"
  then have "t \<le> n" "t' \<le> n" by simp_all
  note l = literal_engine_Some[OF h(3,4) \<open>t \<le> n\<close>]
  show "literal_engine mem fd n pat t' False = (rc, s, e)"
  proof (cases rule: literal_default_cases[OF \<open>t' \<le> n\<close>, where mem = mem and fd = fd and pat = pat,
        case_names hit miss])
    case (hit q)
    then have "q = s" using l(6-9) h(1,2) by (metis linorder_neqE_nat order_trans)
    then show ?thesis using hit(1) l by (simp add: literal_engine_def)
  next
    case miss
    then show ?thesis using l(2,7,8) h(2) by auto
  qed
next
  fix t t'
  assume h: "t \<le> t'" "t' \<le> n" "fst (literal_engine mem fd n pat t False) = -1"
  then have "t \<le> n" by simp
  show "fst (literal_engine mem fd n pat t' False) = -1"
    using h
    by (cases rule: literal_default_cases[OF \<open>t \<le> n\<close>, where mem = mem and fd = fd and pat = pat,
          case_names hit miss];
        cases rule: literal_default_cases[OF h(2), where mem = mem and fd = fd and pat = pat,
          case_names hit miss]) (auto simp: literal_engine_def)
qed

subsection \<open>The empty literal\<close>

definition stuck :: "scan_env \<Rightarrow> scan_state \<Rightarrow> bool" where
  "stuck env st \<longleftrightarrow> start_offset st = 0 \<and> ov1 st = 0 \<and> line_no st = 1 \<and> prev_lineno_search_end st = env_data env"

lemma empty_literal_attempt:
  assumes "m_use_literal (env_scanner env)" and "m_literal_search_string (env_scanner env) = []"
  shows "attempt env opt 0 = Some (1, 0, 0)"
proof -
  have "LiteralMatch_default mem [] fd n 0 = (1, 0, 0)" for mem fd n
    by (cases rule: literal_default_cases[of 0 n, where mem = mem and fd = fd and pat = "[]",
          case_names hit miss]) (auto simp: mem_occurs_def)
  then show ?thesis
    using assms by (simp add: attempt_def resolve_LiteralMatch_def LiteralMatch_sse4_2_def LiteralMatch_default_def)
qed

lemma stuck_body:
  assumes "m_use_literal (env_scanner env)" and "m_literal_search_string (env_scanner env) = []"
    and "counts_ok env" and "0 < env_size env" and "stuck env st"
  shows "\<exists>st'. scan_body env st = Some (Continue st') \<and> stuck env st'"
proof -
  let ?opt = "ov0 st = ov1 st"
  have "scan_body env st = Some (after_match env ?opt (1, 0, 0) (st\<lparr>start_offset := 0\<rparr>))"
    using assms(1,4,5) empty_literal_attempt[OF assms(1,2)]
    by (auto simp: scan_body_attempt stuck_def Let_def)
  moreover have "env_count env (env_mem env) (env_data env) (env_data env) = 0"
    using assms(3) by (simp add: counts_ok_def)
  moreover obtain m where "Match_ctor (file_bytes (env_mem env) (env_data env) (env_size env)) 0 0 1 = Inr m"
    by (simp add: Match_ctor_eq)
  ultimately show ?thesis
    using assms(5) by (auto simp: after_match_def add_match_def stuck_def Let_def)
qed

lemma stuck_never_returns:
  "scan_loop env st = Some r \<Longrightarrow> \<not> (m_use_literal (env_scanner env)
      \<and> m_literal_search_string (env_scanner env) = [] \<and> counts_ok env \<and> 0 < env_size env \<and> stuck env st)"
proof (rule scan_loop.raw_induct[where P = "\<lambda>env st _. \<not> (m_use_literal (env_scanner env)
      \<and> m_literal_search_string (env_scanner env) = [] \<and> counts_ok env \<and> 0 < env_size env \<and> stuck env st)"],
    goal_cases)
  case (1 scan_loop env st r)
  show ?case
  proof
    assume h: "m_use_literal (env_scanner env) \<and> m_literal_search_string (env_scanner env) = [] \<and> counts_ok env
        \<and> 0 < env_size env \<and> stuck env st"
    then obtain st' where b: "scan_body env st = Some (Continue st')" "stuck env st'"
      using stuck_body by blast
    then have "scan_loop env st' = Some r" using 1(3) h by (simp add: stuck_def)
    then show False using 1(2) h b(2) by blast
  qed
qed

lemma scan_finds_line:
  assumes "scan_setup env" and "prefilter_law env" and "short_tables (env_scanner env)"
    and "m_match_list ml = []" and "s < env_size env" and "starts env s" and "\<not> stepped_over env s"
  shows "\<exists>ml'. ScanFile env ml = Some (None, ml')
    \<and> line_at env s \<in> m_line_number ` set (m_match_list ml')"
proof -
  have "m_use_literal (env_scanner env) \<or> skips_sound env"
    using setup_skips_sound[OF assms(1-3)] by blast
  moreover have "covered (stepped_over env) env (scan_start env ml)"
    using scan_start_covered assms(5) by simp
  ultimately obtain st' where "scan_loop env (scan_start env ml) = Some (None, st')" "all_found (stepped_over env) env st'"
    using scan_loop_complete[OF assms(1) _ scan_start_inv[OF assms(4)]] by blast
  then show ?thesis
    using assms(5-7) by (auto simp: ScanFile_def all_found_def lines_found_def)
qed

subsection \<open>Properties\<close>

text \<open>
  C7. A configured scan of a file always returns, without an exception; it reports matches in the
  order of their lines, at most one for a line, and each one is an actual match of the pattern, cut
  out of the line it is on and carrying that line's number.
\<close>

theorem ScanFile_sound:
  assumes "scan_setup env" and "m_match_list ml = []"
  shows "\<exists>ml'. ScanFile env ml = Some (None, ml')
    \<and> sorted_wrt (<) (map m_line_number (m_match_list ml'))
    \<and> (\<forall>m \<in> set (m_match_list ml'). good_match env m)"
  using scan_loop_inv[OF setup_counts setup_attempts setup_skips scan_start_inv, OF assms(1,1,1,2)]
  by (auto simp: ScanFile_def)

definition sample_text :: memory where
  "sample_text a = (if a < 9 then (''ab'' @ [NL] @ ''cab'' @ [NL] @ ''ab'') ! a else NUL)"

definition sample_env :: "bool \<Rightarrow> scan_env" where
  "sample_env literal =
     \<lparr> env_mem = sample_text, env_data = 0, env_size = 9, env_sse4_2 = True,
       env_scanner = scanner_init\<lparr>m_use_literal := literal, m_literal_search_string := ''ab'',
         m_use_first_code_unit_table := True,
         m_tables := \<lparr>m_compiled_cu_bitmap = [0x61], m_compiled_range_bitmap = []\<rparr>\<rparr>,
       env_match = literal_engine sample_text 0 9 ''ab'',
       env_count = resolve_CountLinesSinceLastMatch True True True \<rparr>"

lemma sample_setup: "scan_setup (sample_env literal)"
proof -
  have "plain ''ab''" by (simp add: plain_def)
  moreover have "padded sample_text 9" by (simp add: padded_def sample_text_def)
  moreover have "regex_engine sample_text 0 9 (literal_engine sample_text 0 9 ''ab'')"
    by (rule literal_re.regex_engine_axioms)
  ultimately show ?thesis
    unfolding scan_setup_def by (auto simp: sample_env_def Let_def scanner_init_def m_end_fpcu_table_def)
qed

theorem ScanFile_sound_witness:
  "\<exists>ml'. ScanFile (sample_env False) MatchList_init = Some (None, ml')
     \<and> sorted_wrt (<) (map m_line_number (m_match_list ml'))"
  using ScanFile_sound[OF sample_setup, of MatchList_init False] by (auto simp: MatchList_init_def)

text \<open>
  C8. And it misses no line: when the prefilter in use admits every match of the pattern and its
  table fits one vector, a line is reported if a match starts on it at an offset that is not stepped over, that
  is, one that is not among UTF-8 continuation bytes right after a newline where the pattern has an empty match.
\<close>

theorem ScanFile_complete:
  assumes "scan_setup env" and "prefilter_law env" and "short_tables (env_scanner env)"
    and "m_match_list ml = []" and "s < env_size env" and "starts env s" and "\<not> stepped_over env s"
  shows "\<exists>ml'. ScanFile env ml = Some (None, ml')
    \<and> line_at env s \<in> m_line_number ` set (m_match_list ml')"
  using scan_finds_line[OF assms] .

lemma sample_prefilter: "prefilter_law (sample_env False)"
  unfolding prefilter_law_def Let_def
proof (intro allI impI, elim conjE, intro conjI impI)
  fix s
  assume s: "s \<le> env_size (sample_env False)" "starts (sample_env False) s"
  then obtain rc e where m: "literal_engine sample_text 0 9 ''ab'' s False = (rc, s, e)" "rc > 0" "s \<le> 9"
    by (auto simp: starts_def attempt_def sample_env_def)
  note l = literal_engine_Some[OF m]
  have a: "sample_text s = CHR ''a''" "s + 2 \<le> 9" using l(2,7,8) by (auto simp: mem_occurs_def)
  then show "s < env_size (sample_env False)" by (simp add: sample_env_def)
  show "of_char (env_mem (sample_env False) (env_data (sample_env False) + s))
      \<in> set (m_compiled_cu_bitmap (m_tables (env_scanner (sample_env False))))"
    using a(1) by (simp add: sample_env_def of_char_def)
qed (simp_all add: sample_env_def scanner_init_def)

theorem ScanFile_complete_witness:
  "\<exists>ml'. ScanFile (sample_env False) MatchList_init = Some (None, ml')
     \<and> line_at (sample_env False) 4 \<in> m_line_number ` set (m_match_list ml')"
proof (rule ScanFile_complete[OF sample_setup sample_prefilter])
  show "short_tables (env_scanner (sample_env False))"
    by (simp add: short_tables_def sample_env_def scanner_init_def m_end_fpcu_table_def)
  show "m_match_list MatchList_init = []" by (simp add: MatchList_init_def)
  show "4 < env_size (sample_env False)" by (simp add: sample_env_def)
  have "literal_engine sample_text 0 9 ''ab'' 4 False = (1, 4, 6)" by code_simp
  then show "starts (sample_env False) 4" by (simp add: starts_def attempt_def sample_env_def scanner_init_def)
  have "\<not> continuation (sample_text 4)" by code_simp
  then show "\<not> stepped_over (sample_env False) 4" by (auto simp: stepped_over_def sample_env_def)
qed

text \<open>
  C30. What \<open>AnalyzeRegex\<close> decides is sound: given the documented meaning of the pattern information,
  the scan is configured as required and the chosen prefilter (code unit table, range table, literal
  prefix) admits every match; with at most 16 possible first bytes the table in use fits one vector.
\<close>

theorem AnalyzeRegex_sound:
  assumes "env_scanner env = AnalyzeRegex info ic wr lit regex scanner_init"
    and "info_law env info ic wr regex" and "plain regex"
    and "env_count env = resolve_CountLinesSinceLastMatch a b c"
    and "padded (env_mem env) (env_data env + env_size env)"
    and "m_use_literal (env_scanner env) \<or>
         regex_engine (env_mem env) (env_data env) (env_size env) (env_match env)"
  shows "scan_setup env \<and> prefilter_law env
    \<and> (m_end_fpcu_table (m_tables (env_scanner env)) \<le> 16 \<longrightarrow> short_tables (env_scanner env))"
  using analysis_sound[OF assms] by blast

text \<open>The pattern \<open>ab\<close> with \<open>--word-regexp\<close>, for which the library reports the single first byte.\<close>

definition ab_info :: pattern_info where
  "ab_info = \<lparr> first_bitmap = None, first_code_type = 1, first_code_unit = 0x61 \<rparr>"

theorem AnalyzeRegex_sound_witness:
  "let env = (sample_env False)\<lparr>env_scanner := AnalyzeRegex ab_info False True False ''ab'' scanner_init\<rparr>
   in prefilter_law env \<and> m_use_first_code_unit_table (env_scanner env)"
proof -
  define env where "env = (sample_env False)\<lparr>env_scanner := AnalyzeRegex ab_info False True False ''ab'' scanner_init\<rparr>"
  have sc: "env_scanner env = AnalyzeRegex ab_info False True False ''ab'' scanner_init" by (simp add: env_def)
  have lit: "\<not> m_use_literal (env_scanner env)" "m_use_first_code_unit_table (env_scanner env)" "env_size env = 9"
    "env_mem env = sample_text" "env_data env = 0" "env_match env = literal_engine sample_text 0 9 ''ab''"
    unfolding sc by (simp_all add: AnalyzeRegex_def analyze_literal_def analyze_first_units_def ab_info_def
        scanner_init_def env_def sample_env_def)
  have "sample_text s = CHR ''a'' \<and> s < 9" if s: "s \<le> env_size env" "starts env s" for s
  proof -
    obtain rc e where m: "literal_engine sample_text 0 9 ''ab'' s False = (rc, s, e)" "rc > 0" "s \<le> 9"
      using s lit by (auto simp: starts_def attempt_def)
    show ?thesis using literal_engine_Some[OF m] by (auto simp: mem_occurs_def)
  qed
  then have "info_law env ab_info False True ''ab''"
    by (simp add: info_law_def ab_info_def lit of_char_def)
  then have "prefilter_law env"
    using AnalyzeRegex_sound[OF sc, where a = True and b = True and c = True] lit
      literal_re.regex_engine_axioms[of sample_text 0 9 "''ab''"]
    by (simp add: plain_def padded_def sample_text_def env_def sample_env_def)
  then show ?thesis using lit by (simp add: env_def Let_def)
qed

text \<open>
  C31. An empty literal pattern (\<open>ucg --no-smart-case ''\<close>) never finishes: every search succeeds at the
  same offset with an empty match and the scan never advances.
\<close>

theorem empty_literal_never_returns:
  assumes "m_use_literal (env_scanner env)" and "m_literal_search_string (env_scanner env) = []"
    and "env_count env = resolve_CountLinesSinceLastMatch a b c" and "0 < env_size env"
  shows "ScanFile env ml = None"
proof (cases "scan_loop env (scan_start env ml)")
  case (Some r)
  have "counts_ok env" using assms(3) by (simp add: counts_ok_def lc.counts)
  moreover have "stuck env (scan_start env ml)" by (simp add: stuck_def scan_start_def)
  ultimately show ?thesis using stuck_never_returns[OF Some] assms by blast
qed (simp add: ScanFile_def)

theorem empty_literal_never_returns_witness:
  "ScanFile ((sample_env True)\<lparr>env_scanner := AnalyzeRegex ab_info False False False [] scanner_init\<rparr>)
     MatchList_init = None"
  by (rule empty_literal_never_returns)
     (simp_all add: sample_env_def AnalyzeRegex_def analyze_literal_def analyze_first_units_def ab_info_def
        scanner_init_def IsPatternLiteral_def)

end
