(* ===== verification/TypeArgs.thy ===== *)
theory TypeArgs
  imports TypeManager
begin

text \<open>
  \<open>ArgParse::HandleTYPELogic\<close> of \<open>src/ArgParse.cpp\<close>: the pass over the combined argument vector that
  comes before the option parser. It turns \<open>--TYPE\<close> and \<open>--noTYPE\<close> into \<open>--type=\<close> options, executes the
  options that define types, and adds the include and exclude globs to the type manager.
\<close>

subsection \<open>Definitions\<close>

text \<open>The ways argument handling fails; the names and files in the messages are kept.\<close>

datatype ArgParseException =
    AmbiguousOption string string
  | BadTypeSpec TypeManagerException string
  | DoubleDashInRCFile string string
  | NonOptionInRCFile string string

text \<open>The list of candidates in the message for an ambiguous option.\<close>

definition possibilities :: "string \<Rightarrow> string list \<Rightarrow> string" where
  "possibilities no type_name_list =
     [CHR 0x27] @ ''--'' @ no @ join type_name_list ([CHR 0x27] @ '' '' @ [CHR 0x27] @ ''--'' @ no) @ [CHR 0x27]"

text \<open>One pass of the loop: continue with the argument as it is now, break, or throw.\<close>

datatype arg_step = NextArg string type_manager | BreakLoop | ThrowArg ArgParseException

text \<open>The tail of the body: a type definition or glob of the form \<open>--CMD=PARAMS\<close>.\<close>

definition type_command :: "string \<Rightarrow> string \<Rightarrow> type_manager \<Rightarrow> TypeManagerException option \<times> type_manager" where
  "type_command cmd param tm =
     (if cmd = ''type-add'' then TypeAddFromFilterSpecString False param tm
      else if cmd = ''type-set'' then TypeAddFromFilterSpecString True param tm
      else if cmd = ''type-del'' then (None, snd (TypeDel param tm))
      else if cmd = ''ignore-file'' then TypeAddIgnoreFileFromFilterSpecString param tm
      else if cmd = ''exclude'' \<or> cmd = ''ignore'' then TypeAddIgnoreFileFromFilterSpecString (''globx:'' @ param) tm
      else if cmd = ''include'' then TypeAddIncludeGlobFromFilterSpecString (''glob:'' @ param) tm
      else (None, tm))"

definition handle_arg :: "string \<Rightarrow> type_manager \<Rightarrow> arg_step" where
  "handle_arg arg tm =
     (if length arg < 3 \<or> take 2 arg \<noteq> ''--'' then NextArg arg tm
      else if arg = ''--'' then BreakLoop
      else
        (let argtxt = drop 2 arg;
             type_name_list = GetMatchingTypenameList argtxt tm
         in if length type_name_list = 1 then NextArg (''--type='' @ type_name_list ! 0) tm
            else if length type_name_list > 1 then
              ThrowArg (AmbiguousOption argtxt (possibilities [] type_name_list))
            else if take 2 argtxt = ''no'' then
              (let no_list = GetMatchingTypenameList (drop 2 argtxt) tm
               in if length no_list = 1 then NextArg (''--type=no'' @ no_list ! 0) tm
                  else if length no_list > 1 then
                    ThrowArg (AmbiguousOption argtxt (possibilities ''no'' no_list))
                  else NextArg arg tm)
            else
              (let on_equals_split = split argtxt (CHR ''='')
               in if length on_equals_split \<noteq> 2 then NextArg arg tm
                  else (case type_command (on_equals_split ! 0) (on_equals_split ! 1) tm of
                          (Some e, _) \<Rightarrow> ThrowArg (BadTypeSpec e arg)
                        | (None, tm') \<Rightarrow> NextArg arg tm'))))"

fun HandleTYPELogic :: "string list \<Rightarrow> type_manager \<Rightarrow> ArgParseException + (string list \<times> type_manager)" where
  "HandleTYPELogic [] tm = Inr ([], tm)"
| "HandleTYPELogic (arg # args) tm =
     (case handle_arg arg tm of
        ThrowArg e \<Rightarrow> Inl e
      | BreakLoop \<Rightarrow> Inr (arg # args, tm)
      | NextArg arg' tm' \<Rightarrow>
          (case HandleTYPELogic args tm' of
             Inl e \<Rightarrow> Inl e
           | Inr (args', tm'') \<Rightarrow> Inr (arg' # args', tm'')))"

subsection \<open>What the pass does to the arguments\<close>

text \<open>
  The types an argument can name: the first known type name not below the argument, if it contains the argument;
  it is the only one if the next known name does not contain it as well.
\<close>

definition some_type :: "type_manager \<Rightarrow> string \<Rightarrow> string \<Rightarrow> bool" where
  "some_type tm p t \<longleftrightarrow> IsType t tm \<and> p \<le> t \<and> sublist p t \<and> (\<forall>u. IsType u tm \<and> p \<le> u \<longrightarrow> t \<le> u)"

definition the_type :: "type_manager \<Rightarrow> string \<Rightarrow> string \<Rightarrow> bool" where
  "the_type tm p t \<longleftrightarrow> some_type tm p t
     \<and> (\<forall>u. IsType u tm \<and> t < u \<and> (\<forall>w. IsType w tm \<and> t < w \<longrightarrow> u \<le> w) \<longrightarrow> \<not> sublist p u)"

text \<open>
  What becomes of an argument: \<open>--TYPE\<close> becomes the option that selects the type, \<open>--noTYPE\<close> the one that
  deselects it, unless some type matches with the \<open>no\<close>; any other argument stays as it is.
\<close>

definition rewritten :: "type_manager \<Rightarrow> string \<Rightarrow> string \<Rightarrow> bool" where
  "rewritten tm a b \<longleftrightarrow>
     (if \<exists>p t. a = ''--'' @ p \<and> p \<noteq> [] \<and> the_type tm p t
      then \<exists>p t. a = ''--'' @ p \<and> the_type tm p t \<and> b = ''--type='' @ t
      else if \<exists>q t. a = ''--no'' @ q \<and> the_type tm q t
      then \<exists>q t. a = ''--no'' @ q \<and> the_type tm q t \<and> b = ''--type=no'' @ t
      else b = a)"

lemma the_type_unique: "the_type tm p t \<Longrightarrow> the_type tm p u \<Longrightarrow> t = u"
  unfolding the_type_def some_type_def by (meson order.antisym)

text \<open>The first names of a sorted list that satisfy a predicate.\<close>

lemma takeWhile_single:
  "takeWhile P L = [t] \<longleftrightarrow> (\<exists>rest. L = t # rest \<and> P t \<and> (rest = [] \<or> \<not> P (hd rest)))"
  by (cases L; cases "tl L") (auto split: if_splits)

lemma sorted_hd:
  fixes t :: "'a::linorder"
  assumes "sorted_wrt (<) (t # rest)" and "u \<in> set (t # rest)"
  shows "t \<le> u"
  using assms by auto

lemma sorted_next:
  fixes t u :: "'a::linorder"
  assumes "sorted_wrt (<) (t # rest)"
  shows "u \<in> set (t # rest) \<and> t < u \<and> (\<forall>w \<in> set (t # rest). t < w \<longrightarrow> u \<le> w) \<longleftrightarrow> rest \<noteq> [] \<and> u = hd rest"
proof (cases rest)
  case (Cons h r)
  have h: "h \<in> set (t # rest)" "t < h" "\<forall>w \<in> set (t # rest). t < w \<longrightarrow> h \<le> w"
    using assms Cons by auto
  show ?thesis
  proof
    assume u: "u \<in> set (t # rest) \<and> t < u \<and> (\<forall>w \<in> set (t # rest). t < w \<longrightarrow> u \<le> w)"
    then have "u \<le> h" "h \<le> u" using h by blast+
    then show "rest \<noteq> [] \<and> u = hd rest" using Cons by simp
  next
    assume "rest \<noteq> [] \<and> u = hd rest"
    then show "u \<in> set (t # rest) \<and> t < u \<and> (\<forall>w \<in> set (t # rest). t < w \<longrightarrow> u \<le> w)" using h Cons by simp
  qed
qed simp

lemma names_from:
  fixes p :: string
  assumes "omap_wf (m_builtin_and_user_type_map tm)"
  defines "L \<equiv> map fst (omap_from (m_builtin_and_user_type_map tm) p)"
  shows "sorted_wrt (<) L" and "u \<in> set L \<longleftrightarrow> IsType u tm \<and> p \<le> u"
proof -
  show "sorted_wrt (<) L" using omap_wf_from[OF assms(1), of p] by (simp add: L_def omap_wf_def)
  show "u \<in> set L \<longleftrightarrow> IsType u tm \<and> p \<le> u"
    unfolding L_def set_map omap_from_set[OF assms(1)] IsType_def by (force simp: omap_find_None_iff)
qed

lemma matching_one:
  assumes wf: "omap_wf (m_builtin_and_user_type_map tm)"
  shows "GetMatchingTypenameList p tm = [t] \<longleftrightarrow> the_type tm p t"
proof -
  define L where "L = map fst (omap_from (m_builtin_and_user_type_map tm) p)"
  note n = names_from[OF wf, where p = p, folded L_def]
  have g: "GetMatchingTypenameList p tm = takeWhile (sublist p) L" by (simp add: GetMatchingTypenameList_def L_def)
  have follows: "IsType u tm \<and> t < u \<and> (\<forall>w. IsType w tm \<and> t < w \<longrightarrow> u \<le> w) \<longleftrightarrow> rest \<noteq> [] \<and> u = hd rest"
    if L: "L = t # rest" for u rest
  proof -
    have mem: "IsType w tm \<and> t < w \<longleftrightarrow> w \<in> set (t # rest) \<and> t < w" for w
      using n(2)[of w] n(2)[of t] unfolding L by (auto dest: order.strict_implies_order order_trans)
    show ?thesis using sorted_next[of t rest u] n(1) mem unfolding L by blast
  qed
  show ?thesis
  proof
    assume "GetMatchingTypenameList p tm = [t]"
    then obtain rest where r: "L = t # rest" "sublist p t" "rest = [] \<or> \<not> sublist p (hd rest)"
      unfolding g takeWhile_single by blast
    have t: "IsType t tm" "p \<le> t" using n(2)[of t] r(1) by simp_all
    have "t \<le> u" if "IsType u tm" "p \<le> u" for u
      using sorted_hd[of t rest u] n that unfolding r(1) by blast
    then have s: "some_type tm p t" unfolding some_type_def using t r(2) by blast
    have "\<not> sublist p u" if "IsType u tm \<and> t < u \<and> (\<forall>w. IsType w tm \<and> t < w \<longrightarrow> u \<le> w)" for u
      using iffD1[OF follows[OF r(1), where u = u] that] r(3) by simp
    then show "the_type tm p t" unfolding the_type_def using s by simp
  next
    assume t: "the_type tm p t"
    then have s: "IsType t tm" "p \<le> t" "sublist p t" "\<And>u. IsType u tm \<Longrightarrow> p \<le> u \<Longrightarrow> t \<le> u"
      by (auto simp: the_type_def some_type_def)
    have "t \<in> set L" using n(2)[of t] s(1,2) by simp
    then obtain h rest where L: "L = h # rest" by (cases L) auto
    have "h = t"
    proof (rule order.antisym)
      show "h \<le> t" using sorted_hd[of h rest t] n(1) \<open>t \<in> set L\<close> unfolding L by blast
      show "t \<le> h" using s(4)[of h] n(2)[of h] L by simp
    qed
    then have L: "L = t # rest" using L by simp
    have "rest = [] \<or> \<not> sublist p (hd rest)"
      using t follows[OF L, of "hd rest"] unfolding the_type_def by blast
    with L s(3) show "GetMatchingTypenameList p tm = [t]" unfolding g takeWhile_single by blast
  qed
qed

lemma drop_prefix_eq: "take n xs = p \<Longrightarrow> xs = p @ drop n xs"
  by (metis append_take_drop_id)

lemma split_NUL: "NUL \<notin> set s \<Longrightarrow> i < length (split s d) \<Longrightarrow> NUL \<notin> set (split s d ! i)"
  using split_NUL_free[of s "split s d ! i" d] by simp

lemma type_command_configured:
  assumes "configured tm" and "NUL \<notin> set param" and "type_command cmd param tm = (e, tm')"
  shows "configured tm'"
proof -
  have "configured (snd (type_command cmd param tm))"
    using assms(1,2) by (auto simp: type_command_def intro!: configured.intros)
  with assms(3) show ?thesis by simp
qed

text \<open>The \<open>--\<close> test can never succeed: two characters have been skipped before it.\<close>

lemma no_break: "handle_arg arg tm \<noteq> BreakLoop"
  by (auto simp: handle_arg_def Let_def split: option.splits prod.splits)

lemma rewritten_cases:
  assumes "a = ''--'' @ p" and "p \<noteq> []"
  shows "the_type tm p t \<Longrightarrow> rewritten tm a (''--type='' @ t)"
    and "\<not> (\<exists>t. the_type tm p t) \<Longrightarrow> p = ''no'' @ q \<Longrightarrow> the_type tm q t \<Longrightarrow> rewritten tm a (''--type=no'' @ t)"
    and "\<not> (\<exists>t. the_type tm p t) \<Longrightarrow> \<not> (\<exists>q t. p = ''no'' @ q \<and> the_type tm q t) \<Longrightarrow> rewritten tm a a"
proof -
  have a: "(\<exists>p t. a = ''--'' @ p \<and> p \<noteq> [] \<and> the_type tm p t) \<longleftrightarrow> (\<exists>t. the_type tm p t)"
    using assms by simp
  have b: "(\<exists>q t. a = ''--no'' @ q \<and> the_type tm q t) \<longleftrightarrow> (\<exists>q t. p = ''no'' @ q \<and> the_type tm q t)"
    using assms(1) by simp
  show "the_type tm p t \<Longrightarrow> rewritten tm a (''--type='' @ t)" unfolding rewritten_def a using assms(1) by auto
  show "\<not> (\<exists>t. the_type tm p t) \<Longrightarrow> p = ''no'' @ q \<Longrightarrow> the_type tm q t \<Longrightarrow> rewritten tm a (''--type=no'' @ t)"
    unfolding rewritten_def a using assms(1) by auto
  show "\<not> (\<exists>t. the_type tm p t) \<Longrightarrow> \<not> (\<exists>q t. p = ''no'' @ q \<and> the_type tm q t) \<Longrightarrow> rewritten tm a a"
  proof -
    assume n: "\<not> (\<exists>t. the_type tm p t)" "\<not> (\<exists>q t. p = ''no'' @ q \<and> the_type tm q t)"
    show "rewritten tm a a" unfolding rewritten_def a b if_not_P[OF n(1)] if_not_P[OF n(2)] by (rule refl)
  qed
qed

lemma handle_arg_Next:
  assumes h: "handle_arg arg tm = NextArg arg' tm'" and "configured tm" and "NUL \<notin> set arg"
  shows "rewritten tm arg arg'" and "configured tm'"
proof -
  define argtxt where "argtxt = drop 2 arg"
  define l where "l = GetMatchingTypenameList argtxt tm"
  define l' where "l' = GetMatchingTypenameList (drop 2 argtxt) tm"
  define s where "s = split argtxt (CHR ''='')"
  have wf: "omap_wf (m_builtin_and_user_type_map tm)"
    using configured_inv[OF assms(2)] by (simp add: tm_inv_def maps_wf_def)
  note eq = h[unfolded handle_arg_def Let_def, folded argtxt_def, folded l_def l'_def s_def]
  have one: "the_type tm argtxt (l ! 0)" if "length l = 1"
  proof -
    obtain t where "l = [t]" using \<open>length l = 1\<close> by (cases l) auto
    then show ?thesis using iffD1[OF matching_one[OF wf, of argtxt t]] by (simp add: l_def)
  qed
  have one': "the_type tm argtxt t \<Longrightarrow> length l = 1" for t
    using iffD2[OF matching_one[OF wf, of argtxt t]] by (simp add: l_def)
  have two: "the_type tm (drop 2 argtxt) (l' ! 0)" if "length l' = 1"
  proof -
    obtain t where "l' = [t]" using \<open>length l' = 1\<close> by (cases l') auto
    then show ?thesis using iffD1[OF matching_one[OF wf, of "drop 2 argtxt" t]] by (simp add: l'_def)
  qed
  have two': "the_type tm (drop 2 argtxt) t \<Longrightarrow> length l' = 1" for t
    using iffD2[OF matching_one[OF wf, of "drop 2 argtxt" t]] by (simp add: l'_def)
  have "NUL \<notin> set argtxt" using assms(3) by (auto simp: argtxt_def dest: in_set_dropD)
  then have param: "NUL \<notin> set (s ! 1)" if "length s = 2"
    using split_NUL[of argtxt 1 "CHR ''=''"] that by (simp add: s_def)
  show "rewritten tm arg arg'"
  proof (cases "length arg < 3 \<or> take 2 arg \<noteq> ''--''")
    case True
    then have "\<not> (\<exists>p. arg = ''--'' @ p \<and> p \<noteq> [])" "\<not> (\<exists>q. arg = ''--no'' @ q)" by auto
    then show ?thesis using eq True by (auto simp: rewritten_def)
  next
    case False
    then have arg: "arg = ''--'' @ argtxt" and ne: "argtxt \<noteq> []"
      using drop_prefix_eq[of 2 arg "''--''"] by (auto simp: argtxt_def)
    note rw = rewritten_cases[OF arg ne, of tm]
    have nb: "arg \<noteq> ''--''" using arg ne by simp
    have no: "argtxt = ''no'' @ q \<longleftrightarrow> take 2 argtxt = ''no'' \<and> q = drop 2 argtxt" for q
      by (metis append_take_drop_id append_eq_conv_conj length_Cons list.size(3) numeral_2_eq_2)
    show ?thesis
    proof (cases "length l = 1")
      case True
      then show ?thesis using eq False nb rw(1)[OF one[OF True]] by simp
    next
      case l: False
      then have nt: "\<not> (\<exists>t. the_type tm argtxt t)" using one' by blast
      have "length l' = 1 \<and> take 2 argtxt = ''no'' \<and> arg' = ''--type=no'' @ l' ! 0
          \<or> \<not> (take 2 argtxt = ''no'' \<and> length l' = 1) \<and> arg' = arg"
        using eq False nb l by (auto split: if_splits option.splits prod.splits)
      then show ?thesis
      proof (elim disjE conjE)
        assume "length l' = 1" "take 2 argtxt = ''no''" "arg' = ''--type=no'' @ l' ! 0"
        then show ?thesis using rw(2)[OF nt _ two] no by blast
      next
        assume n: "\<not> (take 2 argtxt = ''no'' \<and> length l' = 1)" and a: "arg' = arg"
        have "\<not> (\<exists>q t. argtxt = ''no'' @ q \<and> the_type tm q t)"
          using n two' unfolding no by blast
        then show ?thesis using rw(3)[OF nt] a by simp
      qed
    qed
  qed
  show "configured tm'"
    using eq assms(2) type_command_configured[OF assms(2) param]
    by (auto split: if_splits option.splits prod.splits)
qed

lemma HandleTYPELogic_Inr:
  assumes "configured tm" and "\<forall>a \<in> set args. NUL \<notin> set a"
    and "HandleTYPELogic args tm = Inr (args', tm')"
  shows "length args' = length args \<and> (\<exists>tms. tms 0 = tm \<and> tms (length args) = tm' \<and> configured tm'
    \<and> (\<forall>i < length args. configured (tms i) \<and> handle_arg (args ! i) (tms i) = NextArg (args' ! i) (tms (Suc i))
         \<and> rewritten (tms i) (args ! i) (args' ! i)))"
  using assms
proof (induction args arbitrary: tm args')
  case Nil
  then show ?case by auto
next
  case (Cons arg args)
  then obtain a tm1 as where s: "handle_arg arg tm = NextArg a tm1"
      "HandleTYPELogic args tm1 = Inr (as, tm')" "args' = a # as"
    using no_break[of arg tm] by (auto split: arg_step.splits sum.splits)
  note n = handle_arg_Next[OF s(1)]
  obtain tms where t: "length as = length args" "tms 0 = tm1" "tms (length args) = tm'" "configured tm'"
    "\<And>i. i < length args \<Longrightarrow> configured (tms i) \<and> handle_arg (args ! i) (tms i) = NextArg (as ! i) (tms (Suc i))
         \<and> rewritten (tms i) (args ! i) (as ! i)"
    using Cons.IH[OF n(2) _ s(2)] Cons.prems by auto
  define tms' where "tms' = (\<lambda>i. case i of 0 \<Rightarrow> tm | Suc j \<Rightarrow> tms j)"
  have "configured (tms' i) \<and> handle_arg ((arg # args) ! i) (tms' i) = NextArg (args' ! i) (tms' (Suc i))
         \<and> rewritten (tms' i) ((arg # args) ! i) (args' ! i)" if "i < length (arg # args)" for i
    using that s n(1) Cons.prems t(2,5) by (cases i) (simp_all add: tms'_def)
  moreover have "tms' 0 = tm" "tms' (length (arg # args)) = tm'" using t(3) by (simp_all add: tms'_def)
  ultimately show ?case using t(1,4) s(3) by auto
qed

lemma HandleTYPELogic_append:
  "HandleTYPELogic (as @ bs) tm =
     (case HandleTYPELogic as tm of
        Inl e \<Rightarrow> Inl e
      | Inr (as', tm') \<Rightarrow>
          (case HandleTYPELogic bs tm' of Inl e \<Rightarrow> Inl e | Inr (bs', tm'') \<Rightarrow> Inr (as' @ bs', tm'')))"
proof (induction as arbitrary: tm)
  case (Cons a as)
  show ?case
    using no_break[of a tm] by (auto simp: Cons.IH split: arg_step.splits sum.splits prod.splits)
qed (simp split: sum.split prod.split)

text \<open>An argument that names exactly one type, and one that the pass has no use for.\<close>

lemma handle_arg_type:
  assumes "GetMatchingTypenameList p tm = [t]" and "p \<noteq> []"
  shows "handle_arg (''--'' @ p) tm = NextArg (''--type='' @ t) tm"
  using assms by (cases p) (simp_all add: handle_arg_def Let_def)

lemma handle_arg_other: "take 2 a \<noteq> ''--'' \<or> length a < 3 \<Longrightarrow> handle_arg a tm = NextArg a tm"
  by (auto simp: handle_arg_def)

subsection \<open>Properties\<close>

text \<open>
  C22. A pass that does not throw keeps the number and order of the arguments and takes them from left to right,
  each with the type manager the ones before it left. \<open>--TYPE\<close> is replaced by \<open>--type=\<close> and the name of the known
  type it matches, \<open>--noTYPE\<close> by \<open>--type=no\<close> and that name, unless a known type matches with the \<open>no\<close>; and
  every other argument is left alone. (A type is matched if its name is the first one not below the argument and
  contains it, and the name after that one does not.) The type manager stays in a configuration its invariant
  holds for. Arguments are C strings: they hold no NUL.
\<close>

theorem HandleTYPELogic_rewrites:
  assumes "configured tm" and "\<forall>a \<in> set args. NUL \<notin> set a"
    and "HandleTYPELogic args tm = Inr (args', tm')"
  shows "length args' = length args \<and> (\<exists>tms. tms 0 = tm \<and> tms (length args) = tm' \<and> configured tm'
    \<and> (\<forall>i < length args. configured (tms i) \<and> handle_arg (args ! i) (tms i) = NextArg (args' ! i) (tms (Suc i))
         \<and> rewritten (tms i) (args ! i) (args' ! i)))"
  by (rule HandleTYPELogic_Inr[OF assms])

theorem HandleTYPELogic_rewrites_witness:
  "HandleTYPELogic [''ucg'', ''--rust'', ''fn''] TypeManager_ctor = Inr ([''ucg'', ''--type=rust'', ''fn''], TypeManager_ctor)
     \<and> rewritten TypeManager_ctor ''--rust'' ''--type=rust''"
proof -
  let ?args = "[''ucg'', ''--rust'', ''fn'']" and ?args' = "[''ucg'', ''--type=rust'', ''fn'']"
  have "GetMatchingTypenameList ''rust'' TypeManager_ctor = [''rust'']" by code_simp
  then have h: "HandleTYPELogic ?args TypeManager_ctor = Inr (?args', TypeManager_ctor)"
    using handle_arg_type[of "''rust''" TypeManager_ctor "''rust''"] by (simp add: handle_arg_other)
  have nul: "\<forall>a \<in> set ?args. NUL \<notin> set a" by simp
  obtain tms where t0: "tms 0 = TypeManager_ctor"
    and t: "\<forall>i < length ?args. configured (tms i) \<and> handle_arg (?args ! i) (tms i) = NextArg (?args' ! i) (tms (Suc i))
         \<and> rewritten (tms i) (?args ! i) (?args' ! i)"
    using HandleTYPELogic_rewrites[OF configured.ctor nul h] by blast
  have "handle_arg ''ucg'' TypeManager_ctor = NextArg ''ucg'' (tms 1)" using t[rule_format, of 0] t0 by simp
  then have t1: "tms 1 = TypeManager_ctor" by (simp add: handle_arg_other)
  have "rewritten (tms 1) ''--rust'' ''--type=rust''" using t[rule_format, of 1] by simp
  with t1 h show ?thesis by simp
qed

text \<open>
  \<open>--\<close> does not end the pass: an argument after it that names a type is rewritten like any other,
  although it is a pattern or a path there.
\<close>

theorem types_after_double_dash:
  assumes "GetMatchingTypenameList p tm' = [t]" and "p \<noteq> []"
    and "HandleTYPELogic args tm = Inr (args', tm')"
  shows "HandleTYPELogic (args @ [''--'', ''--'' @ p]) tm = Inr (args' @ [''--'', ''--type='' @ t], tm')"
  using handle_arg_type[OF assms(1,2)] assms(3) by (simp add: HandleTYPELogic_append handle_arg_other)

theorem types_after_double_dash_witness:
  "HandleTYPELogic [''ucg'', ''--'', ''--rust''] TypeManager_ctor =
     Inr ([''ucg'', ''--'', ''--type=rust''], TypeManager_ctor)"
proof -
  have "GetMatchingTypenameList ''rust'' TypeManager_ctor = [''rust'']" by code_simp
  from types_after_double_dash[OF this, of "[''ucg'']" TypeManager_ctor "[''ucg'']"] show ?thesis
    by (simp add: handle_arg_other)
qed

end
