(* ===== verification/Filesystem.thy ===== *)
theory Filesystem
  imports StringUtil
begin

text \<open>
  \<open>src/libext/filesystem.hpp\<close>: path names, file identities, and the interface to the operating
  system that the file classes use.

  System calls are parameters, the fields of the record \<open>os\<close>: what the file system answers does not
  change while ucg looks at it. Failure of a call is \<open>-1\<close>, as in C, or \<open>None\<close> where the call fills a
  structure.
\<close>

subsection \<open>Path names\<close>

abbreviation SLASH :: char where
  "SLASH \<equiv> CHR ''/''"

text \<open>
  POSIX \<open>dirname\<close> and \<open>basename\<close>, which \<open>portable::dirname\<close> and \<open>portable::basename\<close> call on a copy of the
  path. (For a path of exactly two slashes, and for one file below it, the result is
  implementation-defined; here it is as for one slash.)
\<close>

definition strip_slashes :: "string \<Rightarrow> string" where
  "strip_slashes p = rev (dropWhile (\<lambda>c. c = SLASH) (rev p))"

definition portable_dirname :: "string \<Rightarrow> string" where
  "portable_dirname path =
     (let q = strip_slashes path in
      if path = [] then ''.''
      else if q = [] then ''/''
      else if SLASH \<notin> set q then ''.''
      else (let d = strip_slashes (rev (dropWhile (\<lambda>c. c \<noteq> SLASH) (rev q)))
            in if d = [] then ''/'' else d))"

definition portable_basename :: "string \<Rightarrow> string" where
  "portable_basename path =
     (let q = strip_slashes path in
      if path = [] then ''.''
      else if q = [] then ''/''
      else rev (takeWhile (\<lambda>c. c \<noteq> SLASH) (rev q)))"

text \<open>\<open>path[0]\<close> of an empty string is the terminating NUL.\<close>

definition is_pathname_absolute :: "string \<Rightarrow> bool" where
  "is_pathname_absolute path \<longleftrightarrow> (case path of [] \<Rightarrow> False | c # _ \<Rightarrow> c = SLASH)"

definition clean_up_path :: "string \<Rightarrow> string" where
  "clean_up_path path =
     (let dir = portable_dirname path; base = portable_basename path
      in if dir = [] \<or> dir = ''.'' then base else dir @ ''/'' @ base)"

subsection \<open>Identity of a file\<close>

record dev_ino_pair =
  id_dev :: "64 word"
  id_ino :: "64 word"

definition less_dev_ino :: "dev_ino_pair \<Rightarrow> dev_ino_pair \<Rightarrow> bool" where
  "less_dev_ino a b \<longleftrightarrow> id_dev a < id_dev b \<or> id_ino a < id_ino b"

definition dev_ino_empty :: "dev_ino_pair \<Rightarrow> bool" where
  "dev_ino_empty a \<longleftrightarrow> id_dev a = 0 \<and> id_ino a = 0"

text \<open>\<open>std::hash<dev_ino_pair>\<close>; \<open>h\<close> is the hash of an unsigned integer.\<close>

definition hash_dev_ino :: "(64 word \<Rightarrow> 64 word) \<Rightarrow> dev_ino_pair \<Rightarrow> 64 word" where
  "hash_dev_ino h p = h (id_dev p) XOR push_bit 1 (h (id_ino p))"

subsection \<open>The operating system\<close>

text \<open>The part of \<open>struct stat\<close> the program reads, and \<open>st_mode\<close> as the file type in it.\<close>

datatype st_mode = S_IFREG | S_IFDIR | S_IFLNK | S_IFOTHER

record stat_buf =
  st_mode :: st_mode
  st_dev :: "64 word"
  st_ino :: "64 word"
  st_size :: int
  st_blksize :: int
  st_blocks :: int

datatype d_type = DT_REG | DT_DIR | DT_LNK | DT_UNKNOWN | DT_OTHER

record dirent =
  d_name :: string
  d_type :: d_type
  d_ino :: "64 word"

record os =
  sys_open :: "string \<Rightarrow> 32 word \<Rightarrow> int"
  sys_dup :: "int \<Rightarrow> int"
  sys_fstat :: "int \<Rightarrow> stat_buf option"
  sys_fstatat :: "int \<Rightarrow> string \<Rightarrow> bool \<Rightarrow> stat_buf option"
  sys_readdir :: "int \<Rightarrow> dirent list option"
  sys_read :: "int \<Rightarrow> string list"

text \<open>
  \<open>sys_fstatat fd name follow\<close>: \<open>follow\<close> stands for the absence of \<open>AT_SYMLINK_NOFOLLOW\<close>.
  \<open>sys_readdir\<close> is \<open>fdopendir\<close> with all results of \<open>readdir\<close>. \<open>sys_read\<close> lists what successive calls of
  \<open>read\<close> deliver, the last one (end of file) left out.
\<close>

definition is_same_file :: "os \<Rightarrow> int \<Rightarrow> int \<Rightarrow> bool" where
  "is_same_file s fd1 fd2 \<longleftrightarrow>
     (case sys_fstat s fd1 of
        None \<Rightarrow> False
      | Some s1 \<Rightarrow>
          (case sys_fstat s fd2 of
             None \<Rightarrow> False
           | Some s2 \<Rightarrow> st_dev s1 = st_dev s2 \<and> st_ino s1 = st_ino s2))"

text \<open>\<open>get_home_dir_name\<close>: the \<open>HOME\<close> variable, else the user database, else nothing.\<close>

definition get_home_dir_name :: "string option \<Rightarrow> string option \<Rightarrow> string" where
  "get_home_dir_name env_HOME pw_dir =
     (case (case env_HOME of None \<Rightarrow> pw_dir | Some h \<Rightarrow> Some h) of None \<Rightarrow> [] | Some h \<Rightarrow> h)"

definition get_current_dir_name :: "string option \<Rightarrow> string" where
  "get_current_dir_name cwd = (case cwd of None \<Rightarrow> ''.'' | Some d \<Rightarrow> d)"

text \<open>\<open>dirent_get_name\<close>: the name up to its NUL, within the space allocated for it.\<close>

definition dirent_get_name :: "dirent \<Rightarrow> string" where
  "dirent_get_name de = takeWhile (\<lambda>c. c \<noteq> NUL) (d_name de)"

subsection \<open>Components of paths\<close>

lemma strip_slashes_snoc [simp]: "strip_slashes (p @ [c]) = (if c = SLASH then strip_slashes p else p @ [c])"
  by (simp add: strip_slashes_def)

lemma strip_slashes_Nil [simp]: "strip_slashes [] = []"
  by (simp add: strip_slashes_def)

lemma strip_slashes_single [simp]: "strip_slashes [SLASH] = []"
  by (simp add: strip_slashes_def)

lemma strip_slashes_last: "strip_slashes p \<noteq> [] \<Longrightarrow> last (strip_slashes p) \<noteq> SLASH"
  by (induction p rule: rev_induct) (auto split: if_splits)

lemma fields_concat: "str_fields d (xs @ d # ys) = str_fields d xs @ str_fields d ys"
  by (induction xs) (auto split: list.split)

lemma split_concat: "split (xs @ d # ys) d = split xs d @ split ys d"
  by (simp add: split_fields fields_concat)

lemma split_snoc: "split (xs @ [d]) d = split xs d"
  using split_concat[of xs d "[]"] by (simp add: split_fields)

lemma split_strip: "split (strip_slashes p) SLASH = split p SLASH"
  by (induction p rule: rev_induct) (auto simp: split_snoc)

lemma split_nonempty_word: "d \<notin> set b \<Longrightarrow> b \<noteq> [] \<Longrightarrow> split b d = [b]"
  by (simp add: split_no_delimiter)

text \<open>The last component and what is before it.\<close>

lemma last_component:
  assumes "q \<noteq> []" and "last q \<noteq> SLASH"
  obtains (one) "SLASH \<notin> set q" "rev (takeWhile (\<lambda>c. c \<noteq> SLASH) (rev q)) = q"
    | (more) a b where "q = a @ SLASH # b" "SLASH \<notin> set b" "b \<noteq> []"
        "rev (takeWhile (\<lambda>c. c \<noteq> SLASH) (rev q)) = b"
        "rev (dropWhile (\<lambda>c. c \<noteq> SLASH) (rev q)) = a @ [SLASH]"
proof (cases "SLASH \<in> set q")
  case False
  then have "\<forall>c \<in> set (rev q). c \<noteq> SLASH" by auto
  then have "takeWhile (\<lambda>c. c \<noteq> SLASH) (rev q) = rev q" unfolding takeWhile_eq_all_conv .
  then have "rev (takeWhile (\<lambda>c. c \<noteq> SLASH) (rev q)) = q" by (simp only: rev_rev_ident)
  then show thesis using one False by blast
next
  case True
  then obtain a b where q: "q = a @ SLASH # b" "SLASH \<notin> set b"
    using split_list_last by metis
  then have "b \<noteq> []" using assms(2) by auto
  moreover have "x \<in> set (rev b) \<Longrightarrow> x \<noteq> SLASH" for x using q(2) by auto
  then have "takeWhile (\<lambda>c. c \<noteq> SLASH) (rev b @ SLASH # rev a) = rev b"
    "dropWhile (\<lambda>c. c \<noteq> SLASH) (rev b @ SLASH # rev a) = SLASH # rev a"
    by (subst takeWhile_append2 dropWhile_append2; simp)+
  then have "takeWhile (\<lambda>c. c \<noteq> SLASH) (rev q) = rev b" "dropWhile (\<lambda>c. c \<noteq> SLASH) (rev q) = SLASH # rev a"
    by (simp_all add: q(1))
  ultimately show thesis using more q by simp
qed

text \<open>\<open>dirname\<close> and \<open>basename\<close> split the components of a path; \<open>dirname\<close> of a single one is \<open>.\<close> or the root.\<close>

lemma dirname_basename:
  assumes "path \<noteq> []" and "strip_slashes path \<noteq> []"
  shows "split path SLASH = split (portable_dirname path) SLASH @ [portable_basename path]
      \<or> portable_dirname path = ''.'' \<and> split path SLASH = [portable_basename path]"
    and "SLASH \<notin> set (portable_basename path)" and "portable_basename path \<noteq> []"
proof -
  define q where "q = strip_slashes path"
  have q: "q \<noteq> []" "last q \<noteq> SLASH" "split path SLASH = split q SLASH"
    using assms strip_slashes_last[of path] split_strip[of path] by (simp_all add: q_def)
  have "(split path SLASH = split (portable_dirname path) SLASH @ [portable_basename path]
      \<or> portable_dirname path = ''.'' \<and> split path SLASH = [portable_basename path])
    \<and> SLASH \<notin> set (portable_basename path) \<and> portable_basename path \<noteq> []"
    using q(1,2)
  proof (cases rule: last_component)
    case one
    then have "portable_dirname path = ''.''" "portable_basename path = q"
      using assms q(1) by (simp_all add: portable_dirname_def portable_basename_def q_def)
    then show ?thesis using one q(1,3) by (simp add: split_nonempty_word)
  next
    case (more a b)
    have dir: "portable_dirname path = (if strip_slashes a = [] then ''/'' else strip_slashes a)"
      using more q(1) assms(1) by (simp add: portable_dirname_def q_def[symmetric])
    have "split ''/'' SLASH = []" by (simp add: split_fields)
    moreover have "strip_slashes a = [] \<Longrightarrow> split a SLASH = []"
      using split_strip[of a] by (simp add: split_fields)
    ultimately have "split (portable_dirname path) SLASH = split a SLASH"
      using dir split_strip[of a] by auto
    moreover have "portable_basename path = b"
      using more q(1) assms(1) by (simp add: portable_basename_def q_def[symmetric])
    moreover have "split path SLASH = split a SLASH @ [b]"
      using more q(3) by (simp add: split_concat split_nonempty_word)
    ultimately show ?thesis using more by simp
  qed
  then show "split path SLASH = split (portable_dirname path) SLASH @ [portable_basename path]
      \<or> portable_dirname path = ''.'' \<and> split path SLASH = [portable_basename path]"
    and "SLASH \<notin> set (portable_basename path)" and "portable_basename path \<noteq> []" by simp_all
qed

lemma dirname_nonempty: "portable_dirname path \<noteq> []"
  by (simp add: portable_dirname_def Let_def)

lemma clean_up_path_split:
  assumes "path \<noteq> []" and "strip_slashes path \<noteq> []"
  shows "split (clean_up_path path) SLASH =
    (if portable_dirname path = ''.'' then [portable_basename path] else split path SLASH)"
proof -
  note d = dirname_basename[OF assms]
  show ?thesis
  proof (cases "portable_dirname path = ''.''")
    case True
    then show ?thesis using d(2,3) by (simp add: clean_up_path_def split_nonempty_word)
  next
    case False
    then have "split (clean_up_path path) SLASH =
        split (portable_dirname path) SLASH @ [portable_basename path]"
      using d(2,3) dirname_nonempty by (simp add: clean_up_path_def Let_def split_concat split_nonempty_word)
    then show ?thesis using False d(1) by auto
  qed
qed

text \<open>A path directly below the root gets a second slash.\<close>

lemma clean_up_path_root:
  assumes "SLASH \<notin> set name" and "name \<noteq> []"
  shows "clean_up_path (SLASH # name) = ''//'' @ name"
proof -
  have l: "last (SLASH # name) \<noteq> SLASH" using assms by (metis last_ConsR last_in_set)
  have q: "strip_slashes (SLASH # name) = SLASH # name"
    using l by (cases "SLASH # name" rule: rev_cases) auto
  have ne: "SLASH # name \<noteq> []" by simp
  from ne l have "portable_dirname (SLASH # name) = ''/'' \<and> portable_basename (SLASH # name) = name"
  proof (cases rule: last_component)
    case (more a b)
    then have "a = [] \<and> b = name" using assms(1) by (cases a) auto
    then show ?thesis using more by (simp add: portable_dirname_def portable_basename_def q)
  qed simp_all
  then show ?thesis by (simp add: clean_up_path_def)
qed

subsection \<open>Properties\<close>

text \<open>
  Cleaning up a path given on the command line keeps its components, a leading \<open>.\<close> alone in front
  of a name excepted, so it still names the same file; but directly below the root it adds a slash
  instead of leaving the leading one alone.
\<close>

theorem clean_up_path_components:
  assumes "path \<noteq> []" and "strip_slashes path \<noteq> []"
  shows "split (clean_up_path path) SLASH =
      (if portable_dirname path = ''.'' then [portable_basename path] else split path SLASH)
    \<and> (SLASH \<notin> set name \<and> name \<noteq> [] \<longrightarrow> clean_up_path (SLASH # name) = ''//'' @ name)"
  using clean_up_path_split[OF assms] clean_up_path_root by blast

theorem clean_up_path_components_witness:
  "split (clean_up_path ''src//libext/'') SLASH = [''src'', ''libext''] \<and> clean_up_path ''/etc'' = ''//etc''"
proof -
  have "split ''src//libext/'' SLASH = [''src'', ''libext'']" "portable_dirname ''src//libext/'' \<noteq> ''.''"
    "strip_slashes ''src//libext/'' \<noteq> []" by code_simp+
  then show ?thesis using clean_up_path_components[of "''src//libext/''" "''etc''"] by simp
qed

end
