(* ===== verification/FileID.thy ===== *)
theory FileID
  imports Filesystem
begin

unbundle bit_operations_syntax

text \<open>
  \<open>src/libext/FileID.h\<close> and \<open>src/libext/FileID.cpp\<close>: a file or directory whose path, descriptor and
  stat information are found out when first asked for.

  A \<open>FileID\<close> refers to the directory it is in, and what is cached or opened there is visible through
  all files below it, so the objects live in a heap, a list of records; a \<open>shared_ptr<FileID>\<close> is an
  index into it. An object is created after its directory. The class and its \<open>impl\<close> are one record.
  The mutex and the atomic validity bits are the subject of the theory DoubleChecked; here an
  operation runs alone.
\<close>

subsection \<open>Modes, flags and types\<close>

datatype FileType = FT_UNINITIALIZED | FT_UNKNOWN | FT_REG | FT_DIR | FT_SYMLINK | FT_STAT_FAILED

text \<open>The values of the \<open>O_\<close> constants are those of Linux on x86-64, where \<open>O_SEARCH\<close> is \<open>O_RDONLY\<close>.\<close>

definition FAM_UNINITIALIZED :: "32 word" where "FAM_UNINITIALIZED = 0x7FFFFFFF"
definition FAM_RDONLY :: "32 word" where "FAM_RDONLY = 0"
definition FAM_RDWR :: "32 word" where "FAM_RDWR = 2"
definition FAM_SEARCH :: "32 word" where "FAM_SEARCH = FAM_RDONLY"

definition FCF_UNINITIALIZED :: "32 word" where "FCF_UNINITIALIZED = 0"
definition FCF_CLOEXEC :: "32 word" where "FCF_CLOEXEC = 0x80000"
definition FCF_CREAT :: "32 word" where "FCF_CREAT = 0x40"
definition FCF_DIRECTORY :: "32 word" where "FCF_DIRECTORY = 0x10000"
definition FCF_NOCTTY :: "32 word" where "FCF_NOCTTY = 0x100"
definition FCF_NOFOLLOW :: "32 word" where "FCF_NOFOLLOW = 0x20000"
definition FCF_NOATIME :: "32 word" where "FCF_NOATIME = 0x40000"
definition FCF_NONBLOCK :: "32 word" where "FCF_NONBLOCK = 0x800"

text \<open>\<open>FileID::IsValid\<close>.\<close>

definition V_FILE_DESC :: "8 word" where "V_FILE_DESC = 1"
definition V_UUID :: "8 word" where "V_UUID = 2"
definition V_STATINFO :: "8 word" where "V_STATINFO = 4"
definition V_TYPE :: "8 word" where "V_TYPE = 8"
definition V_PATH :: "8 word" where "V_PATH = 16"

lemmas valid_defs = V_FILE_DESC_def V_UUID_def V_STATINFO_def V_TYPE_def V_PATH_def

subsection \<open>State\<close>

record file_id =
  m_at_dir :: "nat option"
  m_basename :: string
  m_path :: string
  m_open_flags :: "32 word"
  m_file_descriptor :: int
  m_temp_dir_file_descriptor :: int
  m_file_type :: FileType
  m_unique_file_identifier :: dev_ino_pair
  m_dev :: "64 word"
  m_size :: int
  m_block_size :: int
  m_blocks :: int
  m_valid_bits :: "8 word"

type_synonym heap = "file_id list"

definition impl_init :: file_id where
  "impl_init =
     \<lparr> m_at_dir = None, m_basename = [], m_path = [], m_open_flags = 0, m_file_descriptor = -987,
       m_temp_dir_file_descriptor = -987, m_file_type = FT_UNINITIALIZED,
       m_unique_file_identifier = \<lparr>id_dev = 0, id_ino = 0\<rparr>, m_dev = -1, m_size = 0, m_block_size = 0,
       m_blocks = 0, m_valid_bits = 0 \<rparr>"

definition SetStatInfo :: "stat_buf \<Rightarrow> file_id \<Rightarrow> file_id" where
  "SetStatInfo sb f =
     f\<lparr>m_file_type := (case st_mode sb of S_IFREG \<Rightarrow> FT_REG | S_IFDIR \<Rightarrow> FT_DIR | S_IFLNK \<Rightarrow> FT_SYMLINK
                                        | S_IFOTHER \<Rightarrow> FT_UNKNOWN),
       m_dev := st_dev sb,
       m_unique_file_identifier := \<lparr>id_dev = st_dev sb, id_ino = st_ino sb\<rparr>,
       m_size := st_size sb, m_block_size := st_blksize sb, m_blocks := st_blocks sb\<rparr>"

definition impl_SetDevIno :: "64 word \<Rightarrow> 64 word \<Rightarrow> file_id \<Rightarrow> file_id" where
  "impl_SetDevIno d i f = f\<lparr>m_dev := d, m_unique_file_identifier := \<lparr>id_dev = d, id_ino = i\<rparr>\<rparr>"

text \<open>The two constructors of \<open>impl\<close>.\<close>

definition impl_base :: "nat option \<Rightarrow> string \<Rightarrow> file_id" where
  "impl_base at_dir base_or_pathname =
     impl_init\<lparr>m_at_dir := at_dir, m_basename := base_or_pathname,
       m_path := (if is_pathname_absolute base_or_pathname then base_or_pathname else [])\<rparr>"

definition impl_full :: "nat option \<Rightarrow> string \<Rightarrow> string \<Rightarrow> stat_buf option \<Rightarrow> FileType \<Rightarrow> file_id" where
  "impl_full at_dir bname pathname sb t =
     (let f = impl_init\<lparr>m_at_dir := at_dir, m_basename := bname, m_path := pathname, m_file_type := t\<rparr>;
          f1 = (case sb of None \<Rightarrow> f | Some b \<Rightarrow> SetStatInfo b f)
      in if is_pathname_absolute bname then f1\<lparr>m_path := bname\<rparr> else f1)"

subsection \<open>Constructors and assignment\<close>

definition SetFileDescriptorMode :: "32 word \<Rightarrow> 32 word \<Rightarrow> file_id \<Rightarrow> file_id" where
  "SetFileDescriptorMode fam fcf f = f\<lparr>m_open_flags := fam OR fcf\<rparr>"

definition FileID_cwd :: "os \<Rightarrow> file_id" where
  "FileID_cwd s =
     (let f = SetFileDescriptorMode FAM_SEARCH (FCF_DIRECTORY OR FCF_NOCTTY)
                (impl_full None ''.'' ''.'' None FT_DIR);
          tempfd = sys_open s ''.'' (FAM_SEARCH OR FCF_DIRECTORY OR FCF_NOCTTY)
      in f\<lparr>m_file_descriptor := tempfd, m_valid_bits := V_FILE_DESC OR V_TYPE OR V_PATH\<rparr>)"

definition FileID_relative ::
    "nat \<Rightarrow> string \<Rightarrow> stat_buf option \<Rightarrow> FileType \<Rightarrow> 64 word \<Rightarrow> 64 word \<Rightarrow> 32 word \<Rightarrow> 32 word \<Rightarrow> file_id" where
  "FileID_relative at_dir bname sb t d i fam fcf =
     (let f = impl_full (Some at_dir) bname [] sb t;
          orbits = (if sb \<noteq> None then V_UUID OR V_STATINFO OR V_TYPE
                    else if t \<noteq> FT_UNINITIALIZED then V_TYPE else 0);
          (f, orbits) = (if d \<noteq> -1 \<and> i \<noteq> 0 then (impl_SetDevIno d i f, orbits OR V_UUID) else (f, orbits));
          f = (if fam \<noteq> FAM_UNINITIALIZED \<and> fcf \<noteq> FCF_UNINITIALIZED then f\<lparr>m_open_flags := fam OR fcf\<rparr> else f)
      in f\<lparr>m_valid_bits := orbits\<rparr>)"

definition FileID_absolute :: "nat \<Rightarrow> string \<Rightarrow> FileType \<Rightarrow> file_id" where
  "FileID_absolute at_dir pathname t =
     (impl_full (Some at_dir) pathname pathname None t)
       \<lparr>m_valid_bits := (if is_pathname_absolute pathname then V_PATH else 0)
                      OR (if t \<noteq> FT_UNINITIALIZED then V_TYPE else 0)\<rparr>"

definition FileID_at :: "nat \<Rightarrow> string \<Rightarrow> 32 word \<Rightarrow> 32 word \<Rightarrow> file_id" where
  "FileID_at at_dir pathname fam fcf =
     (let f = SetFileDescriptorMode fam fcf (impl_base (Some at_dir) pathname)
      in f\<lparr>m_valid_bits := (if m_path f \<noteq> [] then V_PATH else 0)\<rparr>)"

text \<open>Copy and move construction leave the validity bits behind; assignment takes them along.\<close>

definition FileID_copy :: "file_id \<Rightarrow> file_id" where
  "FileID_copy other = other\<lparr>m_valid_bits := 0\<rparr>"

definition FileID_assign :: "file_id \<Rightarrow> file_id \<Rightarrow> file_id" where
  "FileID_assign this other = other"

text \<open>\<open>std::make_shared<FileID>\<close>.\<close>

definition make_shared :: "file_id \<Rightarrow> heap \<Rightarrow> nat \<times> heap" where
  "make_shared f h = (length h, h @ [f])"

subsection \<open>Paths\<close>

definition update_id :: "nat \<Rightarrow> (file_id \<Rightarrow> file_id) \<Rightarrow> heap \<Rightarrow> heap" where
  "update_id i g h = h[i := g (h ! i)]"

definition set_valid :: "nat \<Rightarrow> 8 word \<Rightarrow> heap \<Rightarrow> heap" where
  "set_valid i bits = update_id i (\<lambda>f. f\<lparr>m_valid_bits := m_valid_bits f OR bits\<rparr>)"

text \<open>
  \<open>GetPath\<close> and \<open>impl::ResolvePath\<close>, which calls it for the directory. (An object without a directory
  that has no path either does not exist; ResolvePath would dereference a null pointer there.)
\<close>

function GetPath :: "nat \<Rightarrow> heap \<Rightarrow> heap" and ResolvePath :: "nat \<Rightarrow> heap \<Rightarrow> heap" where
  "GetPath i h =
     (if m_valid_bits (h ! i) AND V_PATH = 0 then set_valid i V_PATH (ResolvePath i h) else h)"
| "ResolvePath i h =
     (if m_path (h ! i) = [] then
        (case m_at_dir (h ! i) of
           None \<Rightarrow> h
         | Some j \<Rightarrow>
             if j < i then
               (let h1 = GetPath j h; at_path = m_path (h1 ! j)
                in update_id i (\<lambda>f. f\<lparr>m_path :=
                       (if \<not> (length at_path = 1 \<and> at_path ! 0 = CHR ''.'')
                        then at_path @ ''/'' @ m_basename f else m_basename f)\<rparr>) h1)
             else h)
      else h)"
  by pat_completeness auto
termination
  by (relation "measure (\<lambda>x. case x of Inl (i, h) \<Rightarrow> 2 * i + 1 | Inr (i, h) \<Rightarrow> 2 * i)") auto

declare GetPath.simps [simp del] ResolvePath.simps [simp del]

definition the_path :: "nat \<Rightarrow> heap \<Rightarrow> string" where
  "the_path i h = m_path (GetPath i h ! i)"

subsection \<open>Descriptors\<close>

datatype FileIDException = OpenFlagsNotSet | OpenFailed string

text \<open>\<open>impl::GetFileDescriptor\<close>: the exception, if one is thrown, and the heap.\<close>

definition impl_GetFileDescriptor :: "os \<Rightarrow> nat \<Rightarrow> heap \<Rightarrow> FileIDException option \<times> heap" where
  "impl_GetFileDescriptor s i h =
     (if m_file_descriptor (h ! i) < 0 then
        (if m_open_flags (h ! i) = 0 then (Some OpenFlagsNotSet, h)
         else if m_at_dir (h ! i) \<noteq> None then
           (let h1 = ResolvePath i h; tempfd = sys_open s (m_path (h1 ! i)) (m_open_flags (h1 ! i))
            in if tempfd = -1 then (Some (OpenFailed (m_path (h1 ! i))), h1)
               else (None, update_id i (\<lambda>f. f\<lparr>m_file_descriptor := tempfd\<rparr>) h1))
         else (None, h))
      else (None, h))"

definition GetFileDescriptor :: "os \<Rightarrow> nat \<Rightarrow> heap \<Rightarrow> (FileIDException + int) \<times> heap" where
  "GetFileDescriptor s i h =
     (if m_valid_bits (h ! i) AND V_FILE_DESC = 0 then
        (case impl_GetFileDescriptor s i h of
           (Some e, h1) \<Rightarrow> (Inl e, h1)
         | (None, h1) \<Rightarrow> (let h2 = set_valid i (V_FILE_DESC OR V_PATH) h1 in (Inr (m_file_descriptor (h2 ! i)), h2)))
      else (Inr (m_file_descriptor (h ! i)), h))"

definition GetTempDirFileDesc :: "os \<Rightarrow> nat \<Rightarrow> heap \<Rightarrow> int \<times> heap" where
  "GetTempDirFileDesc s i h =
     (if m_temp_dir_file_descriptor (h ! i) \<ge> 0 then (m_temp_dir_file_descriptor (h ! i), h)
      else
        (let h2 = (if m_file_descriptor (h ! i) \<ge> 0
                   then update_id i (\<lambda>f. f\<lparr>m_temp_dir_file_descriptor := sys_dup s (m_file_descriptor f)\<rparr>) h
                   else (let h1 = ResolvePath i h in
                         update_id i (\<lambda>f. f\<lparr>m_temp_dir_file_descriptor :=
                           sys_open s (m_path f) (FAM_RDONLY OR FCF_NOATIME OR FCF_NOCTTY OR FCF_DIRECTORY)\<rparr>) h1))
         in (m_temp_dir_file_descriptor (h2 ! i), h2)))"

text \<open>\<open>OpenDir\<close> with all the entries \<open>readdir\<close> will deliver, \<open>None\<close> for a null pointer.\<close>

definition OpenDir :: "os \<Rightarrow> nat \<Rightarrow> heap \<Rightarrow> dirent list option \<times> heap" where
  "OpenDir s i h = (case GetTempDirFileDesc s i h of (fd, h1) \<Rightarrow> (sys_readdir s fd, h1))"

definition CloseDir :: "nat \<Rightarrow> heap \<Rightarrow> heap" where
  "CloseDir i = update_id i (\<lambda>f. f\<lparr>m_temp_dir_file_descriptor := -987\<rparr>)"

definition FStatAt :: "os \<Rightarrow> nat \<Rightarrow> string \<Rightarrow> bool \<Rightarrow> heap \<Rightarrow> stat_buf option" where
  "FStatAt s i name follow h = sys_fstatat s (m_temp_dir_file_descriptor (h ! i)) name follow"

subsection \<open>Stat information\<close>

text \<open>
  \<open>impl::LazyLoadStatInfo\<close>; without a directory it throws inside \<open>noexcept\<close>, which ends the program
  (\<open>None\<close>).
\<close>

definition LazyLoadStatInfo :: "os \<Rightarrow> nat \<Rightarrow> heap \<Rightarrow> heap option" where
  "LazyLoadStatInfo s i h =
     (case m_at_dir (h ! i) of
        None \<Rightarrow> None
      | Some j \<Rightarrow>
          (let r = (if m_file_descriptor (h ! i) \<ge> 0 then sys_fstat s (m_file_descriptor (h ! i))
                    else FStatAt s j (m_basename (h ! i)) True h)
           in Some (update_id i (\<lambda>f. case r of Some sb \<Rightarrow> SetStatInfo sb f
                                             | None \<Rightarrow> f\<lparr>m_file_type := FT_STAT_FAILED\<rparr>) h)))"

text \<open>The double-checked load of what \<open>bits\<close> stands for.\<close>

definition ensure_stat :: "os \<Rightarrow> 8 word \<Rightarrow> nat \<Rightarrow> heap \<Rightarrow> heap option" where
  "ensure_stat s bits i h =
     (if m_valid_bits (h ! i) AND bits = 0
      then map_option (set_valid i (V_UUID OR V_STATINFO OR V_TYPE)) (LazyLoadStatInfo s i h)
      else Some h)"

definition GetFileType :: "os \<Rightarrow> nat \<Rightarrow> heap \<Rightarrow> (FileType \<times> heap) option" where
  "GetFileType s i h = map_option (\<lambda>h1. (m_file_type (h1 ! i), h1)) (ensure_stat s V_TYPE i h)"

definition GetFileSize :: "os \<Rightarrow> nat \<Rightarrow> heap \<Rightarrow> (int \<times> heap) option" where
  "GetFileSize s i h = map_option (\<lambda>h1. (m_size (h1 ! i), h1)) (ensure_stat s V_STATINFO i h)"

definition GetBlockSize :: "os \<Rightarrow> nat \<Rightarrow> heap \<Rightarrow> (int \<times> heap) option" where
  "GetBlockSize s i h = map_option (\<lambda>h1. (m_block_size (h1 ! i), h1)) (ensure_stat s V_STATINFO i h)"

definition GetUniqueFileIdentifier :: "os \<Rightarrow> nat \<Rightarrow> heap \<Rightarrow> (dev_ino_pair \<times> heap) option" where
  "GetUniqueFileIdentifier s i h =
     map_option (\<lambda>h1. (m_unique_file_identifier (h1 ! i), h1)) (ensure_stat s V_UUID i h)"

definition GetDev :: "os \<Rightarrow> nat \<Rightarrow> heap \<Rightarrow> (64 word \<times> heap) option" where
  "GetDev s i h = map_option (\<lambda>h1. (m_dev (h1 ! i), h1)) (ensure_stat s V_UUID i h)"

definition SetDevIno :: "64 word \<Rightarrow> 64 word \<Rightarrow> nat \<Rightarrow> heap \<Rightarrow> heap" where
  "SetDevIno d ino i h =
     (if m_valid_bits (h ! i) AND V_UUID = 0
      then set_valid i V_UUID (update_id i (impl_SetDevIno d ino) h) else h)"

subsection \<open>What a path is\<close>

text \<open>
  The specification of \<open>GetPath\<close>, which knows no caches: an absolute name stands for itself, any other
  is appended to the path of its directory; the path \<open>.\<close> is left out.
\<close>

definition join_path :: "string \<Rightarrow> string \<Rightarrow> string" where
  "join_path dir name = (if dir = ''.'' then name else dir @ ''/'' @ name)"

function path_of :: "nat \<Rightarrow> heap \<Rightarrow> string" where
  "path_of i h =
     (case m_at_dir (h ! i) of
        None \<Rightarrow> m_path (h ! i)
      | Some j \<Rightarrow> if is_pathname_absolute (m_basename (h ! i)) then m_basename (h ! i)
                 else if j < i then join_path (path_of j h) (m_basename (h ! i)) else [])"
  by pat_completeness auto
termination
  by (relation "measure fst") auto

declare path_of.simps [simp del]

text \<open>What the path operations leave alone: everything but the cached path of a file below a directory.\<close>

definition frame :: "file_id \<Rightarrow> file_id" where
  "frame f = f\<lparr>m_path := (if m_at_dir f = None then m_path f else []), m_valid_bits := m_valid_bits f OR V_PATH\<rparr>"

lemma frame_fields:
  assumes "frame f = frame g"
  shows "m_at_dir f = m_at_dir g" "m_basename f = m_basename g" "m_open_flags f = m_open_flags g"
    "m_file_descriptor f = m_file_descriptor g" "m_at_dir f = None \<Longrightarrow> m_path f = m_path g"
    "m_temp_dir_file_descriptor f = m_temp_dir_file_descriptor g" "m_file_type f = m_file_type g"
    "m_unique_file_identifier f = m_unique_file_identifier g" "m_dev f = m_dev g" "m_size f = m_size g"
    "m_block_size f = m_block_size g" "m_valid_bits f OR V_PATH = m_valid_bits g OR V_PATH"
  using assms by (cases f; cases g; simp add: frame_def split: if_splits)+

lemma map_frame_nth: "map frame h' = map frame h \<Longrightarrow> i < length h \<Longrightarrow> frame (h' ! i) = frame (h ! i)"
  by (metis length_map nth_map)

text \<open>The directory of a file is older than the file; what is cached is the path.\<close>

definition file_ok :: "nat \<Rightarrow> heap \<Rightarrow> bool" where
  "file_ok i h \<longleftrightarrow>
     (case m_at_dir (h ! i) of
        None \<Rightarrow> m_path (h ! i) \<noteq> []
      | Some j \<Rightarrow> j < i \<and> (is_pathname_absolute (m_basename (h ! i)) \<longrightarrow> m_path (h ! i) = m_basename (h ! i)))
     \<and> (m_path (h ! i) = [] \<or> m_path (h ! i) = path_of i h)
     \<and> (m_valid_bits (h ! i) AND V_PATH \<noteq> 0 \<longrightarrow> m_path (h ! i) = path_of i h)"

definition heap_ok :: "heap \<Rightarrow> bool" where
  "heap_ok h \<longleftrightarrow> (\<forall>i<length h. file_ok i h)"

lemma heap_okD: "heap_ok h \<Longrightarrow> i < length h \<Longrightarrow> file_ok i h"
  by (simp add: heap_ok_def)

lemma file_ok_dir: "file_ok i h \<Longrightarrow> m_at_dir (h ! i) = Some j \<Longrightarrow> j < i"
  by (simp add: file_ok_def)

lemma path_of_frame:
  "map frame h' = map frame h \<Longrightarrow> i < length h \<Longrightarrow> path_of i h' = path_of i h"
proof (induction i h rule: path_of.induct)
  case (1 i h)
  have f: "frame (h' ! i) = frame (h ! i)" by (rule map_frame_nth[OF 1(2,3)])
  note ff = frame_fields[OF f]
  show ?case
  proof (cases "m_at_dir (h ! i)")
    case None
    with ff show ?thesis by (simp add: path_of.simps[of i])
  next
    case (Some j)
    then show ?thesis using 1 ff by (simp add: path_of.simps[of i])
  qed
qed

lemma length_update_id [simp]: "length (update_id i g h) = length h"
  by (simp add: update_id_def)

lemma nth_update_id: "k < length h \<Longrightarrow> update_id i g h ! k = (if k = i then g (h ! i) else h ! k)"
  by (simp add: update_id_def nth_list_update)

lemma map_frame_update: "frame (g (h ! i)) = frame (h ! i) \<Longrightarrow> map frame (update_id i g h) = map frame h"
  by (simp add: update_id_def map_update list_update_same_conv) (metis list_update_beyond
      list_update_id length_map not_le nth_map)

lemma or_V_PATH [simp]: "(x OR V_PATH) AND V_PATH \<noteq> 0" "(x OR V_PATH) OR V_PATH = x OR V_PATH"
proof -
  have "bit ((x OR V_PATH) AND V_PATH) 4" by (simp add: bit_simps V_PATH_def)
  then show "(x OR V_PATH) AND V_PATH \<noteq> 0" by (metis bit_0_eq bot_apply bot_bool_def)
  show "(x OR V_PATH) OR V_PATH = x OR V_PATH" by (simp add: or.assoc)
qed

lemma or_V_FILE_DESC: "(x OR (V_FILE_DESC OR V_PATH)) AND V_FILE_DESC \<noteq> 0"
proof -
  have "bit ((x OR (V_FILE_DESC OR V_PATH)) AND V_FILE_DESC) 0" by (simp add: bit_simps V_FILE_DESC_def)
  then show ?thesis by (metis bit_0_eq bot_apply bot_bool_def)
qed

lemma heap_ok_update:
  assumes "heap_ok h" and "i < length h" and fr: "frame (g (h ! i)) = frame (h ! i)"
    and p: "m_at_dir (h ! i) \<noteq> None \<Longrightarrow> m_path (g (h ! i)) = path_of i h"
  shows "heap_ok (update_id i g h)"
  unfolding heap_ok_def
proof (intro allI impI)
  fix k assume k: "k < length (update_id i g h)"
  then have k': "k < length h" by simp
  have po: "path_of k (update_id i g h) = path_of k h"
    by (rule path_of_frame[OF map_frame_update k'], rule fr)
  have ok: "file_ok k h" using assms(1) k' by (rule heap_okD)
  note ff = frame_fields[OF fr]
  show "file_ok k (update_id i g h)"
  proof (cases "k = i")
    case False
    with ok show ?thesis unfolding file_ok_def po nth_update_id[OF k'] by simp
  next
    case True
    show ?thesis
    proof (cases "m_at_dir (h ! i)")
      case None
      with ok ff True show ?thesis unfolding file_ok_def po nth_update_id[OF k']
        by (simp add: path_of.simps[of i])
    next
      case (Some j)
      with ok ff True p show ?thesis unfolding file_ok_def po nth_update_id[OF k']
        by (simp add: path_of.simps[of i])
    qed
  qed
qed

lemma set_valid_path:
  assumes "heap_ok h" and "i < length h" and "m_path (h ! i) = path_of i h"
  shows "heap_ok (set_valid i V_PATH h)" and "map frame (set_valid i V_PATH h) = map frame h"
    and "m_path (set_valid i V_PATH h ! i) = path_of i h"
  using assms unfolding set_valid_def
  by (auto intro!: heap_ok_update map_frame_update simp: frame_def nth_update_id)

lemma GetPath_ResolvePath:
  "heap_ok h \<Longrightarrow> i < length h \<Longrightarrow>
     heap_ok (GetPath i h) \<and> map frame (GetPath i h) = map frame h \<and> m_path (GetPath i h ! i) = path_of i h
     \<and> m_valid_bits (GetPath i h ! i) AND V_PATH \<noteq> 0"
  "heap_ok h \<Longrightarrow> i < length h \<Longrightarrow>
     heap_ok (ResolvePath i h) \<and> map frame (ResolvePath i h) = map frame h
     \<and> m_path (ResolvePath i h ! i) = path_of i h"
proof (induction i h and i h rule: GetPath_ResolvePath.induct)
  case (1 i h)
  show ?case
  proof (cases "m_valid_bits (h ! i) AND V_PATH = 0")
    case False
    with heap_okD[OF 1(2,3)] 1(2) show ?thesis
      by (subst (1 2 3 4) GetPath.simps) (simp add: file_ok_def)
  next
    case True
    let ?h = "ResolvePath i h"
    have r: "heap_ok ?h" "map frame ?h = map frame h" "m_path (?h ! i) = path_of i h"
      using 1(1)[OF True 1(2,3)] by blast+
    have len: "i < length ?h" using r(2) 1(3) by (metis length_map)
    have po: "path_of i ?h = path_of i h" by (rule path_of_frame[OF r(2) 1(3)])
    have s: "heap_ok (set_valid i V_PATH ?h)" "map frame (set_valid i V_PATH ?h) = map frame ?h"
      "m_path (set_valid i V_PATH ?h ! i) = path_of i ?h"
      using set_valid_path[OF r(1) len] r(3) po by simp_all
    have "m_valid_bits (set_valid i V_PATH ?h ! i) AND V_PATH \<noteq> 0"
      using len by (simp add: set_valid_def nth_update_id V_PATH_def)
    with s r po True show ?thesis by (subst (1 2 3 4) GetPath.simps) simp
  qed
next
  case (2 i h)
  note ok = heap_okD[OF 2(2,3)]
  show ?case
  proof (cases "m_path (h ! i) = []")
    case False
    with ok 2(2) show ?thesis by (subst (1 2 3) ResolvePath.simps) (simp add: file_ok_def)
  next
    case True
    with ok obtain j where j: "m_at_dir (h ! i) = Some j" "j < i"
      by (auto simp: file_ok_def split: option.splits)
    have na: "\<not> is_pathname_absolute (m_basename (h ! i))"
      using ok j True by (auto simp: file_ok_def is_pathname_absolute_def split: list.splits)
    let ?h = "GetPath j h"
    have r: "heap_ok ?h" "map frame ?h = map frame h" "m_path (?h ! j) = path_of j h"
      using 2(1)[OF True j(1,2) 2(2)] 2(3) j(2) by auto
    have len: "i < length ?h" using r(2) 2(3) by (metis length_map)
    have b: "frame (?h ! i) = frame (h ! i)" by (rule map_frame_nth[OF r(2) 2(3)])
    note bb = frame_fields[OF b]
    define g where "g = (\<lambda>f :: file_id. f\<lparr>m_path := (if \<not> (length (m_path (?h ! j)) = 1 \<and> m_path (?h ! j) ! 0 = CHR ''.'')
                        then m_path (?h ! j) @ ''/'' @ m_basename f else m_basename f)\<rparr>)"
    have dot: "(length p = Suc 0 \<and> p ! 0 = CHR ''.'') = (p = ''.'')" for p :: string
      by (cases p) auto
    have po: "path_of i ?h = path_of i h" by (rule path_of_frame[OF r(2) 2(3)])
    have gp: "m_path (g (?h ! i)) = path_of i ?h"
      unfolding po using j na r(3) bb by (simp add: g_def dot path_of.simps[of i] join_path_def)
    have fr: "frame (g (?h ! i)) = frame (?h ! i)" using j bb by (simp add: g_def frame_def)
    have e: "ResolvePath i h = update_id i g ?h"
      using True j by (subst ResolvePath.simps) (simp add: g_def Let_def)
    show ?thesis unfolding e
      using heap_ok_update[where g=g, OF r(1) len fr gp] map_frame_update[where g=g, OF fr] r(2) gp po len
      by (simp add: nth_update_id)
  qed
qed

text \<open>What paths depend on, and what the invariant of the heap depends on.\<close>

definition names :: "file_id \<Rightarrow> nat option \<times> string \<times> string" where
  "names f = (m_at_dir f, m_basename f, if m_at_dir f = None then m_path f else [])"

lemma path_of_names:
  "i < length h \<Longrightarrow> length h \<le> length h' \<Longrightarrow> (\<And>k. k < length h \<Longrightarrow> names (h' ! k) = names (h ! k)) \<Longrightarrow>
     path_of i h' = path_of i h"
proof (induction i h rule: path_of.induct)
  case (1 i h)
  have "names (h' ! i) = names (h ! i)" using 1 by blast
  then have n: "m_at_dir (h' ! i) = m_at_dir (h ! i)" "m_basename (h' ! i) = m_basename (h ! i)"
    "m_at_dir (h ! i) = None \<Longrightarrow> m_path (h' ! i) = m_path (h ! i)"
    by (auto simp: names_def)
  show ?case
  proof (cases "m_at_dir (h ! i)")
    case None
    with n show ?thesis by (simp add: path_of.simps[of i])
  next
    case (Some j)
    have "path_of j h' = path_of j h" if "\<not> is_pathname_absolute (m_basename (h ! i))" "j < i"
      by (rule 1(1)[OF Some that]) (use 1(2-) that(2) in auto)
    with Some n show ?thesis by (simp add: path_of.simps[of i])
  qed
qed

definition path_core :: "file_id \<Rightarrow> nat option \<times> string \<times> string \<times> bool" where
  "path_core f = (m_at_dir f, m_basename f, m_path f, m_valid_bits f AND V_PATH = 0)"

lemma heap_ok_path_core:
  assumes "heap_ok h" and len: "length h' = length h"
    and c: "\<And>k. k < length h \<Longrightarrow> path_core (h' ! k) = path_core (h ! k)"
  shows "heap_ok h'"
proof -
  have p: "k < length h \<Longrightarrow> path_of k h' = path_of k h" for k
    by (rule path_of_names) (use len c in \<open>auto simp: path_core_def names_def\<close>)
  have "file_ok k h' = file_ok k h" if "k < length h" for k
  proof -
    have e: "m_at_dir (h' ! k) = m_at_dir (h ! k)" "m_basename (h' ! k) = m_basename (h ! k)"
      "m_path (h' ! k) = m_path (h ! k)" "(m_valid_bits (h' ! k) AND V_PATH = 0) = (m_valid_bits (h ! k) AND V_PATH = 0)"
      using c[OF that] by (simp_all add: path_core_def)
    show ?thesis unfolding file_ok_def e p[OF that] by simp
  qed
  with assms(1) len show ?thesis by (simp add: heap_ok_def)
qed

subsection \<open>Paths and descriptors\<close>

text \<open>New objects keep the heap in order.\<close>

lemma map_frame_length: "map frame h' = map frame h \<Longrightarrow> length h' = length h"
  by (metis length_map)

lemma path_of_append: "i < length h \<Longrightarrow> path_of i (h @ hs) = path_of i h"
proof (induction i h rule: path_of.induct)
  case (1 i h)
  then show ?case by (auto simp: path_of.simps[of i] nth_append split: option.splits)
qed

lemma heap_ok_append:
  assumes "heap_ok h" and "file_ok (length h) (h @ [f])"
  shows "heap_ok (h @ [f])"
  unfolding heap_ok_def
proof (intro allI impI)
  fix i assume "i < length (h @ [f])"
  then consider "i < length h" | "i = length h" by fastforce
  then show "file_ok i (h @ [f])"
  proof cases
    case 1
    then have n: "(h @ [f]) ! i = h ! i" by (simp add: nth_append)
    show ?thesis using heap_okD[OF assms(1) 1] unfolding file_ok_def path_of_append[OF 1] n .
  qed (use assms(2) in simp)
qed

lemmas ctor_defs = FileID_cwd_def FileID_relative_def FileID_absolute_def FileID_at_def impl_full_def
  impl_base_def impl_init_def SetFileDescriptorMode_def SetStatInfo_def impl_SetDevIno_def valid_defs

lemma relative_fields:
  "m_at_dir (FileID_relative j b sb t d i fam fcf) = Some j"
  "m_basename (FileID_relative j b sb t d i fam fcf) = b"
  "m_path (FileID_relative j b sb t d i fam fcf) = (if is_pathname_absolute b then b else [])"
  "m_valid_bits (FileID_relative j b sb t d i fam fcf) AND V_PATH = 0"
  "m_valid_bits (FileID_relative j b sb t d i fam fcf) AND V_FILE_DESC = 0"
  "m_file_descriptor (FileID_relative j b sb t d i fam fcf) = -987"
  by (auto simp: ctor_defs Let_def split: option.splits)

lemma heap_ok_constructors:
  "heap_ok [FileID_cwd s]"
  "heap_ok h \<Longrightarrow> j < length h \<Longrightarrow> heap_ok (h @ [FileID_relative j b sb t d i fam fcf])"
  "heap_ok h \<Longrightarrow> j < length h \<Longrightarrow> heap_ok (h @ [FileID_at j b fam fcf])"
  "heap_ok h \<Longrightarrow> j < length h \<Longrightarrow> is_pathname_absolute p \<Longrightarrow> heap_ok (h @ [FileID_absolute j p t])"
  subgoal by (simp add: heap_ok_def file_ok_def path_of.simps ctor_defs is_pathname_absolute_def)
  subgoal by (rule heap_ok_append) (auto simp: file_ok_def relative_fields path_of.simps)
  subgoal by (rule heap_ok_append) (auto simp: file_ok_def ctor_defs path_of.simps is_pathname_absolute_def split: list.splits)
  subgoal by (rule heap_ok_append) (auto simp: file_ok_def ctor_defs path_of.simps)
  done

lemma GetPath_is_path_of_parts:
  assumes "heap_ok h" and "i < length h"
  shows "the_path i h = path_of i h" and "GetPath i (GetPath i h) = GetPath i h"
    and "heap_ok (GetPath i h)" and "k < length h \<Longrightarrow> path_of k (GetPath i h) = path_of k h"
  using GetPath_ResolvePath(1)[OF assms] path_of_frame[of "GetPath i h" h k]
  by (auto simp: the_path_def GetPath.simps[of i "GetPath i h"])

text \<open>
  C16. For every heap the constructors build, GetPath gives the path of the specification: the path of the
  directory, a slash and the name, where the current directory is left out and an absolute name stands
  alone. It stores the path, so a second call changes nothing, and all other files keep their paths.
\<close>

theorem GetPath_is_path_of:
  assumes "heap_ok h" and "i < length h"
  shows "the_path i h = path_of i h \<and> GetPath i (GetPath i h) = GetPath i h \<and> heap_ok (GetPath i h)
    \<and> (\<forall>k<length h. path_of k (GetPath i h) = path_of k h)"
  using GetPath_is_path_of_parts[OF assms] by blast


lemma GetFileDescriptor_opens_path_parts:
  assumes "heap_ok h" and "i < length h" and "m_at_dir (h ! i) \<noteq> None" and "m_open_flags (h ! i) \<noteq> 0"
    and "m_valid_bits (h ! i) AND V_FILE_DESC = 0" and "m_file_descriptor (h ! i) < 0"
  shows "fst (GetFileDescriptor s i h) =
      (let fd = sys_open s (path_of i h) (m_open_flags (h ! i))
       in if fd = -1 then Inl (OpenFailed (path_of i h)) else Inr fd)"
    and "fst (GetFileDescriptor s i h) = Inr fd \<Longrightarrow>
      GetFileDescriptor s' i (snd (GetFileDescriptor s i h)) = (Inr fd, snd (GetFileDescriptor s i h))"
proof -
  have r: "map frame (ResolvePath i h) = map frame h" "m_path (ResolvePath i h ! i) = path_of i h"
    using GetPath_ResolvePath(2)[OF assms(1,2)] by simp_all
  have len: "i < length (ResolvePath i h)" using map_frame_length[OF r(1)] assms(2) by simp
  have o: "m_open_flags (ResolvePath i h ! i) = m_open_flags (h ! i)"
    by (rule frame_fields[OF map_frame_nth[OF r(1) assms(2)]])
  show a: "fst (GetFileDescriptor s i h) =
      (let fd = sys_open s (path_of i h) (m_open_flags (h ! i))
       in if fd = -1 then Inl (OpenFailed (path_of i h)) else Inr fd)"
    using assms(3-6) r(2) o len
    by (auto simp: GetFileDescriptor_def impl_GetFileDescriptor_def Let_def set_valid_def nth_update_id)
  assume "fst (GetFileDescriptor s i h) = Inr fd"
  then show "GetFileDescriptor s' i (snd (GetFileDescriptor s i h)) = (Inr fd, snd (GetFileDescriptor s i h))"
    using assms(3-6) r(2) o len
    by (auto simp: GetFileDescriptor_def impl_GetFileDescriptor_def Let_def set_valid_def nth_update_id
        or_V_FILE_DESC split: if_splits)
qed

text \<open>
  The descriptor of a file below a directory is the result of opening its path with the flags it
  was given, and a failure to open is reported with that path. The file is opened once: later calls
  return the same descriptor, whatever the operating system would answer by then.
\<close>

theorem GetFileDescriptor_opens_path:
  assumes "heap_ok h" and "i < length h" and "m_at_dir (h ! i) \<noteq> None" and "m_open_flags (h ! i) \<noteq> 0"
    and "m_valid_bits (h ! i) AND V_FILE_DESC = 0" and "m_file_descriptor (h ! i) < 0"
  shows "fst (GetFileDescriptor s i h) =
      (let fd = sys_open s (path_of i h) (m_open_flags (h ! i))
       in if fd = -1 then Inl (OpenFailed (path_of i h)) else Inr fd)
    \<and> (\<forall>fd s'. fst (GetFileDescriptor s i h) = Inr fd \<longrightarrow>
         GetFileDescriptor s' i (snd (GetFileDescriptor s i h)) = (Inr fd, snd (GetFileDescriptor s i h)))"
  using GetFileDescriptor_opens_path_parts[OF assms] by blast


definition sample_os :: os where
  "sample_os =
     \<lparr> sys_open = (\<lambda>p fl. if p = ''src/a.c'' then 7 else if p = ''.'' then 3 else -1), sys_dup = (\<lambda>fd. fd + 100),
       sys_fstat = (\<lambda>fd. None), sys_fstatat = (\<lambda>fd p b. None), sys_readdir = (\<lambda>fd. None), sys_read = (\<lambda>fd. []) \<rparr>"

definition sample_heap :: heap where
  "sample_heap =
     (let h0 = [FileID_cwd sample_os]; h1 = h0 @ [FileID_at 0 ''src'' FAM_RDONLY FCF_DIRECTORY]
      in h1 @ [FileID_relative 1 ''a.c'' None FT_REG 5 6 FAM_RDONLY FCF_NOATIME])"

lemma sample_heap_ok: "heap_ok sample_heap" "length sample_heap = 3"
  by (simp_all only: sample_heap_def Let_def) (rule heap_ok_constructors | simp)+

lemma GetPath_is_path_of_witness:
  "the_path 2 sample_heap = ''src/a.c'' \<and> GetPath 2 (GetPath 2 sample_heap) = GetPath 2 sample_heap"
proof -
  have "path_of 2 sample_heap = ''src/a.c''"
    by code_simp
  then show ?thesis using GetPath_is_path_of[OF sample_heap_ok(1), of 2] sample_heap_ok(2) by simp
qed

lemma GetFileDescriptor_opens_path_witness:
  "fst (GetFileDescriptor sample_os 2 sample_heap) = Inr 7"
proof -
  have "path_of 2 sample_heap = ''src/a.c''"
    by code_simp
  moreover have "m_at_dir (sample_heap ! 2) \<noteq> None" "m_open_flags (sample_heap ! 2) \<noteq> 0"
    "m_valid_bits (sample_heap ! 2) AND V_FILE_DESC = 0" "m_file_descriptor (sample_heap ! 2) < 0"
    by code_simp+
  ultimately show ?thesis
    using GetFileDescriptor_opens_path[OF sample_heap_ok(1), of 2 sample_os] sample_heap_ok(2)
    by (simp add: sample_os_def)
qed

end
