(* ===== verification/DoubleChecked.thy ===== *)
theory DoubleChecked
  imports FileID
begin

unbundle bit_operations_syntax

text \<open>
  \<open>src/libext/DoubleCheckedLock.hpp\<close>: caches that any number of threads may ask for and that are filled
  under a mutex by the first of them.

  One function, \<open>dc_step\<close>, makes one step of one thread: a load or store of the atomic, taking or
  releasing the mutex, or the call of the filler. The two templates are its instances, with their own
  test of the atomic and their own way to store. A run interleaves the steps of the threads in any
  order, and a thread may call again as soon as it has returned. The fences order the filler's writes
  before the store and the first load before the reads of the caller, so the memory is taken to be
  sequentially consistent.
\<close>

subsection \<open>One step of a thread\<close>

text \<open>
  \<open>'b\<close> is a kind of call, \<open>'r\<close> what the filler returns, \<open>'w\<close> the content of the atomic. A filler that
  throws returns \<open>None\<close>; the lock object then releases the mutex. \<open>filled\<close> records the kinds of the fillers
  that have returned.
\<close>

datatype ('b, 'r, 'w) phase =
    Outside
  | At_load 'b
  | At_lock 'b
  | At_check 'b
  | At_fill 'b
  | At_store 'b 'r
  | At_unlock 'b 'w
  | Unwinding 'b
  | Done 'b 'w
  | Threw 'b

record ('b, 'r, 'w, 'c) dc_state =
  wrap :: 'w
  owner :: "nat option"
  cache :: 'c
  phase :: "nat \<Rightarrow> ('b, 'r, 'w) phase"
  filled :: "'b list"

definition goto :: "nat \<Rightarrow> ('b, 'r, 'w) phase \<Rightarrow> ('b, 'r, 'w, 'c) dc_state \<Rightarrow> ('b, 'r, 'w, 'c) dc_state" where
  "goto t p s = s\<lparr>phase := (phase s)(t := p)\<rparr>"

definition dc_step ::
    "('b \<Rightarrow> 'w \<Rightarrow> bool) \<Rightarrow> ('b \<Rightarrow> 'c \<Rightarrow> 'r option \<times> 'c) \<Rightarrow> ('r \<Rightarrow> 'w \<Rightarrow> 'w) \<Rightarrow> nat
      \<Rightarrow> ('b, 'r, 'w, 'c) dc_state \<Rightarrow> ('b, 'r, 'w, 'c) dc_state option" where
  "dc_step present fill store t s =
     (case phase s t of
        Outside \<Rightarrow> None
      | At_load b \<Rightarrow> Some (goto t (if present b (wrap s) then Done b (wrap s) else At_lock b) s)
      | At_lock b \<Rightarrow> (if owner s = None then Some (goto t (At_check b) (s\<lparr>owner := Some t\<rparr>)) else None)
      | At_check b \<Rightarrow> Some (goto t (if present b (wrap s) then At_unlock b (wrap s) else At_fill b) s)
      | At_fill b \<Rightarrow>
          (case fill b (cache s) of
             (Some r, c) \<Rightarrow> Some (goto t (At_store b r) (s\<lparr>cache := c, filled := b # filled s\<rparr>))
           | (None, c) \<Rightarrow> Some (goto t (Unwinding b) (s\<lparr>cache := c\<rparr>)))
      | At_store b r \<Rightarrow>
          (let w = store r (wrap s) in Some (goto t (At_unlock b w) (s\<lparr>wrap := w\<rparr>)))
      | At_unlock b w \<Rightarrow> Some (goto t (Done b w) (s\<lparr>owner := None\<rparr>))
      | Unwinding b \<Rightarrow> Some (goto t (Threw b) (s\<lparr>owner := None\<rparr>))
      | Done b w \<Rightarrow> None
      | Threw b \<Rightarrow> None)"

text \<open>The two templates.\<close>

definition DoubleCheckedLock ::
    "'w \<Rightarrow> ('c \<Rightarrow> 'w option \<times> 'c) \<Rightarrow> nat \<Rightarrow> (unit, 'w, 'w, 'c) dc_state \<Rightarrow> (unit, 'w, 'w, 'c) dc_state option" where
  "DoubleCheckedLock NullVal cache_filler =
     dc_step (\<lambda>_ w. w \<noteq> NullVal) (\<lambda>_. cache_filler) (\<lambda>r w. r)"

definition DoubleCheckedMultiLock ::
    "('b \<Rightarrow> 8 word) \<Rightarrow> ('b \<Rightarrow> 'c \<Rightarrow> 8 word option \<times> 'c) \<Rightarrow> nat
      \<Rightarrow> ('b, 8 word, 8 word, 'c) dc_state \<Rightarrow> ('b, 8 word, 8 word, 'c) dc_state option" where
  "DoubleCheckedMultiLock bits cache_filler = dc_step (\<lambda>b w. w AND bits b \<noteq> 0) cache_filler (\<lambda>r w. w OR r)"

definition dc_init :: "'w \<Rightarrow> 'c \<Rightarrow> ('b, 'r, 'w, 'c) dc_state" where
  "dc_init w c = \<lparr>wrap = w, owner = None, cache = c, phase = (\<lambda>t. Outside), filled = []\<rparr>"

text \<open>What may happen: a thread outside or back from a call starts one, or a thread in a call goes on.\<close>

inductive dc_next ::
    "(nat \<Rightarrow> ('b, 'r, 'w, 'c) dc_state \<Rightarrow> ('b, 'r, 'w, 'c) dc_state option)
      \<Rightarrow> ('b, 'r, 'w, 'c) dc_state \<Rightarrow> ('b, 'r, 'w, 'c) dc_state \<Rightarrow> bool" for lock where
  call: "phase s t = Outside \<or> phase s t = Done b' w \<or> phase s t = Threw b' \<Longrightarrow> dc_next lock s (goto t (At_load b) s)"
| go_on: "lock t s = Some s' \<Longrightarrow> dc_next lock s s'"

inductive dc_reachable ::
    "(nat \<Rightarrow> ('b, 'r, 'w, 'c) dc_state \<Rightarrow> ('b, 'r, 'w, 'c) dc_state option) \<Rightarrow> 'w \<Rightarrow> 'c
      \<Rightarrow> ('b, 'r, 'w, 'c) dc_state \<Rightarrow> bool" for lock w c where
  dc_start: "dc_reachable lock w c (dc_init w c)"
| dc_more: "dc_reachable lock w c s \<Longrightarrow> dc_next lock s s' \<Longrightarrow> dc_reachable lock w c s'"

lemma reachable_go_on: "dc_reachable lock w c s \<Longrightarrow> lock t s = Some s' \<Longrightarrow> dc_reachable lock w c s'"
  by (blast intro: dc_more go_on)

inductive_cases dc_next_elim: "dc_next lock s s'"

subsection \<open>The contract of test, filler and store\<close>

fun in_section :: "('b, 'r, 'w) phase \<Rightarrow> bool" where
  "in_section (At_check b) = True"
| "in_section (At_fill b) = True"
| "in_section (At_store b r) = True"
| "in_section (At_unlock b w) = True"
| "in_section (Unwinding b) = True"
| "in_section _ = False"

text \<open>How far a call is from its end.\<close>

fun steps_left :: "('b, 'r, 'w) phase \<Rightarrow> nat" where
  "steps_left (At_load b) = 6"
| "steps_left (At_lock b) = 5"
| "steps_left (At_check b) = 4"
| "steps_left (At_fill b) = 3"
| "steps_left (At_store b r) = 2"
| "steps_left (At_unlock b w) = 1"
| "steps_left (Unwinding b) = 1"
| "steps_left _ = 0"

lemma goto_simps [simp]:
  "phase (goto t p s) = (phase s)(t := p)" "wrap (goto t p s) = wrap s" "owner (goto t p s) = owner s"
  "cache (goto t p s) = cache s" "filled (goto t p s) = filled s"
  by (simp_all add: goto_def)

lemma dc_step_measure:
  "dc_step present fill store t s = Some s' \<Longrightarrow>
     steps_left (phase s' t) < steps_left (phase s t) \<and> (\<forall>u. u \<noteq> t \<longrightarrow> phase s' u = phase s u)"
  by (auto simp: dc_step_def Let_def split: phase.splits prod.splits option.splits if_splits)

locale double_checked =
  fixes present :: "'b \<Rightarrow> 'w \<Rightarrow> bool"
    and fill :: "'b \<Rightarrow> 'c \<Rightarrow> 'r option \<times> 'c"
    and store :: "'r \<Rightarrow> 'w \<Rightarrow> 'w"
  assumes store_present: "fst (fill b c) = Some r \<Longrightarrow> \<not> present b w \<Longrightarrow> present b (store r w)"
    and store_keeps: "fst (fill b' c) = Some r \<Longrightarrow> present b w \<Longrightarrow> \<not> present b' w \<Longrightarrow> present b (store r w)"
begin

definition inv :: "('b, 'r, 'w, 'c) dc_state \<Rightarrow> bool" where
  "inv s \<longleftrightarrow>
     (\<forall>t. in_section (phase s t) \<longleftrightarrow> owner s = Some t)
     \<and> (\<forall>t b. phase s t = At_fill b \<longrightarrow> \<not> present b (wrap s) \<and> b \<notin> set (filled s))
     \<and> (\<forall>t b r. phase s t = At_store b r \<longrightarrow>
          \<not> present b (wrap s) \<and> (\<exists>c. fst (fill b c) = Some r) \<and> b \<in> set (filled s))
     \<and> (\<forall>t b w. phase s t = At_unlock b w \<or> phase s t = Done b w \<longrightarrow> present b w \<and> present b (wrap s))
     \<and> distinct (filled s)
     \<and> (\<forall>b \<in> set (filled s). present b (wrap s) \<or> (\<exists>t r. phase s t = At_store b r))"

lemma init_ok: "inv (dc_init w c)"
  by (simp add: inv_def dc_init_def)

lemma invD:
  assumes "inv s"
  shows "in_section (phase s t) \<longleftrightarrow> owner s = Some t"
    and "phase s t = At_fill b \<Longrightarrow> \<not> present b (wrap s) \<and> b \<notin> set (filled s)"
    and "phase s t = At_store b r \<Longrightarrow> \<not> present b (wrap s) \<and> (\<exists>c. fst (fill b c) = Some r) \<and> b \<in> set (filled s)"
    and "phase s t = At_unlock b w \<Longrightarrow> present b w \<and> present b (wrap s)"
    and "phase s t = Done b w \<Longrightarrow> present b w \<and> present b (wrap s)"
    and "distinct (filled s)"
    and "b \<in> set (filled s) \<Longrightarrow> present b (wrap s) \<or> (\<exists>t r. phase s t = At_store b r)"
  using assms unfolding inv_def by blast+

text \<open>A step that neither enters nor leaves the critical section, nor stores.\<close>

lemma goto_outside_ok:
  assumes "inv s" and "\<not> in_section (phase s t)" and "\<not> in_section p"
    and "\<And>b w. p = Done b w \<Longrightarrow> present b w \<and> present b (wrap s)"
  shows "inv (goto t p s)"
proof -
  have o: "owner s \<noteq> Some t" using assms(1,2) invD(1) by blast
  have "phase s t \<noteq> At_store b r" for b r using assms(2) by auto
  then have f: "b \<in> set (filled s) \<Longrightarrow> present b (wrap s) \<or> (\<exists>v r. v \<noteq> t \<and> phase s v = At_store b r)" for b
    using invD(7)[OF assms(1)] by metis
  show ?thesis unfolding inv_def goto_simps
  proof (intro conjI allI ballI impI)
    fix v
    show "in_section (((phase s)(t := p)) v) = (owner s = Some v)"
      using invD(1)[OF assms(1), of v] assms(3) o by simp
  next
    fix v b assume "((phase s)(t := p)) v = At_fill b"
    then have "phase s v = At_fill b" using assms(3) by (auto split: if_splits)
    then show "\<not> present b (wrap s)" "b \<notin> set (filled s)" using invD(2)[OF assms(1)] by blast+
  next
    fix v b r assume "((phase s)(t := p)) v = At_store b r"
    then have "phase s v = At_store b r" using assms(3) by (auto split: if_splits)
    then show "\<not> present b (wrap s)" "\<exists>c. fst (fill b c) = Some r" "b \<in> set (filled s)"
      using invD(3)[OF assms(1)] by blast+
  next
    fix v b w assume a: "((phase s)(t := p)) v = At_unlock b w \<or> ((phase s)(t := p)) v = Done b w"
    then have "present b w \<and> present b (wrap s)"
      using assms(3,4) invD(4,5)[OF assms(1)] by (cases "v = t") auto
    then show "present b w" "present b (wrap s)" by simp_all
  next
    show "distinct (filled s)" by (rule invD(6)[OF assms(1)])
  next
    fix b assume "b \<in> set (filled s)"
    then show "present b (wrap s) \<or> (\<exists>v r. ((phase s)(t := p)) v = At_store b r)"
      using f[of b] by (metis fun_upd_other)
  qed
qed

lemma section_unique: "inv s \<Longrightarrow> owner s = Some t \<Longrightarrow> in_section (phase s u) \<longleftrightarrow> u = t"
  by (metis invD(1) option.inject)

lemma step_ok:
  assumes inv: "inv s" and step: "dc_step present fill store t s = Some s'"
  shows "inv s'"
proof (cases "phase s t")
  case (At_load b)
  with step have s': "s' = goto t (if present b (wrap s) then Done b (wrap s) else At_lock b) s"
    by (simp add: dc_step_def)
  show ?thesis unfolding s' by (rule goto_outside_ok[OF inv]) (simp_all add: At_load split: if_splits)
next
  case (At_lock b)
  with step have o: "owner s = None" and s': "s' = goto t (At_check b) (s\<lparr>owner := Some t\<rparr>)"
    by (simp_all add: dc_step_def split: if_splits)
  have "\<not> in_section (phase s u)" for u using inv o invD(1) by fastforce
  then have "phase s u \<noteq> At_store b' r" for u b' r by (metis in_section.simps(3))
  with \<open>\<And>u. \<not> in_section (phase s u)\<close> inv show ?thesis unfolding s' inv_def goto_simps fun_upd_apply
    by (elim conjE, intro conjI) (auto; fail)+
next
  case (At_check b)
  note own = iffD1[OF invD(1)[OF inv, of t]]
  have o: "owner s = Some t" using own At_check by simp
  note u = section_unique[OF inv o]
  have ns: "phase s v \<noteq> At_store b' r" for v b' r using u[of v] At_check by (cases "v = t") auto
  have pres: "b' \<in> set (filled s) \<Longrightarrow> present b' (wrap s)" for b' using invD(7)[OF inv] ns by blast
  from At_check step have s': "s' = goto t (if present b (wrap s) then At_unlock b (wrap s) else At_fill b) s"
    by (simp add: dc_step_def)
  show ?thesis using inv u ns pres o At_check unfolding s' inv_def goto_simps fun_upd_apply
    by (elim conjE, intro conjI) (auto; fail)+
next
  case (At_fill b)
  have o: "owner s = Some t" using invD(1)[OF inv, of t] At_fill by simp
  note u = section_unique[OF inv o]
  have nf: "v \<noteq> t \<Longrightarrow> \<not> in_section (phase s v)" for v using u by blast
  have ns: "phase s v \<noteq> At_store b' r'" for v b' r' using nf[of v] At_fill by (cases "v = t") auto
  have nfl: "v \<noteq> t \<Longrightarrow> phase s v \<noteq> At_fill b'" for v b' using nf[of v] by auto
  have pres: "b' \<in> set (filled s) \<Longrightarrow> present b' (wrap s)" for b' using invD(7)[OF inv] ns by blast
  obtain ro c where rc: "fill b (cache s) = (ro, c)" by (cases "fill b (cache s)")
  show ?thesis
  proof (cases ro)
    case None
    with At_fill step rc have s': "s' = goto t (Unwinding b) (s\<lparr>cache := c\<rparr>)" by (simp add: dc_step_def)
    show ?thesis using inv u ns nfl pres o At_fill unfolding s' inv_def goto_simps fun_upd_apply
      by (elim conjE, intro conjI) (auto; fail)+
  next
    case (Some r)
    with rc have ex: "fst (fill b (cache s)) = Some r" by simp
    from At_fill step rc Some have s': "s' = goto t (At_store b r) (s\<lparr>cache := c, filled := b # filled s\<rparr>)"
      by (simp add: dc_step_def)
    show ?thesis
      using inv u ns nfl pres o invD(2)[OF inv At_fill] ex At_fill
      unfolding s' inv_def goto_simps fun_upd_apply
      by (elim conjE, intro conjI) (auto; fail)+
  qed
next
  case (At_store b r)
  have o: "owner s = Some t" using invD(1)[OF inv, of t] At_store by simp
  note u = section_unique[OF inv o]
  have nf: "v \<noteq> t \<Longrightarrow> \<not> in_section (phase s v)" for v using u by blast
  define w where "w = store r (wrap s)"
  from At_store step have s': "s' = goto t (At_unlock b w) (s\<lparr>wrap := w\<rparr>)"
    by (simp add: dc_step_def Let_def w_def)
  obtain c where c: "fst (fill b c) = Some r" and np: "\<not> present b (wrap s)" using invD(3)[OF inv At_store] by blast
  have pb: "present b w" unfolding w_def by (rule store_present[OF c np])
  have keep: "present b' (wrap s) \<Longrightarrow> present b' w" for b' unfolding w_def by (rule store_keeps[OF c _ np])
  have ns: "v \<noteq> t \<Longrightarrow> phase s v \<noteq> At_store b' r'" "v \<noteq> t \<Longrightarrow> phase s v \<noteq> At_fill b'" for v b' r'
    using nf[of v] by auto
  have pres: "b' \<in> set (filled s) \<Longrightarrow> present b' w" for b'
    using invD(7)[OF inv, of b'] ns(1) keep pb At_store by (metis phase.inject(5))
  show ?thesis
    using inv u ns pres keep o pb At_store unfolding s' inv_def goto_simps fun_upd_apply
    by (elim conjE, intro conjI) (auto; fail)+
next
  case (At_unlock b w)
  have o: "owner s = Some t" using invD(1)[OF inv, of t] At_unlock by simp
  note u = section_unique[OF inv o]
  have nf: "v \<noteq> t \<Longrightarrow> \<not> in_section (phase s v)" for v using u by blast
  have ns: "phase s v \<noteq> At_store b' r'" for v b' r' using nf[of v] At_unlock by (cases "v = t") auto
  have p: "present b w" "present b (wrap s)" using invD(4)[OF inv At_unlock] by simp_all
  from At_unlock step have s': "s' = goto t (Done b w) (s\<lparr>owner := None\<rparr>)"
    by (simp add: dc_step_def)
  show ?thesis
    using inv nf ns p At_unlock unfolding s' inv_def goto_simps fun_upd_apply
    by (elim conjE, intro conjI) (auto; fail)+
next
  case (Unwinding b)
  have o: "owner s = Some t" using invD(1)[OF inv, of t] Unwinding by simp
  note u = section_unique[OF inv o]
  have nf: "v \<noteq> t \<Longrightarrow> \<not> in_section (phase s v)" for v using u by blast
  have ns: "phase s v \<noteq> At_store b' r'" for v b' r' using nf[of v] Unwinding by (cases "v = t") auto
  from Unwinding step have s': "s' = goto t (Threw b) (s\<lparr>owner := None\<rparr>)"
    by (simp add: dc_step_def)
  show ?thesis
    using inv nf ns Unwinding unfolding s' inv_def goto_simps fun_upd_apply
    by (elim conjE, intro conjI) (auto; fail)+
qed (use step in \<open>simp_all add: dc_step_def\<close>)

lemma next_ok: "inv s \<Longrightarrow> dc_next (dc_step present fill store) s s' \<Longrightarrow> inv s'"
proof (erule dc_next_elim)
  fix t b' w b assume "inv s" "phase s t = Outside \<or> phase s t = Done b' w \<or> phase s t = Threw b'" "s' = goto t (At_load b) s"
  then show "inv s'" using goto_outside_ok[of s t "At_load b"] by auto
qed (rule step_ok)

lemma reachable_ok: "dc_reachable (dc_step present fill store) w c s \<Longrightarrow> inv s"
  by (induction rule: dc_reachable.induct) (auto intro: init_ok next_ok)

text \<open>As long as some call is under way, some thread can go on.\<close>

lemma no_deadlock:
  assumes "inv s" and "steps_left (phase s t) > 0"
  shows "\<exists>u s'. dc_step present fill store u s = Some s'"
proof (cases "owner s")
  case None
  with assms(2) show ?thesis
    by (intro exI[of _ t]) (cases "phase s t"; simp add: dc_step_def Let_def split: prod.split option.split)
next
  case (Some u)
  then have "in_section (phase s u)" using invD(1)[OF assms(1)] by blast
  then show ?thesis
    by (intro exI[of _ u]) (cases "phase s u"; simp add: dc_step_def Let_def split: prod.split option.split)
qed

end

subsection \<open>The two templates and the caches of a file\<close>

lemma in_section_steps_left: "in_section p \<Longrightarrow> steps_left p > 0"
  by (cases p) simp_all

lemma DoubleCheckedLock_contract:
  assumes "\<And>c. fst (cache_filler c) \<noteq> Some NullVal"
  shows "double_checked (\<lambda>_ w. w \<noteq> NullVal) (\<lambda>_. cache_filler) (\<lambda>r w. r)"
  by unfold_locales (use assms in fastforce)+

lemma and_or_nonzero: "(w :: 8 word) AND m \<noteq> 0 \<or> r AND m \<noteq> 0 \<Longrightarrow> (w OR r) AND m \<noteq> 0"
  by (metis bit.conj_disj_distrib2 or_eq_0_iff)

lemma DoubleCheckedMultiLock_contract:
  fixes bits :: "'b \<Rightarrow> 8 word"
  assumes "\<And>b c r. fst (cache_filler b c) = Some r \<Longrightarrow> r AND bits b \<noteq> 0"
  shows "double_checked (\<lambda>b w. w AND bits b \<noteq> 0) cache_filler (\<lambda>r w. w OR r)"
  by unfold_locales (use assms and_or_nonzero in blast)+

text \<open>
  The calls a \<open>FileID\<close> makes: what each asks for, and its filler for the \<open>i\<close>th file of the heap.
  \<open>GetDev\<close> and \<open>GetUniqueFileIdentifier\<close> make the same call. (The validity bits are in the atomic here,
  those of the record are not used.)
\<close>

datatype request = Ask_path | Ask_type | Ask_stat | Ask_uuid | Ask_descriptor | Give_uuid "64 word" "64 word"

fun request_bits :: "request \<Rightarrow> 8 word" where
  "request_bits Ask_path = V_PATH"
| "request_bits Ask_type = V_TYPE"
| "request_bits Ask_stat = V_STATINFO"
| "request_bits Ask_uuid = V_UUID"
| "request_bits Ask_descriptor = V_FILE_DESC"
| "request_bits (Give_uuid d n) = V_UUID"

definition stat_filler :: "os \<Rightarrow> nat \<Rightarrow> heap \<Rightarrow> 8 word option \<times> heap" where
  "stat_filler s i h =
     (case LazyLoadStatInfo s i h of None \<Rightarrow> (None, h) | Some h1 \<Rightarrow> (Some (V_UUID OR V_STATINFO OR V_TYPE), h1))"

fun file_filler :: "os \<Rightarrow> nat \<Rightarrow> request \<Rightarrow> heap \<Rightarrow> 8 word option \<times> heap" where
  "file_filler s i Ask_path h = (Some V_PATH, ResolvePath i h)"
| "file_filler s i Ask_type h = stat_filler s i h"
| "file_filler s i Ask_stat h = stat_filler s i h"
| "file_filler s i Ask_uuid h = stat_filler s i h"
| "file_filler s i Ask_descriptor h =
     (case impl_GetFileDescriptor s i h of
        (Some e, h1) \<Rightarrow> (None, h1) | (None, h1) \<Rightarrow> (Some (V_FILE_DESC OR V_PATH), h1))"
| "file_filler s i (Give_uuid d n) h = (Some V_UUID, update_id i (impl_SetDevIno d n) h)"

abbreviation file_lock ::
    "os \<Rightarrow> nat \<Rightarrow> nat \<Rightarrow> (request, 8 word, 8 word, heap) dc_state
      \<Rightarrow> (request, 8 word, 8 word, heap) dc_state option" where
  "file_lock s i \<equiv> DoubleCheckedMultiLock request_bits (file_filler s i)"

lemma file_filler_bits: "fst (file_filler s i b h) = Some r \<Longrightarrow> r AND request_bits b \<noteq> 0"
  by (cases b) (auto simp: stat_filler_def valid_defs split: option.splits prod.splits)

interpretation file_cache: double_checked "\<lambda>b w. w AND request_bits b \<noteq> 0" "file_filler s i" "\<lambda>r w. w OR r"
  for s i
  by (rule DoubleCheckedMultiLock_contract, rule file_filler_bits)

lemma file_caches_fill_once_parts:
  assumes "dc_reachable (file_lock s i) w h st"
  shows "in_section (phase st t) \<Longrightarrow> in_section (phase st u) \<Longrightarrow> t = u"
    and "distinct (filled st)"
    and "phase st t = Done b v \<Longrightarrow> wrap st AND request_bits b \<noteq> 0"
    and "b \<in> set (filled st) \<Longrightarrow> \<not> in_section (phase st t) \<Longrightarrow> owner st = None \<Longrightarrow> wrap st AND request_bits b \<noteq> 0"
    and "steps_left (phase st t) > 0 \<Longrightarrow> \<exists>u st'. file_lock s i u st = Some st'
           \<and> steps_left (phase st' u) < steps_left (phase st u) \<and> (\<forall>v. v \<noteq> u \<longrightarrow> phase st' v = phase st v)"
proof -
  have ok: "file_cache.inv s i st"
    using assms unfolding DoubleCheckedMultiLock_def by (rule file_cache.reachable_ok)
  show "in_section (phase st t) \<Longrightarrow> in_section (phase st u) \<Longrightarrow> t = u"
    using file_cache.invD(1)[OF ok] by (metis option.inject)
  show "distinct (filled st)" by (rule file_cache.invD(6)[OF ok])
  show "phase st t = Done b v \<Longrightarrow> wrap st AND request_bits b \<noteq> 0" using file_cache.invD(5)[OF ok] by blast
  show "b \<in> set (filled st) \<Longrightarrow> \<not> in_section (phase st t) \<Longrightarrow> owner st = None \<Longrightarrow> wrap st AND request_bits b \<noteq> 0"
    using file_cache.invD(7)[OF ok, of b] file_cache.invD(1)[OF ok] by (metis in_section.simps(3) option.distinct(1))
  assume "steps_left (phase st t) > 0"
  from file_cache.no_deadlock[OF ok this] obtain u st' where "file_lock s i u st = Some st'"
    unfolding DoubleCheckedMultiLock_def by blast
  moreover from this have "steps_left (phase st' u) < steps_left (phase st u) \<and> (\<forall>v. v \<noteq> u \<longrightarrow> phase st' v = phase st v)"
    unfolding DoubleCheckedMultiLock_def by (rule dc_step_measure)
  ultimately show "\<exists>u st'. file_lock s i u st = Some st'
           \<and> steps_left (phase st' u) < steps_left (phase st u) \<and> (\<forall>v. v \<noteq> u \<longrightarrow> phase st' v = phase st v)"
    by blast
qed

text \<open>
  C21. Any number of threads ask one FileID for its path, type, stat information, identity and descriptor, or
  give it its identity, in any interleaving. Then never are two of them in the critical section; for each of these
  kinds of request the filler completes at most once; a call that returns finds its cache valid, and a cache whose filler has
  completed is valid whenever no thread is in the critical section; and as long as a call is under way some thread
  can make a step, which brings its call closer to its end. (One cache can be written by the fillers of two
  kinds: the stat filler also writes the identity, even one given before. The path filler goes up the parents in one
  step, so their mutexes, which the code takes inside its own, are not part of the statement.)
\<close>

theorem file_caches_fill_once:
  assumes "dc_reachable (file_lock s i) w h st"
  shows "(\<forall>t u. in_section (phase st t) \<and> in_section (phase st u) \<longrightarrow> t = u) \<and> distinct (filled st)
    \<and> (\<forall>t b v. phase st t = Done b v \<longrightarrow> wrap st AND request_bits b \<noteq> 0)
    \<and> (\<forall>b. b \<in> set (filled st) \<and> owner st = None \<longrightarrow> wrap st AND request_bits b \<noteq> 0)
    \<and> (\<forall>t. steps_left (phase st t) > 0 \<longrightarrow> (\<exists>u st'. file_lock s i u st = Some st'
         \<and> steps_left (phase st' u) < steps_left (phase st u) \<and> (\<forall>v. v \<noteq> u \<longrightarrow> phase st' v = phase st v)))"
  using file_caches_fill_once_parts[OF assms] by (intro conjI allI impI) blast+


text \<open>A thread running alone does what the operations of the theory FileID do in one go.\<close>

primrec run_alone :: "nat \<Rightarrow> ('st \<Rightarrow> 'st option) \<Rightarrow> 'st \<Rightarrow> 'st" where
  "run_alone 0 f s = s"
| "run_alone (Suc n) f s = (case f s of None \<Rightarrow> s | Some s' \<Rightarrow> run_alone n f s')"

definition call_alone :: "os \<Rightarrow> nat \<Rightarrow> request \<Rightarrow> heap \<Rightarrow> (request, 8 word, 8 word, heap) dc_state" where
  "call_alone s i b h = run_alone 6 (file_lock s i 0) (goto 0 (At_load b) (dc_init (m_valid_bits (h ! i)) h))"

lemma call_alone_cases:
  "call_alone s i b h =
     (let w = m_valid_bits (h ! i); s0 = dc_init w h in
      if w AND request_bits b \<noteq> 0 then goto 0 (Done b w) s0
      else case file_filler s i b h of
        (Some r, h1) \<Rightarrow> goto 0 (Done b (w OR r)) (s0\<lparr>wrap := w OR r, cache := h1, filled := [b]\<rparr>)
      | (None, h1) \<Rightarrow> goto 0 (Threw b) (s0\<lparr>cache := h1\<rparr>))"
  by (auto simp: call_alone_def DoubleCheckedMultiLock_def dc_step_def dc_init_def goto_def Let_def
      numeral_eq_Suc split: prod.split option.split)

definition with_bits :: "nat \<Rightarrow> 8 word \<Rightarrow> heap \<Rightarrow> heap" where
  "with_bits i w = update_id i (\<lambda>f. f\<lparr>m_valid_bits := w\<rparr>)"

lemma with_bits_same [simp]: "with_bits i (m_valid_bits (h ! i)) h = h"
  by (simp add: with_bits_def update_id_def)

lemma with_bits_set_valid:
  "i < length h \<Longrightarrow> m_valid_bits (h ! i) OR b = w \<Longrightarrow> with_bits i w h = set_valid i b h"
  by (simp add: with_bits_def set_valid_def update_id_def)

lemma lazy_load_keeps:
  "i < length h \<Longrightarrow> LazyLoadStatInfo s i h = Some h1 \<Longrightarrow>
     length h1 = length h \<and> m_valid_bits (h1 ! i) = m_valid_bits (h ! i)"
  by (auto simp: LazyLoadStatInfo_def Let_def nth_update_id SetStatInfo_def split: option.splits)

lemma calls_alone_are_operations_parts:
  assumes "heap_ok h" and "i < length h"
  shows "GetPath i h = (let st = call_alone s i Ask_path h in with_bits i (wrap st) (cache st))"
    and "b \<in> {Ask_type, Ask_stat, Ask_uuid} \<Longrightarrow>
      ensure_stat s (request_bits b) i h =
        (let st = call_alone s i b h
         in if phase st 0 = Threw b then None else Some (with_bits i (wrap st) (cache st)))"
proof -
  have r: "map frame (ResolvePath i h) = map frame h" using GetPath_ResolvePath(2)[OF assms] by simp
  have "m_valid_bits (ResolvePath i h ! i) OR V_PATH = m_valid_bits (h ! i) OR V_PATH"
    by (rule frame_fields[OF map_frame_nth[OF r assms(2)]])
  then have w: "with_bits i (m_valid_bits (h ! i) OR V_PATH) (ResolvePath i h) = set_valid i V_PATH (ResolvePath i h)"
    using assms(2) map_frame_length[OF r] by (intro with_bits_set_valid) simp_all
  show "GetPath i h = (let st = call_alone s i Ask_path h in with_bits i (wrap st) (cache st))"
    using w by (simp add: call_alone_cases Let_def GetPath.simps[of i h] dc_init_def)
  have st: "LazyLoadStatInfo s i h = Some h1 \<Longrightarrow>
      with_bits i (m_valid_bits (h ! i) OR (V_UUID OR V_STATINFO OR V_TYPE)) h1
        = set_valid i (V_UUID OR V_STATINFO OR V_TYPE) h1" for h1
    using lazy_load_keeps[OF assms(2)] assms(2) by (intro with_bits_set_valid) simp_all
  assume "b \<in> {Ask_type, Ask_stat, Ask_uuid}"
  then have "file_filler s i b h = stat_filler s i h" by auto
  then show "ensure_stat s (request_bits b) i h =
        (let st = call_alone s i b h
         in if phase st 0 = Threw b then None else Some (with_bits i (wrap st) (cache st)))"
    using st by (auto simp: call_alone_cases Let_def ensure_stat_def stat_filler_def dc_init_def split: option.split)
qed

text \<open>
  GetPath and the stat getters of a file, run by one thread alone, are exactly their double-checked
  calls: the same cache contents and the same validity bits, and the failure of the filler is the only
  way not to return.
\<close>

theorem calls_alone_are_operations:
  assumes "heap_ok h" and "i < length h"
  shows "GetPath i h = (let st = call_alone s i Ask_path h in with_bits i (wrap st) (cache st))
    \<and> (\<forall>b \<in> {Ask_type, Ask_stat, Ask_uuid}. ensure_stat s (request_bits b) i h =
         (let st = call_alone s i b h
          in if phase st 0 = Threw b then None else Some (with_bits i (wrap st) (cache st))))"
  using calls_alone_are_operations_parts[OF assms] by blast


lemma file_caches_fill_once_witness:
  "let st0 = goto 1 (At_load Ask_path) (goto 0 (At_load Ask_path) (dc_init 0 sample_heap));
       st = run_alone 6 (file_lock sample_os 2 0) (the (file_lock sample_os 2 1 st0))
   in phase st 0 = Done Ask_path V_PATH \<and> wrap st AND V_PATH \<noteq> 0"
proof -
  define st0 :: "(request, 8 word, 8 word, heap) dc_state" where
    "st0 = goto 1 (At_load Ask_path) (goto 0 (At_load Ask_path) (dc_init 0 sample_heap))"
  define st where "st = run_alone 6 (file_lock sample_os 2 0) (the (file_lock sample_os 2 1 st0))"
  have r0: "dc_reachable (file_lock sample_os 2) 0 sample_heap st0"
    unfolding st0_def
    by (rule dc_more[OF dc_more[OF dc_start call] call]) (simp_all add: dc_init_def)
  have run: "dc_reachable l w c s \<Longrightarrow> dc_reachable l w c (run_alone n (l t) s)" for l w c n t
    and s :: "(request, 8 word, 8 word, heap) dc_state"
    by (induction n arbitrary: s) (auto split: option.split dest: reachable_go_on)
  have s1: "file_lock sample_os 2 1 st0 \<noteq> None"
    by (simp add: st0_def DoubleCheckedMultiLock_def dc_step_def dc_init_def)
  then have "dc_reachable (file_lock sample_os 2) 0 sample_heap (the (file_lock sample_os 2 1 st0))"
    using reachable_go_on[OF r0, of 1] by (metis option.exhaust_sel)
  then have r: "dc_reachable (file_lock sample_os 2) 0 sample_heap st"
    unfolding st_def by (rule run)
  have "phase st 0 = Done Ask_path V_PATH"
    by (simp add: st_def st0_def DoubleCheckedMultiLock_def dc_step_def dc_init_def numeral_eq_Suc)
  moreover from this have "wrap st AND request_bits Ask_path \<noteq> 0" using file_caches_fill_once[OF r] by blast
  ultimately show ?thesis
    unfolding Let_def st0_def[symmetric] st_def[symmetric] by simp
qed

lemma calls_alone_are_operations_witness:
  "GetPath 2 sample_heap = (let st = call_alone sample_os 2 Ask_path sample_heap in with_bits 2 (wrap st) (cache st))"
  using calls_alone_are_operations[OF sample_heap_ok(1), of 2 sample_os] sample_heap_ok(2) by simp

end
