(* ===== verification/DirTree.thy ===== *)
theory DirTree
  imports FileID SyncQueue TypeManager
begin

unbundle bit_operations_syntax

text \<open>
  The directory traversal: \<open>src/libext/DirTree.h\<close>, \<open>src/libext/DirTree.cpp\<close>, the directory filter of
  \<open>src/DirInclusionManager.cpp\<close> and the thread object of \<open>src/Globber.cpp\<close> that starts it.

  The state has the heap of \<open>FileID\<close>s, the two queues, the set of visited directories and the workers,
  the threads in \<open>ReaddirLoop\<close>. A step of a worker is what it does between two accesses to shared data:
  it pulls a directory and opens it, processes one entry, or delivers the files of a directory. The
  scanner threads at the other end of the output queue take files out of it at any time. Waiting in the
  directory queue and the detection of completion are the subject of the theory SyncQueue; here a
  worker that would wait has no step.
\<close>

subsection \<open>DirInclusionManager\<close>

definition builtin_dir_excludes :: "string list" where
  "builtin_dir_excludes =
     [''.bzr'', ''.git'', ''.hg'', ''.metadata'', ''.svn'', ''CMakeFiles'', ''CVS'', ''autom4te.cache'',
      ''.deps'', '''']"

definition AddExclusions :: "string set \<Rightarrow> string set \<Rightarrow> string set" where
  "AddExclusions exclusions m_excluded_literal_dirs = m_excluded_literal_dirs \<union> exclusions"

text \<open>The loop over the table up to the empty name.\<close>

fun add_excludes :: "string list \<Rightarrow> string set \<Rightarrow> string set" where
  "add_excludes [] d = d"
| "add_excludes (t # ts) d = (if t = [] then d else add_excludes ts (insert t d))"

definition CompileExclusionTables :: "string set \<Rightarrow> string set" where
  "CompileExclusionTables m_excluded_literal_dirs = add_excludes builtin_dir_excludes m_excluded_literal_dirs"

definition DirShouldBeExcluded :: "string set \<Rightarrow> string \<Rightarrow> bool" where
  "DirShouldBeExcluded m_excluded_literal_dirs name \<longleftrightarrow> name \<in> m_excluded_literal_dirs"

subsection \<open>State\<close>

record stats =
  m_num_directories_found :: nat
  m_num_dirs_rejected :: nat
  m_num_dotdirs_found :: nat
  m_num_dotdirs_rejected :: nat
  m_num_files_found :: nat
  m_num_files_rejected :: nat
  m_num_files_scanned :: nat
  m_num_filetype_stats :: nat
  m_num_filetype_without_stat :: nat

definition stats_init :: stats where
  "stats_init =
     \<lparr> m_num_directories_found = 0, m_num_dirs_rejected = 0, m_num_dotdirs_found = 0,
       m_num_dotdirs_rejected = 0, m_num_files_found = 0, m_num_files_rejected = 0,
       m_num_files_scanned = 0, m_num_filetype_stats = 0, m_num_filetype_without_stat = 0 \<rparr>"

definition stats_add :: "stats \<Rightarrow> stats \<Rightarrow> stats" where
  "stats_add a b =
     \<lparr> m_num_directories_found = m_num_directories_found a + m_num_directories_found b,
       m_num_dirs_rejected = m_num_dirs_rejected a + m_num_dirs_rejected b,
       m_num_dotdirs_found = m_num_dotdirs_found a + m_num_dotdirs_found b,
       m_num_dotdirs_rejected = m_num_dotdirs_rejected a + m_num_dotdirs_rejected b,
       m_num_files_found = m_num_files_found a + m_num_files_found b,
       m_num_files_rejected = m_num_files_rejected a + m_num_files_rejected b,
       m_num_files_scanned = m_num_files_scanned a + m_num_files_scanned b,
       m_num_filetype_stats = m_num_filetype_stats a + m_num_filetype_stats b,
       m_num_filetype_without_stat = m_num_filetype_without_stat a + m_num_filetype_without_stat b \<rparr>"

text \<open>The parameters of a traversal. \<open>m_junk\<close> is what the uninitialised \<open>struct stat\<close> of \<open>ProcessDirent\<close> holds.\<close>

record dir_tree =
  m_recurse :: bool
  m_follow_symlinks :: bool
  m_file_basename_filter :: "string \<Rightarrow> bool"
  m_dir_basename_filter :: "string \<Rightarrow> bool"
  m_os :: os
  m_junk :: stat_buf

text \<open>
  What the threads share. \<open>taken\<close> and \<open>finished_dirs\<close> are histories: the files that have left the output
  queue, and the directories done with.
\<close>

record shared =
  m_heap :: heap
  m_dir_queue :: "nat sync_queue"
  m_out_queue :: "nat sync_queue"
  m_dir_has_been_visited :: "dev_ino_pair set"
  m_stats :: stats
  taken :: "nat list"
  finished_dirs :: "nat list"

datatype worker =
    Pulling stats
  | Reading stats nat "dirent list" "nat list"
  | Exited

definition HasDirBeenVisited :: "dev_ino_pair \<Rightarrow> shared \<Rightarrow> bool \<times> shared" where
  "HasDirBeenVisited di sh =
     (di \<in> m_dir_has_been_visited sh, sh\<lparr>m_dir_has_been_visited := insert di (m_dir_has_been_visited sh)\<rparr>)"

subsection \<open>One directory entry\<close>

text \<open>What \<open>ProcessDirent\<close> finds out about an entry: directory, regular file, symbolic link, unknown.\<close>

record entry_kind =
  is_dir :: bool
  is_file :: bool
  is_symlink :: bool
  is_unknown :: bool

definition kind_of_dirent :: "dirent \<Rightarrow> entry_kind" where
  "kind_of_dirent de =
     \<lparr>is_dir = (d_type de = DT_DIR), is_file = (d_type de = DT_REG), is_symlink = (d_type de = DT_LNK),
      is_unknown = (d_type de = DT_UNKNOWN)\<rparr>"

definition needs_stat :: "dir_tree \<Rightarrow> entry_kind \<Rightarrow> bool" where
  "needs_stat dt k \<longleftrightarrow> is_unknown k \<or> m_follow_symlinks dt \<and> is_symlink k"

definition kind_of_stat :: "stat_buf \<Rightarrow> entry_kind \<Rightarrow> entry_kind" where
  "kind_of_stat sb k =
     \<lparr>is_dir = (st_mode sb = S_IFDIR), is_file = (st_mode sb = S_IFREG), is_symlink = (st_mode sb = S_IFLNK),
      is_unknown = (is_unknown k \<and> st_mode sb = S_IFOTHER)\<rparr>"

definition is_dot_dir :: "string \<Rightarrow> bool" where
  "is_dot_dir name \<longleftrightarrow> name = ''.'' \<or> name = ''..''"

definition dir_flags :: "32 word" where
  "dir_flags = FCF_DIRECTORY OR FCF_NOATIME OR FCF_NOCTTY OR FCF_NONBLOCK"

text \<open>The branch of a regular file.\<close>

definition process_file ::
    "dir_tree \<Rightarrow> nat \<Rightarrow> dirent \<Rightarrow> stat_buf option \<Rightarrow> stats \<times> nat list \<times> shared
      \<Rightarrow> (stats \<times> nat list \<times> shared) option" where
  "process_file dt dse de sb = (\<lambda>(st, local, sh).
     let st = st\<lparr>m_num_files_found := m_num_files_found st + 1\<rparr> in
     if m_file_basename_filter dt (dirent_get_name de) then
       (case GetDev (m_os dt) dse (m_heap sh) of
          None \<Rightarrow> None
        | Some (dev, h) \<Rightarrow>
            (case make_shared (FileID_relative dse (dirent_get_name de) sb FT_REG dev (d_ino de)
                                 FAM_RDONLY (FCF_NOCTTY OR FCF_NOATIME)) h of
               (f, h) \<Rightarrow>
                 Some (st\<lparr>m_num_files_scanned := m_num_files_scanned st + 1\<rparr>, local @ [f], sh\<lparr>m_heap := h\<rparr>)))
     else Some (st\<lparr>m_num_files_rejected := m_num_files_rejected st + 1\<rparr>, local, sh))"

text \<open>The branch of a directory.\<close>

definition process_dir ::
    "dir_tree \<Rightarrow> nat \<Rightarrow> dirent \<Rightarrow> stat_buf option \<Rightarrow> stats \<times> nat list \<times> shared
      \<Rightarrow> (stats \<times> nat list \<times> shared) option" where
  "process_dir dt dse de sb = (\<lambda>(st, local, sh).
     let st = st\<lparr>m_num_directories_found := m_num_directories_found st + 1\<rparr> in
     if \<not> m_recurse dt \<or> m_dir_basename_filter dt (dirent_get_name de) then
       Some (st\<lparr>m_num_dirs_rejected := m_num_dirs_rejected st + 1\<rparr>, local, sh)
     else
       (case GetDev (m_os dt) dse (m_heap sh) of
          None \<Rightarrow> None
        | Some (dev, h) \<Rightarrow>
            (case make_shared (FileID_relative dse (dirent_get_name de) sb FT_DIR dev (d_ino de)
                                 FAM_RDONLY dir_flags) h of
               (f, h) \<Rightarrow>
                 (if m_follow_symlinks dt then
                    (case GetUniqueFileIdentifier (m_os dt) f h of
                       None \<Rightarrow> None
                     | Some (di, h) \<Rightarrow>
                         (case HasDirBeenVisited di (sh\<lparr>m_heap := h\<rparr>) of
                            (True, sh) \<Rightarrow> Some (st\<lparr>m_num_dirs_rejected := m_num_dirs_rejected st + 1\<rparr>, local, sh)
                          | (False, sh) \<Rightarrow>
                              Some (st, local, sh\<lparr>m_dir_queue := snd (push_back f (m_dir_queue sh))\<rparr>)))
                  else Some (st, local, sh\<lparr>m_heap := h, m_dir_queue := snd (push_back f (m_dir_queue sh))\<rparr>)))))"

text \<open>\<open>DirTree::ProcessDirent\<close>; \<open>None\<close> when a getter of a \<open>FileID\<close> ends the program.\<close>

definition ProcessDirent ::
    "dir_tree \<Rightarrow> nat \<Rightarrow> dirent \<Rightarrow> stats \<times> nat list \<times> shared \<Rightarrow> (stats \<times> nat list \<times> shared) option" where
  "ProcessDirent dt dse de = (\<lambda>(st, local, sh).
     let k = kind_of_dirent de;
         without_stat = (\<lambda>st. st\<lparr>m_num_filetype_without_stat := m_num_filetype_without_stat st + 1\<rparr>)
     in
     if \<not> is_file k \<and> \<not> is_dir k \<and> \<not> is_symlink k \<and> \<not> is_unknown k then Some (without_stat st, local, sh)
     else
       (let st = (if \<not> is_unknown k then without_stat st else st) in
        if is_dot_dir (dirent_get_name de) then
          Some (without_stat (st\<lparr>m_num_dotdirs_found := m_num_dotdirs_found st + 1,
                                m_num_dotdirs_rejected := m_num_dotdirs_rejected st + 1\<rparr>), local, sh)
        else
          (let (st, k, sb) =
             (if needs_stat dt k then
                (let statbuf = (case FStatAt (m_os dt) dse (dirent_get_name de) (m_follow_symlinks dt) (m_heap sh) of
                                  None \<Rightarrow> m_junk dt | Some b \<Rightarrow> b)
                 in (st\<lparr>m_num_filetype_stats := m_num_filetype_stats st + 1\<rparr>, kind_of_stat statbuf k, Some statbuf))
              else (st, k, None))
           in
           if is_unknown k then Some (st, local, sh)
           else if is_file k then process_file dt dse de sb (st, local, sh)
           else if is_dir k then process_dir dt dse de sb (st, local, sh)
           else Some (st, local, sh))))"

subsection \<open>The worker threads\<close>

text \<open>One step of \<open>DirTree::ReaddirLoop\<close>; \<open>None\<close> when it has to wait, has ended, or the program ends.\<close>

definition ReaddirLoop :: "dir_tree \<Rightarrow> worker \<Rightarrow> shared \<Rightarrow> (worker \<times> shared) option" where
  "ReaddirLoop dt w sh =
     (case w of
        Pulling st \<Rightarrow>
          (case pull_front (m_dir_queue sh) of
             Inl _ \<Rightarrow> None
           | Inr ((status, v), q) \<Rightarrow>
               (case v of
                  None \<Rightarrow> Some (Exited, sh\<lparr>m_dir_queue := q, m_stats := stats_add (m_stats sh) st\<rparr>)
                | Some dse \<Rightarrow>
                    (case OpenDir (m_os dt) dse (m_heap sh) of
                       (None, h) \<Rightarrow>
                         Some (Pulling st, sh\<lparr>m_dir_queue := q, m_heap := h, finished_dirs := finished_dirs sh @ [dse]\<rparr>)
                     | (Some entries, h) \<Rightarrow> Some (Reading st dse entries [], sh\<lparr>m_dir_queue := q, m_heap := h\<rparr>))))
      | Reading st dse (de # des) local \<Rightarrow>
          map_option (\<lambda>(st, local, sh). (Reading st dse des local, sh)) (ProcessDirent dt dse de (st, local, sh))
      | Reading st dse [] local \<Rightarrow>
          Some (Pulling st,
            sh\<lparr>m_out_queue := (if local \<noteq> [] then snd (push_back_all local (m_out_queue sh)) else m_out_queue sh),
               m_heap := CloseDir dse (m_heap sh), finished_dirs := finished_dirs sh @ [dse]\<rparr>)
      | Exited \<Rightarrow> None)"

text \<open>The steps of the traversal with its workers, and of the consumers of its output.\<close>

inductive traverse_step :: "dir_tree \<Rightarrow> worker list \<times> shared \<Rightarrow> worker list \<times> shared \<Rightarrow> bool" for dt where
  worker: "t < length ws \<Longrightarrow> ReaddirLoop dt (ws ! t) sh = Some (w, sh') \<Longrightarrow>
    traverse_step dt (ws, sh) (ws[t := w], sh')"
| consumer: "pull_front (m_out_queue sh) = Inr ((success, Some f), q) \<Longrightarrow>
    traverse_step dt (ws, sh) (ws, sh\<lparr>m_out_queue := q, taken := taken sh @ [f]\<rparr>)"

subsection \<open>Scandir and Globber\<close>

text \<open>One path of the command line; \<open>0\<close> is the current directory.\<close>

definition scan_path :: "dir_tree \<Rightarrow> string \<Rightarrow> shared \<Rightarrow> shared option" where
  "scan_path dt p sh =
     (case make_shared (FileID_copy (FileID_at 0 (clean_up_path p) FAM_UNINITIALIZED FCF_UNINITIALIZED)) (m_heap sh) of
        (f, h) \<Rightarrow>
          (case GetFileType (m_os dt) f h of
             None \<Rightarrow> None
           | Some (t, h) \<Rightarrow>
               Some (if t = FT_REG then
                       sh\<lparr>m_heap := update_id f (SetFileDescriptorMode FAM_RDONLY (FCF_NOATIME OR FCF_NOCTTY)) h,
                          m_out_queue := snd (push_back f (m_out_queue sh))\<rparr>
                     else if t = FT_DIR then
                       sh\<lparr>m_heap := update_id f (SetFileDescriptorMode FAM_RDONLY dir_flags) h,
                          m_dir_queue := snd (push_back f (m_dir_queue sh))\<rparr>
                     else sh\<lparr>m_heap := h\<rparr>)))"

primrec scan_paths :: "dir_tree \<Rightarrow> string list \<Rightarrow> shared \<Rightarrow> shared option" where
  "scan_paths dt [] sh = Some sh"
| "scan_paths dt (p # ps) sh = (case scan_path dt p sh of None \<Rightarrow> None | Some sh' \<Rightarrow> scan_paths dt ps sh')"

definition shared_init :: "dir_tree \<Rightarrow> nat sync_queue \<Rightarrow> shared" where
  "shared_init dt out =
     \<lparr> m_heap = snd (OpenDir (m_os dt) 0 [FileID_cwd (m_os dt)]), m_dir_queue = sync_queue_init,
       m_out_queue = out, m_dir_has_been_visited = {}, m_stats = stats_init, taken = [], finished_dirs = [] \<rparr>"

text \<open>\<open>DirTree::Scandir\<close> up to the start of the threads.\<close>

definition Scandir :: "dir_tree \<Rightarrow> string list \<Rightarrow> nat \<Rightarrow> nat sync_queue \<Rightarrow> (worker list \<times> shared) option" where
  "Scandir dt start_paths dirjobs out =
     map_option (\<lambda>sh. (replicate dirjobs (Pulling stats_init), sh\<lparr>m_heap := CloseDir 0 (m_heap sh)\<rparr>))
       (scan_paths dt start_paths (shared_init dt out))"

record globber =
  m_start_paths :: "string list"
  m_type_manager :: type_manager
  m_excluded_dirs :: "string set"
  m_recurse_subdirs :: bool
  m_follow :: bool
  m_dirjobs :: nat

definition DirTree_ctor ::
    "(string \<Rightarrow> bool) \<Rightarrow> (string \<Rightarrow> bool) \<Rightarrow> bool \<Rightarrow> bool \<Rightarrow> os \<Rightarrow> stat_buf \<Rightarrow> dir_tree" where
  "DirTree_ctor file_basename_filter dir_basename_filter recurse follow_symlinks s junk =
     \<lparr> m_recurse = recurse, m_follow_symlinks = follow_symlinks, m_file_basename_filter = file_basename_filter,
       m_dir_basename_filter = dir_basename_filter, m_os = s, m_junk = junk \<rparr>"

definition Globber_Run ::
    "(string \<Rightarrow> string \<Rightarrow> bool) \<Rightarrow> os \<Rightarrow> stat_buf \<Rightarrow> globber \<Rightarrow> nat sync_queue \<Rightarrow> (worker list \<times> shared) option" where
  "Globber_Run fnm s junk g out =
     (let dt = DirTree_ctor (FileShouldBeScanned fnm (m_type_manager g)) (DirShouldBeExcluded (m_excluded_dirs g))
                 (m_recurse_subdirs g) (m_follow g) s junk
      in Scandir dt (m_start_paths g) (m_dirjobs g) out)"

subsection \<open>Facts about the directory filter\<close>

lemma add_excludes_set: "add_excludes ts d = d \<union> set (takeWhile (\<lambda>t. t \<noteq> []) ts)"
  by (induction ts arbitrary: d) auto

lemma DirShouldBeExcluded_iff:
  "DirShouldBeExcluded (AddExclusions ex (CompileExclusionTables d)) name \<longleftrightarrow>
     name \<in> d \<or> name \<in> ex \<or> name \<in> set (butlast builtin_dir_excludes)"
  by (auto simp: DirShouldBeExcluded_def AddExclusions_def CompileExclusionTables_def add_excludes_set
      builtin_dir_excludes_def)

end
