(* ===== verification/DirTraversal.thy ===== *)
theory DirTraversal
  imports DirTree "HOL-Library.Multiset"
begin

unbundle bit_operations_syntax

text \<open>
  What a traversal delivers. The specification speaks of path names and of what the file system answers
  about them: the directories \<open>reached\<close> from the command line and the files \<open>found\<close> in them. The
  invariants of the step relation of the theory DirTree relate the objects of the heap to these paths.
\<close>

subsection \<open>How the heap may change\<close>

text \<open>
  The heap of a traversal: the current directory, and files in directories.
\<close>

definition world :: "heap \<Rightarrow> bool" where
  "world h \<longleftrightarrow> heap_ok h \<and> h \<noteq> [] \<and> (\<forall>i<length h. 0 < i \<longrightarrow> m_at_dir (h ! i) \<noteq> None)"

lemma worldD:
  assumes "world h"
  shows "heap_ok h" "0 < length h"
    "i < length h \<Longrightarrow> 0 < i \<Longrightarrow> m_at_dir (h ! i) \<noteq> None"
  using assms by (auto simp: world_def)

definition same_file :: "file_id \<Rightarrow> file_id \<Rightarrow> bool" where
  "same_file f g \<longleftrightarrow> names f = names g \<and> m_file_descriptor f = m_file_descriptor g"

text \<open>Files stay what they are, new ones may follow; the directory streams of those in \<open>D\<close> may change.\<close>

definition evolves :: "nat set \<Rightarrow> heap \<Rightarrow> heap \<Rightarrow> bool" where
  "evolves D h h' \<longleftrightarrow>
     world h' \<and> length h \<le> length h'
     \<and> (\<forall>i<length h. same_file (h' ! i) (h ! i)
          \<and> (i \<notin> D \<longrightarrow> m_temp_dir_file_descriptor (h' ! i) = m_temp_dir_file_descriptor (h ! i)))"

lemma evolves_refl: "world h \<Longrightarrow> evolves D h h"
  by (simp add: evolves_def same_file_def)

lemma evolves_trans: "evolves D h h1 \<Longrightarrow> evolves E h1 h2 \<Longrightarrow> evolves (D \<union> E) h h2"
  by (auto simp: evolves_def same_file_def)

lemma evolvesD:
  assumes "evolves D h h'"
  shows "world h'" "length h \<le> length h'" "i < length h \<Longrightarrow> i < length h'"
    "i < length h \<Longrightarrow> i \<notin> D \<Longrightarrow> m_temp_dir_file_descriptor (h' ! i) = m_temp_dir_file_descriptor (h ! i)"
    "i < length h \<Longrightarrow> m_file_descriptor (h' ! i) = m_file_descriptor (h ! i)"
  using assms by (auto simp: evolves_def same_file_def)

lemma evolves_path: "evolves D h h' \<Longrightarrow> i < length h \<Longrightarrow> path_of i h' = path_of i h"
  by (rule path_of_names) (auto simp: evolves_def same_file_def)

text \<open>Two ways to show it: by what the path operations keep, and by all that \<open>heap_ok\<close> looks at.\<close>

definition core :: "file_id \<Rightarrow> nat option \<times> string \<times> string \<times> int \<times> bool" where
  "core f = (m_at_dir f, m_basename f, m_path f, m_file_descriptor f, m_valid_bits f AND V_PATH = 0)"

lemma evolves_frame:
  assumes "world h" and "heap_ok h'" and fr: "map frame h' = map frame h"
  shows "evolves D h h'"
proof -
  have len: "length h' = length h" by (rule map_frame_length[OF fr])
  have f: "k < length h \<Longrightarrow> frame (h' ! k) = frame (h ! k)" for k by (rule map_frame_nth[OF fr])
  have n: "k < length h \<Longrightarrow> m_at_dir (h' ! k) = m_at_dir (h ! k) \<and> m_file_descriptor (h' ! k) = m_file_descriptor (h ! k)
      \<and> names (h' ! k) = names (h ! k)
      \<and> m_temp_dir_file_descriptor (h' ! k) = m_temp_dir_file_descriptor (h ! k)" for k
    using frame_fields[OF f, of k] by (simp add: names_def)
  have "h' \<noteq> []" using len worldD(2)[OF assms(1)] by auto
  then have "world h'" using assms(1,2) n len by (simp add: world_def)
  with n len show ?thesis by (simp add: evolves_def same_file_def)
qed

lemma evolves_core:
  assumes "world h" and len: "length h' = length h"
    and c: "\<And>k. k < length h \<Longrightarrow> core (h' ! k) = core (h ! k)"
    and t: "\<And>k. k < length h \<Longrightarrow> k \<notin> D \<Longrightarrow> m_temp_dir_file_descriptor (h' ! k) = m_temp_dir_file_descriptor (h ! k)"
  shows "evolves D h h'"
proof -
  have f: "k < length h \<Longrightarrow> m_at_dir (h' ! k) = m_at_dir (h ! k) \<and> m_file_descriptor (h' ! k) = m_file_descriptor (h ! k)
      \<and> names (h' ! k) = names (h ! k)" for k
    using c[of k] by (simp add: core_def names_def)
  have "heap_ok h'"
    by (rule heap_ok_path_core[OF worldD(1)[OF assms(1)] len]) (use c in \<open>simp add: core_def path_core_def\<close>)
  moreover have "h' \<noteq> []" using len worldD(2)[OF assms(1)] by auto
  ultimately have "world h'" using assms(1) f len by (simp add: world_def)
  with f t len show ?thesis by (simp add: evolves_def same_file_def)
qed

lemma evolves_update:
  assumes "world h" and "core (g (h ! i)) = core (h ! i)"
    and "i \<notin> D \<Longrightarrow> m_temp_dir_file_descriptor (g (h ! i)) = m_temp_dir_file_descriptor (h ! i)"
  shows "evolves D h (update_id i g h)"
  by (rule evolves_core[OF assms(1)]) (use assms(2,3) in \<open>auto simp: nth_update_id\<close>)

lemma evolves_append:
  assumes "world h" and "file_ok (length h) (h @ [f])" and "m_at_dir f \<noteq> None"
  shows "evolves D h (h @ [f])"
  using assms heap_ok_append[OF worldD(1)[OF assms(1)] assms(2)] worldD(3)[OF assms(1)]
  by (auto simp: evolves_def world_def same_file_def nth_append less_Suc_eq)

subsection \<open>What the operations on files do to it\<close>

lemma path_bit: "(x OR (V_UUID OR V_STATINFO OR V_TYPE)) AND V_PATH = x AND V_PATH"
  by (simp add: bit.conj_disj_distrib2 valid_defs)

lemma LazyLoad_evolves:
  assumes "world h" and "0 < i" and "i < length h"
  obtains h1 where "LazyLoadStatInfo s i h = Some h1" and "evolves D h h1" and "length h1 = length h"
proof -
  from worldD(3)[OF assms(1) assms(3,2)] obtain j where j: "m_at_dir (h ! i) = Some j" by blast
  show thesis
    using that j evolves_update[OF assms(1)]
    by (simp add: LazyLoadStatInfo_def Let_def SetStatInfo_def core_def split: option.split)
qed

lemma ensure_stat_evolves:
  assumes "world h" and "0 < i" and "i < length h"
  obtains h1 where "ensure_stat s b i h = Some h1" and "evolves D h h1" and "length h1 = length h"
proof (cases "m_valid_bits (h ! i) AND b = 0")
  case False
  with that[of h] evolves_refl[OF assms(1)] show thesis by (simp add: ensure_stat_def)
next
  case True
  obtain h1 where h1: "LazyLoadStatInfo s i h = Some h1" "evolves D h h1" "length h1 = length h"
    by (rule LazyLoad_evolves[OF assms])
  let ?h = "set_valid i (V_UUID OR V_STATINFO OR V_TYPE) h1"
  have "evolves D h1 ?h" unfolding set_valid_def
    by (rule evolves_update[OF evolvesD(1)[OF h1(2)]]) (simp_all add: core_def path_bit)
  then have "evolves D h ?h" using evolves_trans[OF h1(2)] by (metis sup.idem)
  with that[of ?h] h1 True show thesis by (simp add: ensure_stat_def set_valid_def)
qed

lemma GetDev_evolves:
  assumes "world h" and "0 < i" and "i < length h"
  obtains d h1 where "GetDev s i h = Some (d, h1)" and "evolves D h h1" and "length h1 = length h"
  by (rule ensure_stat_evolves[OF assms, of s V_UUID D]) (simp add: GetDev_def that)

lemma GetUnique_evolves:
  assumes "world h" and "0 < i" and "i < length h"
  obtains d h1 where "GetUniqueFileIdentifier s i h = Some (d, h1)" and "evolves D h h1" and "length h1 = length h"
  by (rule ensure_stat_evolves[OF assms, of s V_UUID D]) (simp add: GetUniqueFileIdentifier_def that)

text \<open>The path of an entry of a directory.\<close>

definition entry_path :: "string \<Rightarrow> string \<Rightarrow> string" where
  "entry_path p name = (if is_pathname_absolute name then name else join_path p name)"

lemma path_of_append_last: "m_at_dir f = Some j \<Longrightarrow> j < length h \<Longrightarrow>
    path_of (length h) (h @ [f]) = entry_path (path_of j h) (m_basename f)"
  by (simp add: path_of.simps[of "length h"] entry_path_def path_of_append)

lemma new_file_evolves:
  assumes "world h" and "j < length h"
  shows "evolves D h (h @ [FileID_relative j b sb t d i fam fcf])"
    and "path_of (length h) (h @ [FileID_relative j b sb t d i fam fcf]) = entry_path (path_of j h) b"
    and "m_temp_dir_file_descriptor (FileID_relative j b sb t d i fam fcf) = -987"
    and "m_file_descriptor (FileID_relative j b sb t d i fam fcf) = -987"
proof -
  show "evolves D h (h @ [FileID_relative j b sb t d i fam fcf])"
    by (rule evolves_append[OF assms(1)])
      (use assms(2) in \<open>auto simp: relative_fields file_ok_def path_of.simps\<close>)
  show "path_of (length h) (h @ [FileID_relative j b sb t d i fam fcf]) = entry_path (path_of j h) b"
    using assms(2) by (simp add: path_of_append_last relative_fields)
qed (simp_all add: ctor_defs Let_def split: option.split)

text \<open>A directory that nobody has open.\<close>

definition unopened :: "heap \<Rightarrow> nat \<Rightarrow> bool" where
  "unopened h i \<longleftrightarrow> m_temp_dir_file_descriptor (h ! i) < 0 \<and> m_file_descriptor (h ! i) < 0"

lemma evolves_unopened: "evolves D h h' \<Longrightarrow> i < length h \<Longrightarrow> i \<notin> D \<Longrightarrow> unopened h' i = unopened h i"
  using evolvesD(4,5) by (simp add: unopened_def)

definition dir_open_flags :: "32 word" where
  "dir_open_flags = FAM_RDONLY OR FCF_NOATIME OR FCF_NOCTTY OR FCF_DIRECTORY"

lemma OpenDir_evolves:
  assumes "world h" and "0 < i" and "i < length h" and "unopened h i"
  obtains h1 where "OpenDir s i h = (sys_readdir s (sys_open s (path_of i h) dir_open_flags), h1)"
    and "evolves {i} h h1" and "length h1 = length h"
    and "m_temp_dir_file_descriptor (h1 ! i) = sys_open s (path_of i h) dir_open_flags"
proof -
  let ?h = "ResolvePath i h"
  have r: "heap_ok ?h" "map frame ?h = map frame h" "m_path (?h ! i) = path_of i h"
    using GetPath_ResolvePath(2)[OF worldD(1)[OF assms(1)] assms(3)] by simp_all
  have len: "length ?h = length h" by (rule map_frame_length[OF r(2)])
  have e: "evolves {i} h ?h" by (rule evolves_frame[OF assms(1) r(1,2)])
  define g where "g = (\<lambda>f :: file_id. f\<lparr>m_temp_dir_file_descriptor := sys_open s (m_path f) dir_open_flags\<rparr>)"
  have "evolves {i} ?h (update_id i g ?h)"
    by (rule evolves_update[OF evolvesD(1)[OF e]]) (simp_all add: core_def g_def)
  then have "evolves {i} h (update_id i g ?h)" using evolves_trans[OF e] by (metis sup.idem)
  moreover have "m_temp_dir_file_descriptor (update_id i g ?h ! i) = sys_open s (path_of i h) dir_open_flags"
    using len assms(3) r(3) by (simp add: nth_update_id g_def)
  moreover have "GetTempDirFileDesc s i h = (sys_open s (path_of i h) dir_open_flags, update_id i g ?h)"
    using assms(4) r(3) len assms(3) frame_fields(4,6)[OF map_frame_nth[OF r(2) assms(3)]]
    by (simp add: unopened_def GetTempDirFileDesc_def g_def dir_open_flags_def nth_update_id Let_def)
  ultimately show thesis using that[of "update_id i g ?h"] len by (simp add: OpenDir_def)
qed

lemma CloseDir_evolves: "world h \<Longrightarrow> evolves {i} h (CloseDir i h)"
  unfolding CloseDir_def by (rule evolves_update) (simp_all add: core_def)

subsection \<open>The specification\<close>

definition entries :: "dir_tree \<Rightarrow> string \<Rightarrow> dirent list option" where
  "entries dt p = sys_readdir (m_os dt) (sys_open (m_os dt) p dir_open_flags)"

definition stat_entry :: "dir_tree \<Rightarrow> string \<Rightarrow> dirent \<Rightarrow> st_mode option" where
  "stat_entry dt p de =
     map_option st_mode (sys_fstatat (m_os dt) (sys_open (m_os dt) p dir_open_flags) (dirent_get_name de)
                           (m_follow_symlinks dt))"

text \<open>The type of an entry: of the target of a link if links are followed, and nothing for a dangling one.\<close>

definition entry_type :: "dir_tree \<Rightarrow> string \<Rightarrow> dirent \<Rightarrow> st_mode option" where
  "entry_type dt p de =
     (case d_type de of
        DT_REG \<Rightarrow> Some S_IFREG
      | DT_DIR \<Rightarrow> Some S_IFDIR
      | DT_LNK \<Rightarrow> if m_follow_symlinks dt then stat_entry dt p de else Some S_IFLNK
      | DT_UNKNOWN \<Rightarrow> stat_entry dt p de
      | DT_OTHER \<Rightarrow> Some S_IFOTHER)"

definition wanted_file :: "dir_tree \<Rightarrow> string \<Rightarrow> dirent \<Rightarrow> bool" where
  "wanted_file dt p de \<longleftrightarrow> \<not> is_dot_dir (dirent_get_name de) \<and> entry_type dt p de = Some S_IFREG
     \<and> m_file_basename_filter dt (dirent_get_name de)"

definition wanted_dir :: "dir_tree \<Rightarrow> string \<Rightarrow> dirent \<Rightarrow> bool" where
  "wanted_dir dt p de \<longleftrightarrow> \<not> is_dot_dir (dirent_get_name de) \<and> entry_type dt p de = Some S_IFDIR
     \<and> m_recurse dt \<and> \<not> m_dir_basename_filter dt (dirent_get_name de)"

inductive reached :: "dir_tree \<Rightarrow> string set \<Rightarrow> string \<Rightarrow> bool" for dt roots where
  root: "p \<in> roots \<Longrightarrow> reached dt roots p"
| below: "reached dt roots p \<Longrightarrow> entries dt p = Some des \<Longrightarrow> de \<in> set des \<Longrightarrow> wanted_dir dt p de \<Longrightarrow>
    reached dt roots (entry_path p (dirent_get_name de))"

inductive found :: "dir_tree \<Rightarrow> string set \<Rightarrow> string set \<Rightarrow> string \<Rightarrow> bool" for dt roots files where
  named: "p \<in> files \<Longrightarrow> found dt roots files p"
| inside: "reached dt roots p \<Longrightarrow> entries dt p = Some des \<Longrightarrow> de \<in> set des \<Longrightarrow> wanted_file dt p de \<Longrightarrow>
    found dt roots files (entry_path p (dirent_get_name de))"

text \<open>
  The result of a failed \<open>fstatat\<close> is not looked at, and the structure it should have filled is used;
  what follows assumes that it does not happen to describe a file or a directory.
\<close>

definition quiet_junk :: "dir_tree \<Rightarrow> bool" where
  "quiet_junk dt \<longleftrightarrow> st_mode (m_junk dt) \<notin> {S_IFREG, S_IFDIR}"

subsection \<open>One entry\<close>

text \<open>What an entry of directory \<open>p\<close> does to the files of the directory and to the shared state.\<close>

definition entry_effect ::
    "dir_tree \<Rightarrow> string \<Rightarrow> dirent \<Rightarrow> nat list \<Rightarrow> shared \<Rightarrow> nat list \<Rightarrow> shared \<Rightarrow> bool" where
  "entry_effect dt p de local sh local' sh' \<longleftrightarrow>
     evolves {} (m_heap sh) (m_heap sh')
     \<and> m_out_queue sh' = m_out_queue sh \<and> taken sh' = taken sh \<and> finished_dirs sh' = finished_dirs sh
     \<and> (if wanted_file dt p de
        then \<exists>f. local' = local @ [f] \<and> f < length (m_heap sh') \<and> length (m_heap sh) \<le> f
               \<and> path_of f (m_heap sh') = entry_path p (dirent_get_name de)
        else local' = local)
     \<and> ((m_follow_symlinks dt \<or> \<not> wanted_dir dt p de) \<and> m_dir_queue sh' = m_dir_queue sh
        \<or> wanted_dir dt p de \<and> (\<exists>f. m_dir_queue sh' = snd (push_back f (m_dir_queue sh))
             \<and> f < length (m_heap sh') \<and> length (m_heap sh) \<le> f
             \<and> path_of f (m_heap sh') = entry_path p (dirent_get_name de)
             \<and> unopened (m_heap sh') f))"

lemma entry_effect_none:
  "world (m_heap sh) \<Longrightarrow> \<not> wanted_file dt p de \<Longrightarrow> m_follow_symlinks dt \<or> \<not> wanted_dir dt p de \<Longrightarrow>
     entry_effect dt p de local sh local sh"
  by (simp add: entry_effect_def evolves_refl)

lemma entry_effect_push:
  assumes "\<not> wanted_file dt p de" and "wanted_dir dt p de" and "evolves {} (m_heap sh) (m_heap sh')"
    and "m_dir_queue sh' = snd (push_back f (m_dir_queue sh))" and "m_out_queue sh' = m_out_queue sh"
    and "taken sh' = taken sh" and "finished_dirs sh' = finished_dirs sh"
    and "f < length (m_heap sh')" and "length (m_heap sh) \<le> f"
    and "path_of f (m_heap sh') = entry_path p (dirent_get_name de)"
    and "unopened (m_heap sh') f"
  shows "entry_effect dt p de local sh local sh'"
  using assms unfolding entry_effect_def by auto

lemma process_file_effect:
  assumes w: "world (m_heap sh)" and d: "0 < dse" "dse < length (m_heap sh)"
    and p: "p = path_of dse (m_heap sh)"
    and wf: "wanted_file dt p de = m_file_basename_filter dt (dirent_get_name de)" and nd: "\<not> wanted_dir dt p de"
  obtains st' local' sh' where "process_file dt dse de sb (st, local, sh) = Some (st', local', sh')"
    and "entry_effect dt p de local sh local' sh'"
proof (cases "m_file_basename_filter dt (dirent_get_name de)")
  case False
  with that entry_effect_none[OF w] wf nd show thesis by (simp add: process_file_def Let_def)
next
  case True
  obtain dev h where h: "GetDev (m_os dt) dse (m_heap sh) = Some (dev, h)" "evolves {} (m_heap sh) h" "length h = length (m_heap sh)"
    by (rule GetDev_evolves[OF w d])
  let ?f = "FileID_relative dse (dirent_get_name de) sb FT_REG dev (d_ino de) FAM_RDONLY (FCF_NOCTTY OR FCF_NOATIME)"
  have d': "dse < length h" using d(2) h(3) by simp
  note new = new_file_evolves(1)[OF evolvesD(1)[OF h(2)] d', of "{}"] new_file_evolves(2)[OF evolvesD(1)[OF h(2)] d']
  have "evolves {} (m_heap sh) (h @ [?f])" using evolves_trans[OF h(2) new(1)] by simp
  moreover have "path_of (length h) (h @ [?f]) = entry_path p (dirent_get_name de)"
    using new(2) evolves_path[OF h(2) d(2)] p by simp
  ultimately show thesis
    using that h True wf nd by (simp add: process_file_def Let_def make_shared_def entry_effect_def)
qed

lemma process_dir_effect:
  assumes w: "world (m_heap sh)" and d: "0 < dse" "dse < length (m_heap sh)"
    and p: "p = path_of dse (m_heap sh)"
    and wd: "wanted_dir dt p de = (m_recurse dt \<and> \<not> m_dir_basename_filter dt (dirent_get_name de))"
    and nf: "\<not> wanted_file dt p de"
  obtains st' local' sh' where "process_dir dt dse de sb (st, local, sh) = Some (st', local', sh')"
    and "entry_effect dt p de local sh local' sh'"
proof (cases "m_recurse dt \<and> \<not> m_dir_basename_filter dt (dirent_get_name de)")
  case False
  with that entry_effect_none[OF w nf] wd show thesis by (simp add: process_dir_def Let_def)
next
  case True
  obtain dev h where h: "GetDev (m_os dt) dse (m_heap sh) = Some (dev, h)" "evolves {} (m_heap sh) h" "length h = length (m_heap sh)"
    by (rule GetDev_evolves[OF w d])
  let ?f = "FileID_relative dse (dirent_get_name de) sb FT_DIR dev (d_ino de) FAM_RDONLY dir_flags"
  let ?h = "h @ [?f]"
  have d': "dse < length h" using d(2) h(3) by simp
  note new = new_file_evolves(1)[OF evolvesD(1)[OF h(2)] d', of "{}"] new_file_evolves(2)[OF evolvesD(1)[OF h(2)] d']
  have e: "evolves {} (m_heap sh) ?h" using evolves_trans[OF h(2) new(1)] by simp
  have path: "path_of (length h) ?h = entry_path p (dirent_get_name de)"
    using new(2) evolves_path[OF h(2) d(2)] p by simp
  have temp: "unopened ?h (length h)"
    by (simp add: unopened_def new_file_evolves(3,4)[OF evolvesD(1)[OF h(2)] d'])
  show thesis
  proof (cases "m_follow_symlinks dt")
    case False
    let ?sh = "sh\<lparr>m_heap := ?h, m_dir_queue := snd (push_back (length h) (m_dir_queue sh))\<rparr>"
    have "entry_effect dt p de local sh local ?sh"
      by (rule entry_effect_push[where f="length h"]) (use True nf wd h(3) e path temp in auto)
    with that False True h(1) show thesis by (simp add: process_dir_def Let_def make_shared_def)
  next
    case fo: True
    have pos: "0 < length h" using d' by linarith
    obtain di h2 where h2: "GetUniqueFileIdentifier (m_os dt) (length h) ?h = Some (di, h2)" "evolves {} ?h h2"
      "length h2 = length ?h"
      by (rule GetUnique_evolves[OF evolvesD(1)[OF e] pos]) simp
    have e2: "evolves {} (m_heap sh) h2" using evolves_trans[OF e h2(2)] by simp
    have p2: "path_of (length h) h2 = entry_path p (dirent_get_name de)"
      using evolves_path[OF h2(2)] path by simp
    have t2: "unopened h2 (length h)"
      using evolves_unopened[OF h2(2)] temp by simp
    show thesis
    proof (cases "di \<in> m_dir_has_been_visited sh")
      case True
      then show thesis
        using that fo h(1) h2(1) e2 nf wd \<open>m_recurse dt \<and> \<not> m_dir_basename_filter dt (dirent_get_name de)\<close>
        by (simp add: process_dir_def Let_def make_shared_def HasDirBeenVisited_def entry_effect_def)
    next
      case new: False
      let ?sh = "sh\<lparr>m_heap := h2, m_dir_has_been_visited := insert di (m_dir_has_been_visited sh),
        m_dir_queue := snd (push_back (length h) (m_dir_queue sh))\<rparr>"
      have "entry_effect dt p de local sh local ?sh"
        by (rule entry_effect_push[where f="length h"]) (use True nf wd h(3) h2(3) e2 p2 t2 in auto)
      then show thesis
        using that[of _ local ?sh] fo h(1) h2(1) new True
        by (simp add: process_dir_def Let_def make_shared_def HasDirBeenVisited_def)
    qed
  qed
qed

text \<open>The branch an entry takes, by its type.\<close>

lemma ProcessDirent_branches:
  assumes fd: "m_temp_dir_file_descriptor (m_heap sh ! dse) = sys_open (m_os dt) p dir_open_flags"
    and junk: "quiet_junk dt"
  shows "is_dot_dir (dirent_get_name de) \<or> entry_type dt p de \<notin> {Some S_IFREG, Some S_IFDIR} \<Longrightarrow>
      \<exists>st'. ProcessDirent dt dse de (st, local, sh) = Some (st', local, sh)"
    and "\<not> is_dot_dir (dirent_get_name de) \<Longrightarrow> entry_type dt p de = Some S_IFREG \<Longrightarrow>
      \<exists>sb' st'. ProcessDirent dt dse de (st, local, sh) = process_file dt dse de sb' (st', local, sh)
        \<and> (\<forall>b. sb' = Some b \<longrightarrow> sys_fstatat (m_os dt) (sys_open (m_os dt) p dir_open_flags) (dirent_get_name de)
                                   (m_follow_symlinks dt) = Some b)"
    and "\<not> is_dot_dir (dirent_get_name de) \<Longrightarrow> entry_type dt p de = Some S_IFDIR \<Longrightarrow>
      \<exists>sb' st'. ProcessDirent dt dse de (st, local, sh) = process_dir dt dse de sb' (st', local, sh)"
proof -
  let ?name = "dirent_get_name de"
  define r where "r = FStatAt (m_os dt) dse ?name (m_follow_symlinks dt) (m_heap sh)"
  define sb where "sb = (case r of None \<Rightarrow> m_junk dt | Some b \<Rightarrow> b)"
  have st: "stat_entry dt p de = map_option st_mode r"
    by (simp add: FStatAt_def stat_entry_def fd r_def)
  have r: "sys_fstatat (m_os dt) (sys_open (m_os dt) p dir_open_flags) ?name (m_follow_symlinks dt) = r"
    by (simp add: FStatAt_def fd r_def)
  have sb: "entry_type dt p de \<noteq> Some S_IFREG \<and> entry_type dt p de \<noteq> Some S_IFDIR \<longleftrightarrow>
      st_mode sb \<noteq> S_IFREG \<and> st_mode sb \<noteq> S_IFDIR"
    "entry_type dt p de = Some S_IFREG \<longleftrightarrow> st_mode sb = S_IFREG"
    "entry_type dt p de = Some S_IFDIR \<longleftrightarrow> st_mode sb = S_IFDIR"
    if "needs_stat dt (kind_of_dirent de)"
    using that junk unfolding sb_def quiet_junk_def entry_type_def needs_stat_def kind_of_dirent_def st
    by (cases "d_type de"; cases r; simp)+
  note defs = ProcessDirent_def prod.case sb_def[symmetric] r_def[symmetric] Let_def
  note known = kind_of_dirent_def kind_of_stat_def entry_type_def needs_stat_def
  have plain: "needs_stat dt (kind_of_dirent de) \<or> d_type de \<in> {DT_REG, DT_DIR, DT_OTHER}
      \<or> d_type de = DT_LNK \<and> \<not> m_follow_symlinks dt"
    by (cases "d_type de") (auto simp: needs_stat_def kind_of_dirent_def)
  show "is_dot_dir ?name \<or> entry_type dt p de \<notin> {Some S_IFREG, Some S_IFDIR} \<Longrightarrow>
      \<exists>st'. ProcessDirent dt dse de (st, local, sh) = Some (st', local, sh)"
    using plain sb(1) unfolding defs
    by (cases "is_dot_dir ?name"; cases "d_type de"; cases "needs_stat dt (kind_of_dirent de)"; cases "st_mode sb")
      (simp_all add: known)
  show "\<not> is_dot_dir ?name \<Longrightarrow> entry_type dt p de = Some S_IFREG \<Longrightarrow>
      \<exists>sb' st'. ProcessDirent dt dse de (st, local, sh) = process_file dt dse de sb' (st', local, sh)
        \<and> (\<forall>b. sb' = Some b \<longrightarrow> sys_fstatat (m_os dt) (sys_open (m_os dt) p dir_open_flags) (dirent_get_name de)
                                   (m_follow_symlinks dt) = Some b)"
  proof -
    assume nd: "\<not> is_dot_dir ?name" and reg: "entry_type dt p de = Some S_IFREG"
    define sb' where "sb' = (if needs_stat dt (kind_of_dirent de) then Some sb else None)"
    have "\<exists>st'. ProcessDirent dt dse de (st, local, sh) = process_file dt dse de sb' (st', local, sh)"
      using plain sb(2) nd reg unfolding defs sb'_def
      by (cases "d_type de"; cases "needs_stat dt (kind_of_dirent de)") (simp_all add: known; blast)+
    moreover have "r = Some b" if "sb' = Some b" for b
      using that reg unfolding sb'_def sb_def entry_type_def needs_stat_def kind_of_dirent_def st
      by (cases "d_type de"; cases r) (simp_all split: if_splits)
    ultimately show ?thesis unfolding r by blast
  qed
  show "\<not> is_dot_dir ?name \<Longrightarrow> entry_type dt p de = Some S_IFDIR \<Longrightarrow>
      \<exists>sb' st'. ProcessDirent dt dse de (st, local, sh) = process_dir dt dse de sb' (st', local, sh)"
    using plain sb(3) unfolding defs
    by (cases "d_type de"; cases "needs_stat dt (kind_of_dirent de)") (simp_all add: known; blast)+
qed

lemma ProcessDirent_effect:
  assumes w: "world (m_heap sh)" and d: "0 < dse" "dse < length (m_heap sh)"
    and p: "p = path_of dse (m_heap sh)"
    and fd: "m_temp_dir_file_descriptor (m_heap sh ! dse) = sys_open (m_os dt) p dir_open_flags"
    and junk: "quiet_junk dt"
  obtains st' local' sh' where "ProcessDirent dt dse de (st, local, sh) = Some (st', local', sh')"
    and "entry_effect dt p de local sh local' sh'"
proof -
  let ?name = "dirent_get_name de"
  let ?goal = "\<lambda>r. \<exists>st' local' sh'. r = Some (st', local', sh') \<and> entry_effect dt p de local sh local' sh'"
  have none: "?goal (Some (st', local, sh))" if "\<not> wanted_file dt p de" "\<not> wanted_dir dt p de" for st'
    using entry_effect_none[OF w] that by blast
  have reg: "?goal (process_file dt dse de sb' (st', local, sh))"
    if "entry_type dt p de = Some S_IFREG" "\<not> is_dot_dir ?name" for sb' st'
    by (rule process_file_effect[OF w d p, of dt de sb' st' local]) (use that in \<open>auto simp: wanted_file_def wanted_dir_def\<close>)
  have dir: "?goal (process_dir dt dse de sb' (st', local, sh))"
    if "entry_type dt p de = Some S_IFDIR" "\<not> is_dot_dir ?name" for sb' st'
    by (rule process_dir_effect[OF w d p, of dt de sb' st' local]) (use that in \<open>auto simp: wanted_file_def wanted_dir_def\<close>)
  have "?goal (ProcessDirent dt dse de (st, local, sh))"
  proof (cases "is_dot_dir ?name \<or> entry_type dt p de \<notin> {Some S_IFREG, Some S_IFDIR}")
    case True
    then have nw: "\<not> wanted_file dt p de" "\<not> wanted_dir dt p de" by (auto simp: wanted_file_def wanted_dir_def)
    have "\<exists>st'. ProcessDirent dt dse de (st, local, sh) = Some (st', local, sh)"
      by (rule ProcessDirent_branches(1)[OF fd junk True])
    with none[OF nw] show ?thesis by fastforce
  next
    case False
    then have nd: "\<not> is_dot_dir ?name" by simp
    from False consider "entry_type dt p de = Some S_IFREG" | "entry_type dt p de = Some S_IFDIR" by blast
    then show ?thesis
    proof cases
      case 1
      with ProcessDirent_branches(2)[OF fd junk nd 1, of st local] reg[OF 1 nd] show ?thesis by fastforce
    next
      case 2
      with ProcessDirent_branches(3)[OF fd junk nd 2, of st local] dir[OF 2 nd] show ?thesis by fastforce
    qed
  qed
  then show thesis using that by blast
qed

subsection \<open>The invariant of a traversal\<close>

fun dir_of :: "worker \<Rightarrow> nat list" where
  "dir_of (Reading st d todo local) = [d]"
| "dir_of _ = []"

fun local_of :: "worker \<Rightarrow> nat list" where
  "local_of (Reading st d todo local) = local"
| "local_of _ = []"

text \<open>All the directories and files the traversal has come across, and their paths.\<close>

definition dir_ids :: "worker list \<Rightarrow> shared \<Rightarrow> nat set" where
  "dir_ids ws sh = set (m_underlying_queue (m_dir_queue sh)) \<union> set (concat (map dir_of ws)) \<union> set (finished_dirs sh)"

definition delivered :: "shared \<Rightarrow> nat set" where
  "delivered sh = set (taken sh) \<union> set (m_underlying_queue (m_out_queue sh))"

definition file_ids :: "worker list \<Rightarrow> shared \<Rightarrow> nat set" where
  "file_ids ws sh = delivered sh \<union> set (concat (map local_of ws))"

definition paths :: "heap \<Rightarrow> nat set \<Rightarrow> string set" where
  "paths h ids = (\<lambda>i. path_of i h) ` ids"

text \<open>An entry that has been processed has left its trace.\<close>

definition covered :: "dir_tree \<Rightarrow> string set \<Rightarrow> string set \<Rightarrow> string \<Rightarrow> dirent \<Rightarrow> bool" where
  "covered dt D Fs p de \<longleftrightarrow>
     (wanted_file dt p de \<longrightarrow> entry_path p (dirent_get_name de) \<in> Fs)
     \<and> (\<not> m_follow_symlinks dt \<and> wanted_dir dt p de \<longrightarrow> entry_path p (dirent_get_name de) \<in> D)"

definition worker_ok :: "dir_tree \<Rightarrow> heap \<Rightarrow> string set \<Rightarrow> string set \<Rightarrow> worker \<Rightarrow> bool" where
  "worker_ok dt h D Fs w \<longleftrightarrow>
     (case w of
        Reading st d todo local \<Rightarrow>
          m_temp_dir_file_descriptor (h ! d) = sys_open (m_os dt) (path_of d h) dir_open_flags
          \<and> (\<exists>seen. entries dt (path_of d h) = Some (seen @ todo) \<and> (\<forall>de\<in>set seen. covered dt D Fs (path_of d h) de))
      | _ \<Rightarrow> True)"

definition finished_ok :: "dir_tree \<Rightarrow> heap \<Rightarrow> string set \<Rightarrow> string set \<Rightarrow> nat \<Rightarrow> bool" where
  "finished_ok dt h D Fs d \<longleftrightarrow>
     (\<forall>des. entries dt (path_of d h) = Some des \<longrightarrow> (\<forall>de\<in>set des. covered dt D Fs (path_of d h) de))"

definition traversal_inv :: "dir_tree \<Rightarrow> string set \<Rightarrow> string set \<Rightarrow> worker list \<Rightarrow> shared \<Rightarrow> bool" where
  "traversal_inv dt roots files ws sh \<longleftrightarrow>
     world (m_heap sh) \<and> \<not> m_closed (m_dir_queue sh) \<and> \<not> m_closed (m_out_queue sh)
     \<and> dir_ids ws sh \<subseteq> {0<..<length (m_heap sh)} \<and> file_ids ws sh \<subseteq> {..<length (m_heap sh)}
     \<and> distinct (m_underlying_queue (m_dir_queue sh) @ concat (map dir_of ws))
     \<and> (\<forall>i \<in> set (m_underlying_queue (m_dir_queue sh)). unopened (m_heap sh) i)
     \<and> (\<forall>w \<in> set ws. worker_ok dt (m_heap sh) (paths (m_heap sh) (dir_ids ws sh)) (paths (m_heap sh) (file_ids ws sh)) w)
     \<and> (\<forall>d \<in> set (finished_dirs sh).
          finished_ok dt (m_heap sh) (paths (m_heap sh) (dir_ids ws sh)) (paths (m_heap sh) (file_ids ws sh)) d)
     \<and> paths (m_heap sh) (dir_ids ws sh) \<subseteq> Collect (reached dt roots) \<and> roots \<subseteq> paths (m_heap sh) (dir_ids ws sh)
     \<and> paths (m_heap sh) (file_ids ws sh) \<subseteq> Collect (found dt roots files) \<and> files \<subseteq> paths (m_heap sh) (file_ids ws sh)"

lemma covered_mono: "covered dt D Fs p de \<Longrightarrow> D \<subseteq> D' \<Longrightarrow> Fs \<subseteq> Fs' \<Longrightarrow> covered dt D' Fs' p de"
  by (auto simp: covered_def)

lemma worker_ok_mono:
  assumes "worker_ok dt h D Fs w" and "evolves X h h'" and "set (dir_of w) \<subseteq> {..<length h}" and "set (dir_of w) \<inter> X = {}"
    and "D \<subseteq> D'" and "Fs \<subseteq> Fs'"
  shows "worker_ok dt h' D' Fs' w"
proof (cases w)
  case (Reading st d todo local)
  then have d: "d < length h" "d \<notin> X" using assms(3,4) by auto
  have p: "path_of d h' = path_of d h" by (rule evolves_path[OF assms(2) d(1)])
  have t: "m_temp_dir_file_descriptor (h' ! d) = m_temp_dir_file_descriptor (h ! d)"
    by (rule evolvesD(4)[OF assms(2) d])
  show ?thesis using assms(1) covered_mono[OF _ assms(5,6)] unfolding worker_ok_def Reading worker.case p t by blast
qed (simp_all add: worker_ok_def)

lemma finished_ok_mono:
  "finished_ok dt h D Fs d \<Longrightarrow> evolves X h h' \<Longrightarrow> d < length h \<Longrightarrow> D \<subseteq> D' \<Longrightarrow> Fs \<subseteq> Fs' \<Longrightarrow> finished_ok dt h' D' Fs' d"
  unfolding finished_ok_def using covered_mono evolves_path by metis

lemma paths_mono:
  assumes "evolves X h h'" and "ids \<subseteq> {..<length h}" and "ids \<subseteq> ids'"
  shows "paths h ids \<subseteq> paths h' ids'"
  unfolding paths_def using assms evolves_path[OF assms(1)] by (smt (verit) image_iff image_subset_iff lessThan_iff subsetD)

lemma reached_mono: "reached dt roots p \<Longrightarrow> roots \<subseteq> roots' \<Longrightarrow> reached dt roots' p"
  by (induction rule: reached.induct) (auto intro: reached.intros)

lemma found_mono:
  assumes "found dt roots files p" and "roots \<subseteq> roots'" and "files \<subseteq> files'"
  shows "found dt roots' files' p"
  using assms(1)
proof cases
  case named
  with assms(3) show ?thesis by (auto intro: found.intros)
next
  case (inside p' des de)
  with reached_mono[OF _ assms(2)] show ?thesis by (auto intro: found.intros)
qed

text \<open>What a step of one worker has to keep to; before there are workers, the paths named grow as well.\<close>

lemma traversal_inv_grow:
  assumes inv: "traversal_inv dt roots files (a @ w0 # b) sh"
    and ev: "evolves X (m_heap sh) (m_heap sh')"
    and X: "X \<inter> set (concat (map dir_of (a @ b))) = {}"
    and cl: "\<not> m_closed (m_dir_queue sh')" "\<not> m_closed (m_out_queue sh')"
    and D: "dir_ids (a @ w0 # b) sh \<subseteq> dir_ids (a @ w # b) sh'" "dir_ids (a @ w # b) sh' \<subseteq> dir_ids (a @ w0 # b) sh \<union> N"
      "N \<subseteq> {0<..<length (m_heap sh')}" "paths (m_heap sh') N \<subseteq> Collect (reached dt roots')"
    and F: "file_ids (a @ w0 # b) sh \<subseteq> file_ids (a @ w # b) sh'" "file_ids (a @ w # b) sh' \<subseteq> file_ids (a @ w0 # b) sh \<union> M"
      "M \<subseteq> {..<length (m_heap sh')}" "paths (m_heap sh') M \<subseteq> Collect (found dt roots' files')"
    and dis: "distinct (m_underlying_queue (m_dir_queue sh') @ concat (map dir_of (a @ w # b)))"
    and tmp: "\<forall>i \<in> set (m_underlying_queue (m_dir_queue sh')). unopened (m_heap sh') i"
    and wok: "worker_ok dt (m_heap sh') (paths (m_heap sh') (dir_ids (a @ w # b) sh'))
               (paths (m_heap sh') (file_ids (a @ w # b) sh')) w"
    and fin: "\<forall>d \<in> set (finished_dirs sh') - set (finished_dirs sh).
        finished_ok dt (m_heap sh') (paths (m_heap sh') (dir_ids (a @ w # b) sh')) (paths (m_heap sh') (file_ids (a @ w # b) sh')) d"
    and R: "roots \<subseteq> roots'" "roots' \<subseteq> roots \<union> paths (m_heap sh') N" "files \<subseteq> files'" "files' \<subseteq> files \<union> paths (m_heap sh') M"
    and NM: "N \<subseteq> dir_ids (a @ w # b) sh'" "M \<subseteq> file_ids (a @ w # b) sh'"
  shows "traversal_inv dt roots' files' (a @ w # b) sh'"
proof -
  let ?h = "m_heap sh" and ?h' = "m_heap sh'"
  let ?Di = "dir_ids (a @ w0 # b) sh" and ?Di' = "dir_ids (a @ w # b) sh'"
  let ?Fi = "file_ids (a @ w0 # b) sh" and ?Fi' = "file_ids (a @ w # b) sh'"
  note iv = inv[unfolded traversal_inv_def]
  have Db: "?Di \<subseteq> {0<..<length ?h}" and Fb: "?Fi \<subseteq> {..<length ?h}" using iv by blast+
  have Db': "?Di \<subseteq> {..<length ?h}" using Db by auto
  have len: "length ?h \<le> length ?h'" by (rule evolvesD(2)[OF ev])
  have DD: "paths ?h ?Di \<subseteq> paths ?h' ?Di'" by (rule paths_mono[OF ev Db' D(1)])
  have FF: "paths ?h ?Fi \<subseteq> paths ?h' ?Fi'" by (rule paths_mono[OF ev Fb F(1)])
  have old: "ids \<subseteq> {..<length ?h} \<Longrightarrow> paths ?h' ids = paths ?h ids" for ids
    unfolding paths_def using evolves_path[OF ev] by (intro image_cong) auto
  have Dn: "paths ?h' ?Di' \<subseteq> Collect (reached dt roots')"
  proof -
    have "Collect (reached dt roots) \<subseteq> Collect (reached dt roots')" using reached_mono[OF _ R(1)] by blast
    moreover
    have "paths ?h' ?Di' \<subseteq> paths ?h' ?Di \<union> paths ?h' N" using D(2) unfolding paths_def by blast
    ultimately show ?thesis using old[OF Db'] D(4) iv by blast
  qed
  have Fn: "paths ?h' ?Fi' \<subseteq> Collect (found dt roots' files')"
  proof -
    have "Collect (found dt roots files) \<subseteq> Collect (found dt roots' files')" using found_mono[OF _ R(1,3)] by blast
    moreover
    have "paths ?h' ?Fi' \<subseteq> paths ?h' ?Fi \<union> paths ?h' M" using F(2) unfolding paths_def by blast
    ultimately show ?thesis using old[OF Fb] F(4) iv by blast
  qed
  have w: "worker_ok dt ?h' (paths ?h' ?Di') (paths ?h' ?Fi') v" if "v \<in> set (a @ w # b)" for v
  proof (cases "v \<in> set (a @ b)")
    case True
    then have v: "worker_ok dt ?h (paths ?h ?Di) (paths ?h ?Fi) v" using iv by auto
    have "set (dir_of v) \<subseteq> ?Di" using True by (auto simp: dir_ids_def)
    then have vl: "set (dir_of v) \<subseteq> {..<length ?h}" using Db' by blast
    have vx: "set (dir_of v) \<inter> X = {}" using True X by auto
    show ?thesis by (rule worker_ok_mono[OF v ev vl vx DD FF])
  next
    case False
    then have "v = w" using that by auto
    then show ?thesis using wok by simp
  qed
  have f: "finished_ok dt ?h' (paths ?h' ?Di') (paths ?h' ?Fi') d" if "d \<in> set (finished_dirs sh')" for d
  proof (cases "d \<in> set (finished_dirs sh)")
    case True
    then have d: "finished_ok dt ?h (paths ?h ?Di) (paths ?h ?Fi) d" using iv by blast
    have "d < length ?h" using True Db' by (auto simp: dir_ids_def)
    then show ?thesis by (rule finished_ok_mono[OF d ev _ DD FF])
  next
    case False
    then show ?thesis using fin that by blast
  qed
  have B: "?Di' \<subseteq> {0<..<length ?h'}" "?Fi' \<subseteq> {..<length ?h'}" using D(2,3) F(2,3) Db Fb len by force+
  have pN: "paths ?h' N \<subseteq> paths ?h' ?Di'" "paths ?h' M \<subseteq> paths ?h' ?Fi'"
    unfolding paths_def by (rule image_mono[OF NM(1)], rule image_mono[OF NM(2)])
  have old_paths: "roots \<subseteq> paths ?h ?Di" "files \<subseteq> paths ?h ?Fi" using iv by blast+
  have G: "roots' \<subseteq> paths ?h' ?Di'" "files' \<subseteq> paths ?h' ?Fi'"
    by (rule subset_trans[OF R(2) Un_least[OF subset_trans[OF old_paths(1) DD] pN(1)]],
        rule subset_trans[OF R(4) Un_least[OF subset_trans[OF old_paths(2) FF] pN(2)]])
  have "\<forall>w' \<in> set (a @ w # b). worker_ok dt ?h' (paths ?h' ?Di') (paths ?h' ?Fi') w'"
    "\<forall>d \<in> set (finished_dirs sh'). finished_ok dt ?h' (paths ?h' ?Di') (paths ?h' ?Fi') d"
    using w f by blast+
  then show ?thesis unfolding traversal_inv_def
    by (intro conjI evolvesD(1)[OF ev] cl B dis tmp Dn Fn G)
qed

lemma traversal_inv_step:
  assumes inv: "traversal_inv dt roots files (a @ w0 # b) sh"
    and ev: "evolves X (m_heap sh) (m_heap sh')"
    and X: "X \<inter> set (concat (map dir_of (a @ b))) = {}"
    and cl: "\<not> m_closed (m_dir_queue sh')" "\<not> m_closed (m_out_queue sh')"
    and D: "dir_ids (a @ w # b) sh' = dir_ids (a @ w0 # b) sh \<union> N"
      "N \<subseteq> {0<..<length (m_heap sh')}" "paths (m_heap sh') N \<subseteq> Collect (reached dt roots)"
    and F: "file_ids (a @ w # b) sh' = file_ids (a @ w0 # b) sh \<union> M"
      "M \<subseteq> {..<length (m_heap sh')}" "paths (m_heap sh') M \<subseteq> Collect (found dt roots files)"
    and dis: "distinct (m_underlying_queue (m_dir_queue sh') @ concat (map dir_of (a @ w # b)))"
    and tmp: "\<forall>i \<in> set (m_underlying_queue (m_dir_queue sh')). unopened (m_heap sh') i"
    and wok: "worker_ok dt (m_heap sh') (paths (m_heap sh') (dir_ids (a @ w # b) sh'))
               (paths (m_heap sh') (file_ids (a @ w # b) sh')) w"
    and fin: "\<forall>d \<in> set (finished_dirs sh') - set (finished_dirs sh).
        finished_ok dt (m_heap sh') (paths (m_heap sh') (dir_ids (a @ w # b) sh')) (paths (m_heap sh') (file_ids (a @ w # b) sh')) d"
  shows "traversal_inv dt roots files (a @ w # b) sh'"
  by (rule traversal_inv_grow[OF inv ev X cl _ _ D(2,3) _ _ F(2,3) dis tmp wok fin]) (auto simp: D(1) F(1))

lemma pull_front_open:
  "\<not> m_closed q \<Longrightarrow> pull_front q = Inr ((status, v), q') \<Longrightarrow>
     \<exists>x xs. m_underlying_queue q = x # xs \<and> status = success \<and> v = Some x \<and> q' = q\<lparr>m_underlying_queue := xs\<rparr>"
  by (cases "m_underlying_queue q") (auto simp: pull_front_Nil pull_front_Cons)

lemma push_back_open:
  "\<not> m_closed q \<Longrightarrow> snd (push_back x q) = q\<lparr>m_underlying_queue := m_underlying_queue q @ [x]\<rparr>"
  "\<not> m_closed q \<Longrightarrow> snd (push_back_all xs q) = q\<lparr>m_underlying_queue := m_underlying_queue q @ xs\<rparr>"
  by (simp_all add: push_back_def push_back_all_def)

text \<open>What a worker does between two directories, and with an entry.\<close>

lemma pull_step:
  assumes inv: "traversal_inv dt roots files (a @ Pulling st # b) sh"
    and step: "ReaddirLoop dt (Pulling st) sh = Some (w, sh')"
  obtains d xs h1 where "m_underlying_queue (m_dir_queue sh) = d # xs"
    and "0 < d" "d < length (m_heap sh)" "d \<notin> set xs" "d \<notin> set (concat (map dir_of (a @ b)))"
    and "evolves {d} (m_heap sh) h1"
    and "m_temp_dir_file_descriptor (h1 ! d) = sys_open (m_os dt) (path_of d (m_heap sh)) dir_open_flags"
    and "entries dt (path_of d (m_heap sh)) = None \<longrightarrow>
      w = Pulling st \<and> sh' = sh\<lparr>m_dir_queue := m_dir_queue sh\<lparr>m_underlying_queue := xs\<rparr>, m_heap := h1,
        finished_dirs := finished_dirs sh @ [d]\<rparr>"
    and "\<forall>es. entries dt (path_of d (m_heap sh)) = Some es \<longrightarrow>
      w = Reading st d es [] \<and> sh' = sh\<lparr>m_dir_queue := m_dir_queue sh\<lparr>m_underlying_queue := xs\<rparr>, m_heap := h1\<rparr>"
proof -
  note iv = inv[unfolded traversal_inv_def]
  let ?h = "m_heap sh"
  obtain d xs where q: "m_underlying_queue (m_dir_queue sh) = d # xs"
    "pull_front (m_dir_queue sh) = Inr ((success, Some d), m_dir_queue sh\<lparr>m_underlying_queue := xs\<rparr>)"
  proof (cases "pull_front (m_dir_queue sh)")
    case (Inl x)
    with step show thesis by (simp add: ReaddirLoop_def)
  next
    case (Inr x)
    then obtain status v q' where x: "pull_front (m_dir_queue sh) = Inr ((status, v), q')" by (metis prod.exhaust)
    have "\<not> m_closed (m_dir_queue sh)" using iv by blast
    from pull_front_open[OF this x] x that show thesis by blast
  qed
  have d: "0 < d" "d < length ?h" "unopened ?h d" "d \<notin> set xs"
    "d \<notin> set (concat (map dir_of (a @ b)))"
    using iv q by (auto simp: dir_ids_def)
  have world: "world ?h" using iv by blast
  obtain h1 where h1: "OpenDir (m_os dt) d ?h = (entries dt (path_of d ?h), h1)" "evolves {d} ?h h1"
    "length h1 = length ?h" "m_temp_dir_file_descriptor (h1 ! d) = sys_open (m_os dt) (path_of d ?h) dir_open_flags"
    unfolding entries_def by (rule OpenDir_evolves[OF world d(1,2,3)])
  show thesis by (rule that[OF q(1) d(1,2,4,5) h1(2,4)]) (use step q h1(1) in \<open>auto simp: ReaddirLoop_def\<close>)
qed

lemma entry_step:
  assumes junk: "quiet_junk dt"
    and inv: "traversal_inv dt roots files (a @ Reading st d (de # todo) local # b) sh"
    and step: "ReaddirLoop dt (Reading st d (de # todo) local) sh = Some (w, sh')"
  obtains st' local' seen where "0 < d" "d < length (m_heap sh)"
    and "w = Reading st' d todo local'" and "entry_effect dt (path_of d (m_heap sh)) de local sh local' sh'"
    and "reached dt roots (path_of d (m_heap sh))"
    and "entries dt (path_of d (m_heap sh)) = Some (seen @ de # todo)"
    and "m_temp_dir_file_descriptor (m_heap sh ! d) = sys_open (m_os dt) (path_of d (m_heap sh)) dir_open_flags"
    and "\<forall>e\<in>set seen. covered dt (paths (m_heap sh) (dir_ids (a @ Reading st d (de # todo) local # b) sh))
      (paths (m_heap sh) (file_ids (a @ Reading st d (de # todo) local # b) sh)) (path_of d (m_heap sh)) e"
proof -
  note iv = inv[unfolded traversal_inv_def]
  let ?h = "m_heap sh" and ?p = "path_of d (m_heap sh)"
  let ?w0 = "Reading st d (de # todo) local"
  let ?D = "paths ?h (dir_ids (a @ ?w0 # b) sh)" and ?F = "paths ?h (file_ids (a @ ?w0 # b) sh)"
  have d: "0 < d" "d < length ?h" "d \<in> dir_ids (a @ ?w0 # b) sh"
    using iv by (auto simp: dir_ids_def)
  have world: "world ?h" using iv by blast
  have "worker_ok dt ?h ?D ?F ?w0" using iv by auto
  then obtain seen where seen: "m_temp_dir_file_descriptor (?h ! d) = sys_open (m_os dt) ?p dir_open_flags"
    "entries dt ?p = Some (seen @ de # todo)" "\<forall>e\<in>set seen. covered dt ?D ?F ?p e"
    by (auto simp: worker_ok_def)
  obtain st' local' sh1 where pd: "ProcessDirent dt d de (st, local, sh) = Some (st', local', sh1)"
    and eff: "entry_effect dt ?p de local sh local' sh1"
    by (rule ProcessDirent_effect[OF world d(1,2) refl seen(1) junk])
  from step pd have w: "w = Reading st' d todo local'" and sh': "sh' = sh1" by (simp_all add: ReaddirLoop_def)
  have reach: "reached dt roots ?p" using iv d(3) by (auto simp: paths_def)
  show thesis by (rule that[OF d(1,2) w eff[folded sh'] reach seen(2,1,3)])
qed

lemma traversal_pull:
  assumes inv: "traversal_inv dt roots files (a @ Pulling st # b) sh"
    and step: "ReaddirLoop dt (Pulling st) sh = Some (w, sh')"
  shows "traversal_inv dt roots files (a @ w # b) sh'"
proof -
  note iv = inv[unfolded traversal_inv_def]
  let ?h = "m_heap sh"
  obtain d xs h1 where q: "m_underlying_queue (m_dir_queue sh) = d # xs"
    and d: "0 < d" "d < length ?h" "d \<notin> set xs" "d \<notin> set (concat (map dir_of (a @ b)))"
    and h1: "evolves {d} ?h h1"
      "m_temp_dir_file_descriptor (h1 ! d) = sys_open (m_os dt) (path_of d ?h) dir_open_flags"
    and none: "entries dt (path_of d ?h) = None \<longrightarrow>
      w = Pulling st \<and> sh' = sh\<lparr>m_dir_queue := m_dir_queue sh\<lparr>m_underlying_queue := xs\<rparr>, m_heap := h1,
        finished_dirs := finished_dirs sh @ [d]\<rparr>"
    and some: "\<forall>es. entries dt (path_of d ?h) = Some es \<longrightarrow>
      w = Reading st d es [] \<and> sh' = sh\<lparr>m_dir_queue := m_dir_queue sh\<lparr>m_underlying_queue := xs\<rparr>, m_heap := h1\<rparr>"
    by (rule pull_step[OF inv step])
  have p: "path_of d h1 = path_of d ?h" by (rule evolves_path[OF h1(1) d(2)])
  have tmp: "\<forall>i \<in> set xs. unopened h1 i"
  proof
    fix i assume i: "i \<in> set xs"
    then have "i < length ?h" "i \<noteq> d" "unopened ?h i"
      using iv q d(3) by (auto simp: dir_ids_def)
    then show "unopened h1 i" using evolves_unopened[OF h1(1)] by simp
  qed
  have dist: "distinct (xs @ concat (map dir_of (a @ b)))" using iv q by auto
  show ?thesis
  proof (cases "entries dt (path_of d ?h)")
    case None
    with none have w: "w = Pulling st" and sh': "sh' = sh\<lparr>m_dir_queue := m_dir_queue sh\<lparr>m_underlying_queue := xs\<rparr>,
        m_heap := h1, finished_dirs := finished_dirs sh @ [d]\<rparr>"
      by simp_all
    show ?thesis
    proof (rule traversal_inv_step[OF inv, where X="{d}" and N="{}" and M="{}"])
      show "evolves {d} (m_heap sh) (m_heap sh')" by (simp add: sh' h1(1))
    qed (use iv q d dist tmp None p in \<open>auto simp: w sh' dir_ids_def file_ids_def delivered_def worker_ok_def finished_ok_def paths_def\<close>)
  next
    case (Some es)
    with some have w: "w = Reading st d es []" and sh': "sh' = sh\<lparr>m_dir_queue := m_dir_queue sh\<lparr>m_underlying_queue := xs\<rparr>,
        m_heap := h1\<rparr>"
      by simp_all
    show ?thesis
    proof (rule traversal_inv_step[OF inv, where X="{d}" and N="{}" and M="{}"])
      show "evolves {d} (m_heap sh) (m_heap sh')" by (simp add: sh' h1(1))
    qed (use iv q d dist tmp Some p h1(2) in \<open>auto simp: w sh' dir_ids_def file_ids_def delivered_def worker_ok_def paths_def\<close>)
  qed
qed

lemma traversal_finish:
  assumes inv: "traversal_inv dt roots files (a @ Reading st d [] local # b) sh"
    and step: "ReaddirLoop dt (Reading st d [] local) sh = Some (w, sh')"
  shows "traversal_inv dt roots files (a @ w # b) sh'"
proof -
  note iv = inv[unfolded traversal_inv_def]
  let ?h = "m_heap sh"
  have d: "d < length ?h" "d \<notin> set (concat (map dir_of (a @ b)))" "d \<notin> set (m_underlying_queue (m_dir_queue sh))"
    using iv by (auto simp: dir_ids_def)
  have cl: "\<not> m_closed (m_out_queue sh)" and world: "world ?h" using iv by blast+
  have e: "evolves {d} ?h (CloseDir d ?h)" by (rule CloseDir_evolves[OF world])
  have p: "path_of d (CloseDir d ?h) = path_of d ?h" by (rule evolves_path[OF e d(1)])
  from step have w: "w = Pulling st" and sh': "sh' = sh\<lparr>m_out_queue :=
      m_out_queue sh\<lparr>m_underlying_queue := m_underlying_queue (m_out_queue sh) @ local\<rparr>,
      m_heap := CloseDir d ?h, finished_dirs := finished_dirs sh @ [d]\<rparr>"
    by (auto simp: ReaddirLoop_def push_back_open[OF cl])
  let ?D = "paths ?h (dir_ids (a @ Reading st d [] local # b) sh)"
  let ?F = "paths ?h (file_ids (a @ Reading st d [] local # b) sh)"
  have "worker_ok dt ?h ?D ?F (Reading st d [] local)" using iv by auto
  then have f: "finished_ok dt ?h ?D ?F d" by (auto simp: worker_ok_def finished_ok_def)
  have Db: "dir_ids (a @ Reading st d [] local # b) sh \<subseteq> {..<length ?h}"
    and Fb: "file_ids (a @ Reading st d [] local # b) sh \<subseteq> {..<length ?h}"
    using iv by auto
  have Di: "dir_ids (a @ w # b) sh' = dir_ids (a @ Reading st d [] local # b) sh"
    by (auto simp: dir_ids_def w sh')
  have Fi: "file_ids (a @ w # b) sh' = file_ids (a @ Reading st d [] local # b) sh"
    by (auto simp: file_ids_def delivered_def w sh')
  show ?thesis
  proof (rule traversal_inv_step[OF inv, where X="{d}" and N="{}" and M="{}"])
    show ev: "evolves {d} (m_heap sh) (m_heap sh')" by (simp add: sh' e)
    have "finished_ok dt (m_heap sh') (paths (m_heap sh') (dir_ids (a @ w # b) sh')) (paths (m_heap sh') (file_ids (a @ w # b) sh')) d"
      by (rule finished_ok_mono[OF f ev d(1)]) (simp_all add: Di Fi paths_mono[OF ev Db] paths_mono[OF ev Fb])
    moreover have "set (finished_dirs sh') - set (finished_dirs sh) \<subseteq> {d}" by (auto simp: sh')
    ultimately show "\<forall>d \<in> set (finished_dirs sh') - set (finished_dirs sh).
        finished_ok dt (m_heap sh') (paths (m_heap sh') (dir_ids (a @ w # b) sh')) (paths (m_heap sh') (file_ids (a @ w # b) sh')) d"
      by blast
    show "\<forall>i \<in> set (m_underlying_queue (m_dir_queue sh')). unopened (m_heap sh') i"
    proof
      fix i assume "i \<in> set (m_underlying_queue (m_dir_queue sh'))"
      then have i: "i \<in> set (m_underlying_queue (m_dir_queue sh))" by (simp add: sh')
      then have "i < length ?h" "i \<noteq> d" "unopened ?h i"
        using iv d(3) by (auto simp: dir_ids_def)
      then show "unopened (m_heap sh') i" using evolves_unopened[OF ev] by simp
    qed
    show "{d} \<inter> set (concat (map dir_of (a @ b))) = {}" using d(2) by simp
    show "\<not> m_closed (m_dir_queue sh')" "\<not> m_closed (m_out_queue sh')" using iv by (simp_all add: sh')
    show "distinct (m_underlying_queue (m_dir_queue sh') @ concat (map dir_of (a @ w # b)))"
      using iv by (auto simp: sh' w)
    show "worker_ok dt (m_heap sh') (paths (m_heap sh') (dir_ids (a @ w # b) sh'))
        (paths (m_heap sh') (file_ids (a @ w # b) sh')) w"
      by (simp add: w worker_ok_def)
  qed (simp_all add: Di Fi paths_def)
qed

lemma traversal_entry:
  assumes junk: "quiet_junk dt"
    and inv: "traversal_inv dt roots files (a @ Reading st d (de # todo) local # b) sh"
    and step: "ReaddirLoop dt (Reading st d (de # todo) local) sh = Some (w, sh')"
  shows "traversal_inv dt roots files (a @ w # b) sh'"
proof -
  note iv = inv[unfolded traversal_inv_def]
  let ?h = "m_heap sh" and ?p = "path_of d (m_heap sh)"
  let ?w0 = "Reading st d (de # todo) local"
  let ?D = "paths ?h (dir_ids (a @ ?w0 # b) sh)" and ?F = "paths ?h (file_ids (a @ ?w0 # b) sh)"
  have clq: "\<not> m_closed (m_dir_queue sh)" using iv by blast
  obtain st' local' seen where d: "0 < d" "d < length ?h" and w: "w = Reading st' d todo local'"
    and eff: "entry_effect dt ?p de local sh local' sh'" and reach: "reached dt roots ?p"
    and seen: "entries dt ?p = Some (seen @ de # todo)"
      "m_temp_dir_file_descriptor (?h ! d) = sys_open (m_os dt) ?p dir_open_flags"
      "\<forall>e\<in>set seen. covered dt ?D ?F ?p e"
    by (rule entry_step[OF junk inv step])
  note ef = eff[unfolded entry_effect_def]
  have de: "de \<in> set (seen @ de # todo)" by simp
  have ev: "evolves {} ?h (m_heap sh')" using ef by blast
  have p: "path_of d (m_heap sh') = ?p" by (rule evolves_path[OF ev d(2)])
  let ?t = "entry_path ?p (dirent_get_name de)"
  define M where "M = (if wanted_file dt ?p de then {last local'} else {})"
  define q where "q = m_underlying_queue (m_dir_queue sh)"
  define q' where "q' = m_underlying_queue (m_dir_queue sh')"
  define N where "N = set q' - set q"
  have M: "M \<subseteq> {length ?h..<length (m_heap sh')}" "set local' = set local \<union> M" "paths (m_heap sh') M \<subseteq> {?t}"
    "wanted_file dt ?p de \<Longrightarrow> ?t \<in> paths (m_heap sh') M" "\<not> wanted_file dt ?p de \<Longrightarrow> M = {}"
    using ef unfolding M_def paths_def by (auto split: if_splits)
  have queue: "N \<subseteq> {length ?h..<length (m_heap sh')} \<and> set q' = set q \<union> N \<and> paths (m_heap sh') N \<subseteq> {?t}
      \<and> (\<not> m_follow_symlinks dt \<longrightarrow> wanted_dir dt ?p de \<longrightarrow> ?t \<in> paths (m_heap sh') N)
      \<and> (\<not> wanted_dir dt ?p de \<longrightarrow> N = {}) \<and> \<not> m_closed (m_dir_queue sh')
      \<and> (\<forall>i\<in>N. unopened (m_heap sh') i)
      \<and> (q' = q \<or> (\<exists>f. q' = q @ [f] \<and> length ?h \<le> f))"
  proof -
    have lt: "set q \<subseteq> {..<length ?h}" using iv by (auto simp: q_def dir_ids_def)
    consider (same) "m_dir_queue sh' = m_dir_queue sh" "m_follow_symlinks dt \<or> \<not> wanted_dir dt ?p de"
      | (push) f where "wanted_dir dt ?p de" "m_dir_queue sh' = m_dir_queue sh\<lparr>m_underlying_queue := q @ [f]\<rparr>"
          "f < length (m_heap sh')" "length ?h \<le> f" "path_of f (m_heap sh') = ?t"
          "unopened (m_heap sh') f"
      using ef unfolding push_back_open[OF clq] q_def by blast
    then show ?thesis
    proof cases
      case same
      then show ?thesis using clq by (auto simp: N_def q_def q'_def paths_def)
    next
      case push
      then have "f \<notin> set q" using lt by auto
      with push have "N = {f}" "q' = q @ [f]" by (auto simp: N_def q'_def)
      with push clq show ?thesis by (simp add: paths_def)
    qed
  qed
  have Di: "dir_ids (a @ w # b) sh' = dir_ids (a @ ?w0 # b) sh \<union> N"
    using queue ef by (auto simp: dir_ids_def w q_def q'_def)
  have Fi: "file_ids (a @ w # b) sh' = file_ids (a @ ?w0 # b) sh \<union> M"
    using M(2) ef by (auto simp: file_ids_def delivered_def w)
  have Db: "dir_ids (a @ ?w0 # b) sh \<subseteq> {..<length ?h}" and Fb: "file_ids (a @ ?w0 # b) sh \<subseteq> {..<length ?h}"
    using iv by auto
  have DD: "?D \<subseteq> paths (m_heap sh') (dir_ids (a @ w # b) sh')" by (rule paths_mono[OF ev Db]) (simp add: Di)
  have FF: "?F \<subseteq> paths (m_heap sh') (file_ids (a @ w # b) sh')" by (rule paths_mono[OF ev Fb]) (simp add: Fi)
  show ?thesis
  proof (rule traversal_inv_step[OF inv ev, where N=N and M=M])
    show "{} \<inter> set (concat (map dir_of (a @ b))) = {}" by simp
    show "\<not> m_closed (m_dir_queue sh')" using queue by blast
    show "\<not> m_closed (m_out_queue sh')" using iv ef by simp
    show "dir_ids (a @ w # b) sh' = dir_ids (a @ ?w0 # b) sh \<union> N"
      "file_ids (a @ w # b) sh' = file_ids (a @ ?w0 # b) sh \<union> M" by (rule Di, rule Fi)
    show "N \<subseteq> {0<..<length (m_heap sh')}" using queue d by force
    show "M \<subseteq> {..<length (m_heap sh')}" using M(1) by auto
    show "paths (m_heap sh') N \<subseteq> Collect (reached dt roots)"
    proof (cases "wanted_dir dt ?p de")
      case True
      then have "reached dt roots ?t" using below[OF reach seen(1) de] by blast
      with queue show ?thesis by blast
    qed (use queue in \<open>simp add: paths_def\<close>)
    show "paths (m_heap sh') M \<subseteq> Collect (found dt roots files)"
    proof (cases "wanted_file dt ?p de")
      case True
      then have "found dt roots files ?t" using inside[OF reach seen(1) de] by blast
      with M(3) show ?thesis by blast
    qed (use M(5) in \<open>simp add: paths_def\<close>)
    define L where "L = concat (map dir_of (a @ ?w0 # b))"
    have L: "distinct (q @ L)" "set (q @ L) \<subseteq> {..<length ?h}" "concat (map dir_of (a @ w # b)) = L"
      using iv Db unfolding L_def q_def by (blast, auto simp: dir_ids_def w)
    have "q' = q \<or> (\<exists>f. q' = q @ [f] \<and> length ?h \<le> f)" using queue by blast
    then have "distinct (q' @ concat (map dir_of (a @ w # b)))" unfolding L(3)
    proof (elim disjE exE conjE)
      fix f assume "q' = q @ [f]" "length ?h \<le> f"
      moreover from this have "f \<notin> set (q @ L)" using L(2) by auto
      ultimately show "distinct (q' @ L)" using L(1) by auto
    qed (use L(1) in simp)
    then show "distinct (m_underlying_queue (m_dir_queue sh') @ concat (map dir_of (a @ w # b)))" by (simp add: q'_def)
    show "\<forall>i \<in> set (m_underlying_queue (m_dir_queue sh')). unopened (m_heap sh') i"
    proof
      fix i assume "i \<in> set (m_underlying_queue (m_dir_queue sh'))"
      then consider "i \<in> set q" | "i \<in> N" using queue by (auto simp: q'_def)
      then show "unopened (m_heap sh') i"
      proof cases
        case 1
        then have "i < length ?h" "unopened ?h i" using iv Db by (auto simp: q_def dir_ids_def)
        then show ?thesis using evolves_unopened[OF ev] by simp
      qed (use queue in blast)
    qed
    have "covered dt (paths (m_heap sh') (dir_ids (a @ w # b) sh')) (paths (m_heap sh') (file_ids (a @ w # b) sh')) ?p de"
      using queue M(4) unfolding covered_def Di Fi paths_def by blast
    then have "\<forall>e\<in>set (seen @ [de]). covered dt (paths (m_heap sh') (dir_ids (a @ w # b) sh'))
        (paths (m_heap sh') (file_ids (a @ w # b) sh')) ?p e"
      using seen(3) covered_mono[OF _ DD FF] by auto
    moreover have "m_temp_dir_file_descriptor (m_heap sh' ! d) = sys_open (m_os dt) ?p dir_open_flags"
      using evolvesD(4)[OF ev d(2)] seen(2) by simp
    ultimately show "worker_ok dt (m_heap sh') (paths (m_heap sh') (dir_ids (a @ w # b) sh'))
        (paths (m_heap sh') (file_ids (a @ w # b) sh')) w"
      unfolding worker_ok_def w worker.case p using seen(1)
      by (intro conjI exI[of _ "seen @ [de]"]) simp_all
    show "\<forall>d \<in> set (finished_dirs sh') - set (finished_dirs sh).
        finished_ok dt (m_heap sh') (paths (m_heap sh') (dir_ids (a @ w # b) sh')) (paths (m_heap sh') (file_ids (a @ w # b) sh')) d"
      using ef by simp
  qed
qed

lemma consumer_inv:
  assumes inv: "traversal_inv dt roots files ws sh"
    and step: "pull_front (m_out_queue sh) = Inr ((success, Some f), q)"
  shows "traversal_inv dt roots files ws (sh\<lparr>m_out_queue := q, taken := taken sh @ [f]\<rparr>)"
proof -
  have "\<not> m_closed (m_out_queue sh)" using inv unfolding traversal_inv_def by blast
  from pull_front_open[OF this step] obtain xs where
    q: "m_underlying_queue (m_out_queue sh) = f # xs" "q = m_out_queue sh\<lparr>m_underlying_queue := xs\<rparr>" by auto
  let ?sh = "sh\<lparr>m_out_queue := q, taken := taken sh @ [f]\<rparr>"
  have "file_ids ws ?sh = file_ids ws sh" "dir_ids ws ?sh = dir_ids ws sh"
    using q by (auto simp: file_ids_def delivered_def dir_ids_def)
  with inv q show ?thesis unfolding traversal_inv_def by simp
qed

lemma traverse_step_inv:
  assumes junk: "quiet_junk dt" and step: "traverse_step dt (ws, sh) (ws', sh')"
    and inv: "traversal_inv dt roots files ws sh"
  shows "traversal_inv dt roots files ws' sh'"
  using step
proof cases
  case (worker t w)
  let ?a = "take t ws" and ?b = "drop (Suc t) ws"
  have e: "ws = ?a @ ws ! t # ?b" "ws[t := w] = ?a @ w # ?b"
    using worker(2) by (simp_all add: id_take_nth_drop upd_conv_take_nth_drop)
  have i: "traversal_inv dt roots files (?a @ ws ! t # ?b) sh" using inv e(1) by simp
  have "traversal_inv dt roots files (?a @ w # ?b) sh'"
  proof (cases "ws ! t")
    case (Pulling st)
    show ?thesis using traversal_pull i worker(3) unfolding Pulling by blast
  next
    case (Reading st d todo local)
    show ?thesis
    proof (cases todo)
      case Nil
      show ?thesis using traversal_finish i worker(3) unfolding Reading Nil by blast
    next
      case (Cons de des)
      show ?thesis using traversal_entry[OF junk] i worker(3) unfolding Reading Cons by blast
    qed
  qed (use worker(3) in \<open>simp add: ReaddirLoop_def\<close>)
  then show ?thesis using worker(1) e(2) by simp
next
  case (consumer f q)
  with consumer_inv[OF inv] show ?thesis by simp
qed

lemma traversal_inv_steps:
  assumes "(traverse_step dt)\<^sup>*\<^sup>* (ws, sh) (ws', sh')" and "quiet_junk dt" and "traversal_inv dt roots files ws sh"
  shows "traversal_inv dt roots files ws' sh'"
  using assms(1,3) traverse_step_inv[OF assms(2)]
  by (induction "(ws', sh')" arbitrary: ws' sh' rule: rtranclp_induct) force+

subsection \<open>The paths of the command line\<close>

definition root_descriptor :: "dir_tree \<Rightarrow> int" where
  "root_descriptor dt =
     (let fd = sys_open (m_os dt) ''.'' (FAM_SEARCH OR FCF_DIRECTORY OR FCF_NOCTTY)
      in if fd \<ge> 0 then sys_dup (m_os dt) fd else sys_open (m_os dt) ''.'' dir_open_flags)"

definition start_type :: "dir_tree \<Rightarrow> string \<Rightarrow> st_mode option" where
  "start_type dt p = map_option st_mode (sys_fstatat (m_os dt) (root_descriptor dt) (clean_up_path p) True)"

text \<open>The directories and the files among the paths of the command line.\<close>

definition named :: "st_mode \<Rightarrow> dir_tree \<Rightarrow> string list \<Rightarrow> string set" where
  "named m dt ps = clean_up_path ` {p \<in> set ps. start_type dt p = Some m}"

definition scanning :: "dir_tree \<Rightarrow> string set \<Rightarrow> string set \<Rightarrow> shared \<Rightarrow> bool" where
  "scanning dt roots files sh \<longleftrightarrow>
     traversal_inv dt roots files [Exited] sh \<and> path_of 0 (m_heap sh) = ''.''
     \<and> m_temp_dir_file_descriptor (m_heap sh ! 0) = root_descriptor dt"

abbreviation start_file :: "string \<Rightarrow> file_id" where
  "start_file p \<equiv> FileID_copy (FileID_at 0 (clean_up_path p) FAM_UNINITIALIZED FCF_UNINITIALIZED)"

lemma start_file_fields:
  "m_at_dir (start_file p) = Some 0" "m_basename (start_file p) = clean_up_path p"
  "m_path (start_file p) = (if is_pathname_absolute (clean_up_path p) then clean_up_path p else [])"
  "m_file_descriptor (start_file p) = -987" "m_temp_dir_file_descriptor (start_file p) = -987"
  "m_valid_bits (start_file p) = 0"
  by (simp_all add: FileID_copy_def FileID_at_def impl_base_def impl_init_def SetFileDescriptorMode_def Let_def)

lemma start_file_evolves:
  assumes "world h" and "path_of 0 h = ''.''"
  shows "evolves D h (h @ [start_file p])" and "path_of (length h) (h @ [start_file p]) = clean_up_path p"
proof -
  have len: "0 < length h" by (rule worldD(2)[OF assms(1)])
  show "path_of (length h) (h @ [start_file p]) = clean_up_path p"
    using path_of_append_last[of "start_file p" 0 h] len assms(2) start_file_fields
    by (simp add: entry_path_def join_path_def)
  then show "evolves D h (h @ [start_file p])"
    using len start_file_fields by (intro evolves_append[OF assms(1)]) (auto simp: file_ok_def)
qed

lemma GetFileType_start:
  assumes w: "world h" and r: "m_temp_dir_file_descriptor (h ! 0) = root_descriptor dt"
  obtains t h2 where "GetFileType (m_os dt) (length h) (h @ [start_file p]) = Some (t, h2)"
    and "t = FT_REG \<longleftrightarrow> start_type dt p = Some S_IFREG" and "t = FT_DIR \<longleftrightarrow> start_type dt p = Some S_IFDIR"
proof -
  let ?h = "h @ [start_file p]" and ?i = "length h"
  have len: "0 < length h" by (rule worldD(2)[OF w])
  have st: "map_option st_mode (FStatAt (m_os dt) 0 (clean_up_path p) True ?h) = start_type dt p"
    using len r by (simp add: FStatAt_def start_type_def nth_append)
  show thesis
  proof (cases "FStatAt (m_os dt) 0 (clean_up_path p) True ?h")
    case None
    then show thesis using that st start_file_fields
      by (simp add: GetFileType_def ensure_stat_def LazyLoadStatInfo_def Let_def set_valid_def nth_update_id)
  next
    case (Some sb)
    then have "start_type dt p = Some (st_mode sb)" using st by simp
    with Some that start_file_fields show thesis
      by (simp add: GetFileType_def ensure_stat_def LazyLoadStatInfo_def Let_def set_valid_def nth_update_id
          SetStatInfo_def split: st_mode.splits)
  qed
qed

lemma scan_path_scanning:
  assumes s: "scanning dt roots files sh"
  obtains sh' where "scan_path dt p sh = Some sh'"
    and "scanning dt (roots \<union> named S_IFDIR dt [p]) (files \<union> named S_IFREG dt [p]) sh'"
proof -
  let ?h = "m_heap sh"
  let ?h1 = "?h @ [start_file p]" and ?i = "length ?h"
  have inv: "traversal_inv dt roots files ([] @ Exited # []) sh" and p0: "path_of 0 ?h = ''.''"
    and t0: "m_temp_dir_file_descriptor (?h ! 0) = root_descriptor dt"
    using s by (simp_all add: scanning_def)
  note iv = inv[unfolded traversal_inv_def]
  have w: "world ?h" and cl: "\<not> m_closed (m_dir_queue sh)" "\<not> m_closed (m_out_queue sh)" using iv by blast+
  have len: "0 < ?i" by (rule worldD(2)[OF w])
  have e1: "evolves {} ?h ?h1" and p1: "path_of ?i ?h1 = clean_up_path p" by (rule start_file_evolves[OF w p0])+
  obtain t h2 where t: "GetFileType (m_os dt) ?i ?h1 = Some (t, h2)"
    "t = FT_REG \<longleftrightarrow> start_type dt p = Some S_IFREG" "t = FT_DIR \<longleftrightarrow> start_type dt p = Some S_IFDIR"
    by (rule GetFileType_start[OF w t0])
  obtain h2' where "ensure_stat (m_os dt) V_TYPE ?i ?h1 = Some h2'" "evolves {} ?h1 h2'" "length h2' = length ?h1"
    by (rule ensure_stat_evolves[OF evolvesD(1)[OF e1] len]) simp
  with t(1) have e2: "evolves {} ?h1 h2" "length h2 = Suc ?i" by (auto simp: GetFileType_def)
  define fl where "fl = (if t = FT_REG then FCF_NOATIME OR FCF_NOCTTY else dir_flags)"
  define h3 where "h3 = (if t = FT_REG \<or> t = FT_DIR then update_id ?i (SetFileDescriptorMode FAM_RDONLY fl) h2 else h2)"
  have "evolves {} h2 h3" unfolding h3_def
    using evolves_update[OF evolvesD(1)[OF e2(1)], of "SetFileDescriptorMode FAM_RDONLY fl" ?i "{}"]
      evolves_refl[OF evolvesD(1)[OF e2(1)]]
    by (simp add: SetFileDescriptorMode_def core_def)
  then have e13: "evolves {} ?h1 h3" using evolves_trans[OF e2(1)] by (metis Un_empty)
  then have e: "evolves {} ?h h3" using evolves_trans[OF e1] by (metis Un_empty)
  have l3: "length h3 = Suc ?i" by (simp add: h3_def e2(2))
  have p3: "path_of ?i h3 = clean_up_path p" using evolves_path[OF e13] p1 by simp
  have t3: "unopened h3 ?i" using evolves_unopened[OF e13] start_file_fields(4,5) by (simp add: unopened_def)
  define N where "N = (if t = FT_DIR then {?i} else {})"
  define M where "M = (if t = FT_REG then {?i} else {})"
  define sh' where "sh' = sh\<lparr>m_heap := h3,
      m_dir_queue := (if t = FT_DIR then snd (push_back ?i (m_dir_queue sh)) else m_dir_queue sh),
      m_out_queue := (if t = FT_REG then snd (push_back ?i (m_out_queue sh)) else m_out_queue sh)\<rparr>"
  have nN: "named S_IFDIR dt [p] = paths h3 N" "named S_IFREG dt [p] = paths h3 M"
    using t(2,3) p3 by (auto simp: named_def N_def M_def paths_def)
  have Di: "dir_ids [Exited] sh' = dir_ids [Exited] sh \<union> N"
    by (auto simp: dir_ids_def sh'_def N_def push_back_open[OF cl(1)])
  have Fi: "file_ids [Exited] sh' = file_ids [Exited] sh \<union> M"
    by (auto simp: file_ids_def delivered_def sh'_def M_def push_back_open[OF cl(2)])
  have q: "set (m_underlying_queue (m_dir_queue sh)) \<subseteq> {..<?i}" using iv by (auto simp: dir_ids_def)
  have h': "m_heap sh' = h3" by (simp add: sh'_def)
  have cl': "\<not> m_closed (m_dir_queue sh')" "\<not> m_closed (m_out_queue sh')"
    using cl by (simp_all add: sh'_def push_back_open)
  have fd: "finished_dirs sh' = finished_dirs sh" by (simp add: sh'_def)
  have NM: "N \<subseteq> {0<..<length h3}" "M \<subseteq> {..<length h3}" using len l3 by (simp_all add: N_def M_def)
  have "traversal_inv dt (roots \<union> named S_IFDIR dt [p]) (files \<union> named S_IFREG dt [p]) ([] @ Exited # []) sh'"
  proof (rule traversal_inv_grow[OF inv, where X="{}" and N=N and M=M], unfold h')
    show "evolves {} ?h h3" by (rule e)
    show "paths h3 N \<subseteq> Collect (reached dt (roots \<union> named S_IFDIR dt [p]))"
      unfolding nN by (auto intro: reached.root)
    show "paths h3 M \<subseteq> Collect (found dt (roots \<union> named S_IFDIR dt [p]) (files \<union> named S_IFREG dt [p]))"
      unfolding nN by (auto intro: found.named)
    show "distinct (m_underlying_queue (m_dir_queue sh') @ concat (map dir_of ([] @ Exited # [])))"
      using iv q by (auto simp: sh'_def push_back_open[OF cl(1)])
    show "\<forall>i \<in> set (m_underlying_queue (m_dir_queue sh')). unopened h3 i"
    proof
      fix i assume "i \<in> set (m_underlying_queue (m_dir_queue sh'))"
      then have "i \<in> set (m_underlying_queue (m_dir_queue sh)) \<or> i = ?i"
        by (auto simp: sh'_def push_back_open[OF cl(1)] split: if_splits)
      then show "unopened h3 i"
      proof
        assume i: "i \<in> set (m_underlying_queue (m_dir_queue sh))"
        then have "i < ?i" "unopened ?h i" using iv q by auto
        then show ?thesis using evolves_unopened[OF e] by simp
      qed (use t3 in simp)
    qed
  qed (use cl' fd NM in \<open>simp_all add: Di Fi nN worker_ok_def\<close>)
  moreover have "path_of 0 h3 = ''.''" using evolves_path[OF e len] p0 by simp
  moreover have "m_temp_dir_file_descriptor (h3 ! 0) = root_descriptor dt" using evolvesD(4)[OF e len] t0 by simp
  moreover have "scan_path dt p sh = Some sh'"
    using t(1) by (simp add: scan_path_def make_shared_def sh'_def h3_def fl_def)
  ultimately show thesis using that[of sh'] by (simp add: scanning_def h')
qed

lemma named_Cons: "named m dt (p # ps) = named m dt [p] \<union> named m dt ps"
  by (auto simp: named_def)

lemma scan_paths_scanning:
  "scanning dt roots files sh \<Longrightarrow>
     \<exists>sh'. scan_paths dt ps sh = Some sh'
       \<and> scanning dt (roots \<union> named S_IFDIR dt ps) (files \<union> named S_IFREG dt ps) sh'"
proof (induction ps arbitrary: roots files sh)
  case Nil
  then show ?case by (simp add: named_def)
next
  case (Cons p ps)
  obtain sh1 where 1: "scan_path dt p sh = Some sh1"
    "scanning dt (roots \<union> named S_IFDIR dt [p]) (files \<union> named S_IFREG dt [p]) sh1"
    by (rule scan_path_scanning[OF Cons.prems])
  from Cons.IH[OF 1(2)] 1(1) show ?case by (subst (1 2) named_Cons) (simp add: Un_assoc)
qed

lemma root_opened:
  assumes "h = [FileID_cwd s]"
  obtains h1 where "snd (OpenDir s 0 h) = h1" and "evolves {0} h h1"
    and "m_temp_dir_file_descriptor (h1 ! 0) =
      (let fd = sys_open s ''.'' (FAM_SEARCH OR FCF_DIRECTORY OR FCF_NOCTTY)
       in if fd \<ge> 0 then sys_dup s fd else sys_open s ''.'' dir_open_flags)"
proof -
  have w: "world h" unfolding assms world_def using heap_ok_constructors(1)[of s] by simp
  have f: "m_temp_dir_file_descriptor (h ! 0) = -987" "m_path (h ! 0) = ''.''"
    "m_file_descriptor (h ! 0) = sys_open s ''.'' (FAM_SEARCH OR FCF_DIRECTORY OR FCF_NOCTTY)"
    by (simp_all add: assms ctor_defs Let_def)
  have r: "ResolvePath 0 h = h" by (subst ResolvePath.simps) (simp add: f(2))
  have l: "0 < length h" by (simp add: assms)
  show thesis
  proof (cases "m_file_descriptor (h ! 0) \<ge> 0")
    case True
    then show thesis using f l
      by (intro that[of "update_id 0 (\<lambda>f. f\<lparr>m_temp_dir_file_descriptor := sys_dup s (m_file_descriptor f)\<rparr>) h"]
          evolves_update[OF w]) (simp_all add: OpenDir_def GetTempDirFileDesc_def Let_def core_def nth_update_id)
  next
    case False
    then show thesis using f l r
      by (intro that[of "update_id 0 (\<lambda>f. f\<lparr>m_temp_dir_file_descriptor := sys_open s (m_path f) dir_open_flags\<rparr>) h"]
          evolves_update[OF w])
        (simp_all add: OpenDir_def GetTempDirFileDesc_def Let_def core_def nth_update_id dir_open_flags_def)
  qed
qed

lemma shared_init_scanning: "scanning dt {} {} (shared_init dt sync_queue_init)"
proof -
  define h where "h = [FileID_cwd (m_os dt)]"
  obtain h1 where h1: "snd (OpenDir (m_os dt) 0 h) = h1" "evolves {0} h h1"
    "m_temp_dir_file_descriptor (h1 ! 0) = root_descriptor dt"
    unfolding root_descriptor_def by (rule root_opened[OF h_def])
  have "path_of 0 h = ''.''" by (simp add: h_def path_of.simps ctor_defs Let_def)
  then have "path_of 0 h1 = ''.''" using evolves_path[OF h1(2)] by (simp add: h_def)
  then show ?thesis
    using h1(3) evolvesD(1)[OF h1(2)]
    by (simp add: scanning_def shared_init_def h1(1)[unfolded h_def] traversal_inv_def dir_ids_def file_ids_def
        delivered_def sync_queue_init_def paths_def worker_ok_def)
qed

lemma Scandir_starts:
  obtains ws sh where "Scandir dt ps n sync_queue_init = Some (ws, sh)"
    and "traversal_inv dt (named S_IFDIR dt ps) (named S_IFREG dt ps) ws sh" and "ws = replicate n (Pulling stats_init)"
proof -
  obtain sh where sh: "scan_paths dt ps (shared_init dt sync_queue_init) = Some sh"
    "scanning dt (named S_IFDIR dt ps) (named S_IFREG dt ps) sh"
    using scan_paths_scanning[OF shared_init_scanning, of dt ps] by auto
  let ?R = "named S_IFDIR dt ps" and ?F = "named S_IFREG dt ps"
  let ?sh = "sh\<lparr>m_heap := CloseDir 0 (m_heap sh)\<rparr>"
  have inv: "traversal_inv dt ?R ?F ([] @ Exited # []) sh" using sh(2) by (simp add: scanning_def)
  note iv = inv[unfolded traversal_inv_def]
  have w: "world (m_heap sh)" using iv by blast
  have e: "evolves {0} (m_heap sh) (CloseDir 0 (m_heap sh))" by (rule CloseDir_evolves[OF w])
  have "traversal_inv dt ?R ?F ([] @ Exited # []) ?sh"
  proof (rule traversal_inv_step[OF inv, where X="{0}" and N="{}" and M="{}"])
    show "evolves {0} (m_heap sh) (m_heap ?sh)" using e by simp
    show "\<forall>i \<in> set (m_underlying_queue (m_dir_queue ?sh)). unopened (m_heap ?sh) i"
    proof
      fix i assume i: "i \<in> set (m_underlying_queue (m_dir_queue ?sh))"
      then have "0 < i" "i < length (m_heap sh)" "unopened (m_heap sh) i"
        using iv by (auto simp: dir_ids_def)
      then show "unopened (m_heap ?sh) i" using evolves_unopened[OF e] by simp
    qed
  qed (use iv in \<open>simp_all add: dir_ids_def file_ids_def delivered_def paths_def worker_ok_def\<close>)
  then have "traversal_inv dt ?R ?F (replicate n (Pulling stats_init)) ?sh"
    unfolding traversal_inv_def dir_ids_def file_ids_def by (auto simp: worker_ok_def)
  with that sh(1) show thesis by (simp add: Scandir_def)
qed

subsection \<open>What is delivered\<close>

lemma inv_found:
  "traversal_inv dt roots files ws sh \<Longrightarrow> paths (m_heap sh) (file_ids ws sh) \<subseteq> Collect (found dt roots files)"
  by (simp add: traversal_inv_def)

abbreviation idle :: "worker list \<Rightarrow> shared \<Rightarrow> bool" where
  "idle ws sh \<equiv> set ws \<subseteq> range Pulling \<and> m_underlying_queue (m_dir_queue sh) = []"

lemma idle_complete:
  assumes inv: "traversal_inv dt roots files ws sh" and idle: "idle ws sh" and nf: "\<not> m_follow_symlinks dt"
  shows "reached dt roots p \<Longrightarrow> p \<in> paths (m_heap sh) (set (finished_dirs sh))"
    and "found dt roots files q \<Longrightarrow> q \<in> paths (m_heap sh) (delivered sh)"
proof -
  note iv = inv[unfolded traversal_inv_def]
  have "w \<in> set ws \<Longrightarrow> dir_of w = [] \<and> local_of w = []" for w using idle by auto
  then have ids: "dir_ids ws sh = set (finished_dirs sh)" "file_ids ws sh = delivered sh"
    using idle by (auto simp: dir_ids_def file_ids_def)
  have fin: "entries dt (path_of d (m_heap sh)) = Some des \<Longrightarrow> d \<in> set (finished_dirs sh) \<Longrightarrow> de \<in> set des \<Longrightarrow>
      covered dt (paths (m_heap sh) (set (finished_dirs sh))) (paths (m_heap sh) (delivered sh)) (path_of d (m_heap sh)) de"
    for d des de
    using iv unfolding ids finished_ok_def by blast
  have R: "reached dt roots p \<Longrightarrow> p \<in> paths (m_heap sh) (set (finished_dirs sh))" for p
  proof (induction rule: reached.induct)
    case (root p)
    then show ?case using iv unfolding ids by blast
  next
    case (below p des de)
    from below(5) obtain d where "d \<in> set (finished_dirs sh)" "p = path_of d (m_heap sh)" by (auto simp: paths_def)
    with fin[of d des de] below(2,3) have "covered dt (paths (m_heap sh) (set (finished_dirs sh))) (paths (m_heap sh) (delivered sh)) p de"
      by simp
    with below(4) nf show ?case by (simp add: covered_def)
  qed
  then show "reached dt roots p \<Longrightarrow> p \<in> paths (m_heap sh) (set (finished_dirs sh))" .
  assume "found dt roots files q"
  then show "q \<in> paths (m_heap sh) (delivered sh)"
  proof cases
    case named
    then show ?thesis using iv unfolding ids by blast
  next
    case (inside p des de)
    from R[OF inside(2)] obtain d where "d \<in> set (finished_dirs sh)" "p = path_of d (m_heap sh)" by (auto simp: paths_def)
    with fin[of d des de] inside(3,4) have "covered dt (paths (m_heap sh) (set (finished_dirs sh))) (paths (m_heap sh) (delivered sh)) p de"
      by simp
    with inside(1,5) show ?thesis by (simp add: covered_def)
  qed
qed

lemma reading_steps:
  assumes junk: "quiet_junk dt" and inv: "traversal_inv dt roots files ws sh" and r: "Reading st d todo local \<in> set ws"
  shows "ReaddirLoop dt (Reading st d todo local) sh \<noteq> None"
proof (cases todo)
  case (Cons de des)
  note iv = inv[unfolded traversal_inv_def]
  have "worker_ok dt (m_heap sh) (paths (m_heap sh) (dir_ids ws sh)) (paths (m_heap sh) (file_ids ws sh)) (Reading st d todo local)"
    using iv r by blast
  then have t: "m_temp_dir_file_descriptor (m_heap sh ! d) = sys_open (m_os dt) (path_of d (m_heap sh)) dir_open_flags"
    by (simp add: worker_ok_def)
  have "d \<in> dir_ids ws sh" using r by (force simp: dir_ids_def)
  then have d: "0 < d" "d < length (m_heap sh)" using iv by auto
  have w: "world (m_heap sh)" using iv by blast
  obtain st' local' sh' where "ProcessDirent dt d de (st, local, sh) = Some (st', local', sh')"
    by (rule ProcessDirent_effect[OF w d refl t junk])
  then show ?thesis by (simp add: ReaddirLoop_def Cons)
qed (simp add: ReaddirLoop_def)

lemma traversal_delivers_found_parts:
  assumes "quiet_junk dt" and "Scandir dt ps n sync_queue_init = Some (ws0, sh0)"
    and "(traverse_step dt)\<^sup>*\<^sup>* (ws0, sh0) (ws, sh)"
  shows "i \<in> delivered sh \<Longrightarrow> found dt (named S_IFDIR dt ps) (named S_IFREG dt ps) (path_of i (m_heap sh))"
    and "\<not> m_follow_symlinks dt \<Longrightarrow> idle ws sh \<Longrightarrow>
      paths (m_heap sh) (delivered sh) = Collect (found dt (named S_IFDIR dt ps) (named S_IFREG dt ps))"
    and "Reading st d todo local \<in> set ws \<Longrightarrow> ReaddirLoop dt (Reading st d todo local) sh \<noteq> None"
proof -
  let ?R = "named S_IFDIR dt ps" and ?F = "named S_IFREG dt ps"
  have "traversal_inv dt ?R ?F ws0 sh0" using Scandir_starts[of dt ps n] assms(2) by (metis option.inject prod.inject)
  then have inv: "traversal_inv dt ?R ?F ws sh" by (rule traversal_inv_steps[OF assms(3,1)])
  note iv = inv[unfolded traversal_inv_def]
  note inv_found[OF inv]
  then have s: "i \<in> delivered sh \<Longrightarrow> found dt ?R ?F (path_of i (m_heap sh))" for i
    by (auto simp: paths_def file_ids_def)
  then show "i \<in> delivered sh \<Longrightarrow> found dt ?R ?F (path_of i (m_heap sh))" .
  show "\<not> m_follow_symlinks dt \<Longrightarrow> idle ws sh \<Longrightarrow> paths (m_heap sh) (delivered sh) = Collect (found dt ?R ?F)"
  proof -
    assume nf: "\<not> m_follow_symlinks dt" and idle: "idle ws sh"
    have "paths (m_heap sh) (delivered sh) \<subseteq> Collect (found dt ?R ?F)"
      unfolding paths_def using s by blast
    moreover have "Collect (found dt ?R ?F) \<subseteq> paths (m_heap sh) (delivered sh)"
      using idle_complete(2)[OF inv idle nf] by blast
    ultimately show ?thesis by (rule equalityI)
  qed
  show "Reading st d todo local \<in> set ws \<Longrightarrow> ReaddirLoop dt (Reading st d todo local) sh \<noteq> None"
    by (rule reading_steps[OF assms(1) inv])
qed

text \<open>
  C9. Whatever the order in which the threads of a traversal take their steps: every file delivered to the
  scanners is one that the specification finds, that is a file named on the command line, or a regular
  file accepted by the file filter in a directory reached from one named there through directories that
  are not excluded. (A file named on the command line does not go through the file filter.) When symbolic
  links are not followed and all workers wait at the empty directory queue, the files delivered are exactly these.
  No worker that has work ends the program. All this provided that a failed \<open>fstatat\<close> does not leave the
  description of a file or directory in the buffer.
\<close>

theorem traversal_delivers_found:
  assumes "quiet_junk dt" and "Scandir dt ps n sync_queue_init = Some (ws0, sh0)"
    and "(traverse_step dt)\<^sup>*\<^sup>* (ws0, sh0) (ws, sh)"
  shows "(\<forall>i \<in> delivered sh. found dt (named S_IFDIR dt ps) (named S_IFREG dt ps) (path_of i (m_heap sh)))
    \<and> (\<not> m_follow_symlinks dt \<and> idle ws sh \<longrightarrow>
         paths (m_heap sh) (delivered sh) = Collect (found dt (named S_IFDIR dt ps) (named S_IFREG dt ps)))
    \<and> (\<forall>st d todo local. Reading st d todo local \<in> set ws \<longrightarrow> ReaddirLoop dt (Reading st d todo local) sh \<noteq> None)"
  using traversal_delivers_found_parts[OF assms] by blast


text \<open>A schedule: the threads in the order in which they take a step, if they can.\<close>

fun run_threads :: "dir_tree \<Rightarrow> nat list \<Rightarrow> worker list \<times> shared \<Rightarrow> worker list \<times> shared" where
  "run_threads dt [] s = s"
| "run_threads dt (t # ts) (ws, sh) =
     (case (if t < length ws then ReaddirLoop dt (ws ! t) sh else None) of
        None \<Rightarrow> run_threads dt ts (ws, sh)
      | Some (w, sh') \<Rightarrow> run_threads dt ts (ws[t := w], sh'))"

lemma run_threads_steps: "(traverse_step dt)\<^sup>*\<^sup>* s (run_threads dt ts s)"
proof (induction dt ts s rule: run_threads.induct)
  case (2 dt t ts ws sh)
  show ?case
  proof (cases "if t < length ws then ReaddirLoop dt (ws ! t) sh else None")
    case None
    with 2(1) show ?thesis by simp
  next
    case (Some r)
    then obtain w sh' where r: "r = (w, sh')" by (cases r)
    with Some have "traverse_step dt (ws, sh) (ws[t := w], sh')" by (auto intro: worker split: if_splits)
    moreover have "(traverse_step dt)\<^sup>*\<^sup>* (ws[t := w], sh') (run_threads dt ts (ws[t := w], sh'))"
      using 2(2)[OF Some r[symmetric]] .
    ultimately show ?thesis using Some r by (simp add: converse_rtranclp_into_rtranclp)
  qed
qed simp

definition tiny_os :: os where
  "tiny_os =
     \<lparr> sys_open = (\<lambda>p fl. if p = ''d'' then 4 else if p = ''d/s'' then 5 else if p = ''.'' then 3 else -1),
       sys_dup = (\<lambda>fd. fd + 100), sys_fstat = (\<lambda>fd. None),
       sys_fstatat = (\<lambda>fd p b. if fd = 103 \<and> p = ''d'' then Some \<lparr>st_mode = S_IFDIR, st_dev = 1, st_ino = 2, st_size = 0, st_blksize = 512, st_blocks = 1\<rparr>
         else if fd = 5 \<and> p = ''b.c'' then Some \<lparr>st_mode = S_IFREG, st_dev = 1, st_ino = 5, st_size = 9, st_blksize = 512, st_blocks = 1\<rparr>
         else None),
       sys_readdir = (\<lambda>fd. if fd = 4 then Some [\<lparr>d_name = ''..'', d_type = DT_DIR, d_ino = 1\<rparr>, \<lparr>d_name = ''a.c'', d_type = DT_REG, d_ino = 3\<rparr>,
           \<lparr>d_name = ''s'', d_type = DT_DIR, d_ino = 4\<rparr>, \<lparr>d_name = ''x.o'', d_type = DT_REG, d_ino = 6\<rparr>]
         else if fd = 5 then Some [\<lparr>d_name = ''b.c'', d_type = DT_UNKNOWN, d_ino = 5\<rparr>, \<lparr>d_name = ''gone'', d_type = DT_UNKNOWN, d_ino = 7\<rparr>]
         else None),
       sys_read = (\<lambda>fd. []) \<rparr>"

definition tiny_tree :: "stat_buf \<Rightarrow> dir_tree" where
  "tiny_tree junk =
     DirTree_ctor (\<lambda>name. name \<noteq> ''x.o'') (DirShouldBeExcluded {}) True False tiny_os junk"

definition tiny_junk :: "st_mode \<Rightarrow> stat_buf" where
  "tiny_junk m = \<lparr>st_mode = m, st_dev = 0, st_ino = 0, st_size = 0, st_blksize = 0, st_blocks = 0\<rparr>"

definition tiny_run :: "stat_buf \<Rightarrow> worker list \<times> shared" where
  "tiny_run junk = run_threads (tiny_tree junk) [0, 0, 0, 0, 1, 0, 0, 1, 0, 1, 1, 1]
     (the (Scandir (tiny_tree junk) [''./d/''] 2 sync_queue_init))"

definition delivered_paths :: "worker list \<times> shared \<Rightarrow> string list" where
  "delivered_paths s = map (\<lambda>i. path_of i (m_heap (snd s))) (m_underlying_queue (m_out_queue (snd s)))"

definition all_pulling :: "worker list \<times> shared \<Rightarrow> bool" where
  "all_pulling s \<longleftrightarrow> list_all (\<lambda>w. case w of Pulling st \<Rightarrow> True | _ \<Rightarrow> False) (fst s) \<and> m_underlying_queue (m_dir_queue (snd s)) = []"

lemma tiny_run_quiet:
  "delivered_paths (tiny_run (tiny_junk S_IFOTHER)) = [''d/a.c'', ''d/s/b.c''] \<and> all_pulling (tiny_run (tiny_junk S_IFOTHER))"
  by code_simp

text \<open>
  C32. A failed stat of a directory entry whose type readdir does not know, or of a link that is followed, is not
  noticed: when the uninitialised buffer happens to describe a regular file and the name passes the file filter, the
  worker takes up a file with the path of the entry, and delivers it to the scanners once it is done with the
  directory, although there is nothing at that path.
\<close>

theorem failed_stat_delivers_junk:
  assumes "world (m_heap sh)" and "0 < dse" and "dse < length (m_heap sh)"
    and "needs_stat dt (kind_of_dirent de)" and "\<not> is_dot_dir (dirent_get_name de)"
    and "FStatAt (m_os dt) dse (dirent_get_name de) (m_follow_symlinks dt) (m_heap sh) = None"
    and "st_mode (m_junk dt) = S_IFREG" and "m_file_basename_filter dt (dirent_get_name de)"
  shows "\<exists>f st1 sh1. ReaddirLoop dt (Reading st dse (de # des) local) sh = Some (Reading st1 dse des (local @ [f]), sh1)
    \<and> path_of f (m_heap sh1) = entry_path (path_of dse (m_heap sh)) (dirent_get_name de)
    \<and> (\<forall>st2 sh2 more. \<not> m_closed (m_out_queue sh2) \<longrightarrow>
         (\<exists>sh3. ReaddirLoop dt (Reading st2 dse [] (local @ [f] @ more)) sh2 = Some (Pulling st2, sh3)
            \<and> f \<in> set (m_underlying_queue (m_out_queue sh3))))"
proof -
  let ?name = "dirent_get_name de"
  obtain st1 where pd: "ProcessDirent dt dse de (st, local, sh) = process_file dt dse de (Some (m_junk dt)) (st1, local, sh)"
    using assms(4-7) by (cases "d_type de") (auto simp: ProcessDirent_def needs_stat_def kind_of_dirent_def kind_of_stat_def Let_def)
  obtain dev h where h: "GetDev (m_os dt) dse (m_heap sh) = Some (dev, h)" "evolves {} (m_heap sh) h" "length h = length (m_heap sh)"
    by (rule GetDev_evolves[OF assms(1-3)])
  let ?f = "FileID_relative dse ?name (Some (m_junk dt)) FT_REG dev (d_ino de) FAM_RDONLY (FCF_NOCTTY OR FCF_NOATIME)"
  let ?sh = "sh\<lparr>m_heap := h @ [?f]\<rparr>"
  have d: "dse < length h" using assms(3) h(3) by simp
  have "path_of (length h) (h @ [?f]) = entry_path (path_of dse (m_heap sh)) ?name"
    using new_file_evolves(2)[OF evolvesD(1)[OF h(2)] d] evolves_path[OF h(2) assms(3)] by simp
  moreover obtain st1' where "ReaddirLoop dt (Reading st dse (de # des) local) sh = Some (Reading st1' dse des (local @ [length h]), ?sh)"
    using assms(8) h(1) by (simp add: ReaddirLoop_def pd process_file_def Let_def make_shared_def)
  moreover have "\<exists>sh3. ReaddirLoop dt (Reading st2 dse [] (local @ [length h] @ more)) sh2 = Some (Pulling st2, sh3)
      \<and> length h \<in> set (m_underlying_queue (m_out_queue sh3))" if "\<not> m_closed (m_out_queue sh2)" for st2 sh2 more
    using that by (simp add: ReaddirLoop_def push_back_all_def)
  ultimately show ?thesis by (intro exI[of _ "length h"] exI[of _ st1'] exI[of _ ?sh]) simp
qed

text \<open>The small tree, with the first worker at the entry that has gone.\<close>

definition tiny_reading :: "worker list \<times> shared" where
  "tiny_reading = run_threads (tiny_tree (tiny_junk S_IFOTHER)) [0, 0, 0, 0, 1, 0, 0, 1, 0]
     (the (Scandir (tiny_tree (tiny_junk S_IFOTHER)) [''./d/''] 2 sync_queue_init))"

abbreviation gone_entry :: dirent where
  "gone_entry \<equiv> \<lparr>d_name = ''gone'', d_type = DT_UNKNOWN, d_ino = 7\<rparr>"

lemma tiny_reading_state:
  "(case fst tiny_reading ! 1 of Reading st d todo local \<Rightarrow> d = 3 \<and> todo = [gone_entry] \<and> local = [4] | _ \<Rightarrow> False)
   \<and> length (m_heap (snd tiny_reading)) = 5 \<and> path_of 3 (m_heap (snd tiny_reading)) = ''d/s''
   \<and> m_temp_dir_file_descriptor (m_heap (snd tiny_reading) ! 3) = 5"
  by code_simp

lemma tiny_reading_world: "world (m_heap (snd tiny_reading))"
proof -
  let ?dt = "tiny_tree (tiny_junk S_IFOTHER)"
  obtain ws0 sh0 where s: "Scandir ?dt [''./d/''] 2 sync_queue_init = Some (ws0, sh0)"
    "traversal_inv ?dt (named S_IFDIR ?dt [''./d/'']) (named S_IFREG ?dt [''./d/'']) ws0 sh0"
    using Scandir_starts[of ?dt "[''./d/'']" 2] by metis
  have j: "quiet_junk ?dt" by (simp add: quiet_junk_def tiny_tree_def DirTree_ctor_def tiny_junk_def)
  have "(traverse_step ?dt)\<^sup>*\<^sup>* (ws0, sh0) (fst tiny_reading, snd tiny_reading)"
    unfolding tiny_reading_def s(1) option.sel prod.collapse by (rule run_threads_steps)
  from traversal_inv_steps[OF this j s(2)] show ?thesis by (simp add: traversal_inv_def)
qed

lemma failed_stat_delivers_junk_witness:
  "\<exists>st f st1 sh1. ReaddirLoop (tiny_tree (tiny_junk S_IFREG)) (Reading st 3 [gone_entry] [4]) (snd tiny_reading)
       = Some (Reading st1 3 [] [4, f], sh1)
     \<and> path_of f (m_heap sh1) = ''d/s/gone''"
proof -
  let ?dt = "tiny_tree (tiny_junk S_IFREG)"
  note t = tiny_reading_state
  have "dirent_get_name gone_entry = ''gone''" "entry_path ''d/s'' ''gone'' = ''d/s/gone''" by code_simp+
  moreover have "needs_stat ?dt (kind_of_dirent gone_entry)" by (simp add: needs_stat_def kind_of_dirent_def)
  moreover have "\<not> is_dot_dir ''gone''" by (simp add: is_dot_dir_def)
  moreover have "FStatAt (m_os ?dt) 3 ''gone'' (m_follow_symlinks ?dt) (m_heap (snd tiny_reading)) = None"
    using t by (simp add: FStatAt_def tiny_tree_def DirTree_ctor_def tiny_os_def)
  moreover have "st_mode (m_junk ?dt) = S_IFREG" "m_file_basename_filter ?dt ''gone''"
    by (simp_all add: tiny_tree_def DirTree_ctor_def tiny_junk_def)
  ultimately show ?thesis
    using failed_stat_delivers_junk[OF tiny_reading_world, of 3 ?dt gone_entry stats_init "[]" "[4]"] t by auto
qed

lemma traversal_delivers_found_witness:
  "found (tiny_tree (tiny_junk S_IFOTHER)) (named S_IFDIR (tiny_tree (tiny_junk S_IFOTHER)) [''./d/''])
     (named S_IFREG (tiny_tree (tiny_junk S_IFOTHER)) [''./d/'']) ''d/s/b.c''"
proof -
  let ?dt = "tiny_tree (tiny_junk S_IFOTHER)"
  obtain ws0 sh0 where s: "Scandir ?dt [''./d/''] 2 sync_queue_init = Some (ws0, sh0)"
    using Scandir_starts[of ?dt "[''./d/'']" 2] by metis
  obtain ws sh where r: "tiny_run (tiny_junk S_IFOTHER) = (ws, sh)" by (cases "tiny_run (tiny_junk S_IFOTHER)")
  have st: "(traverse_step ?dt)\<^sup>*\<^sup>* (ws0, sh0) (ws, sh)"
    unfolding r[unfolded tiny_run_def s option.sel, symmetric] by (rule run_threads_steps)
  have j: "quiet_junk ?dt" by (simp add: quiet_junk_def tiny_tree_def DirTree_ctor_def tiny_junk_def)
  have "map (\<lambda>i. path_of i (m_heap sh)) (m_underlying_queue (m_out_queue sh)) = [''d/a.c'', ''d/s/b.c'']"
    using tiny_run_quiet r by (simp add: delivered_paths_def)
  then have "''d/s/b.c'' \<in> (\<lambda>i. path_of i (m_heap sh)) ` set (m_underlying_queue (m_out_queue sh))"
    by (metis list.set_map list.set_intros(1) list.set_intros(2))
  then obtain i where "i \<in> delivered sh" "''d/s/b.c'' = path_of i (m_heap sh)" by (auto simp: delivered_def)
  with traversal_delivers_found[OF j s st] show ?thesis by simp
qed

subsection \<open>Termination\<close>

text \<open>
  When links are not followed and the directories are a tree, every traversal ends. A directory is
  measured by its rank in the tree; a worker in it by the number of entries left.
\<close>

definition tree_ranked :: "dir_tree \<Rightarrow> (string \<Rightarrow> nat) \<Rightarrow> bool" where
  "tree_ranked dt rank \<longleftrightarrow>
     (\<forall>p des de. entries dt p = Some des \<longrightarrow> de \<in> set des \<longrightarrow> wanted_dir dt p de \<longrightarrow>
        rank (entry_path p (dirent_get_name de)) < rank p)"

definition worker_measure :: "(string \<Rightarrow> nat) \<Rightarrow> heap \<Rightarrow> worker \<Rightarrow> (nat \<times> nat \<times> nat) multiset" where
  "worker_measure rank h w =
     (case w of Reading st d todo local \<Rightarrow> {#(rank (path_of d h), 0, length todo)#} | _ \<Rightarrow> {#})"

definition queue_measure :: "(string \<Rightarrow> nat) \<Rightarrow> heap \<Rightarrow> nat list \<Rightarrow> (nat \<times> nat \<times> nat) multiset" where
  "queue_measure rank h q = mset (map (\<lambda>d. (rank (path_of d h), 1, 0)) q)"

definition traversal_measure :: "(string \<Rightarrow> nat) \<Rightarrow> worker list \<Rightarrow> shared \<Rightarrow> (nat \<times> nat \<times> nat) multiset" where
  "traversal_measure rank ws sh =
     queue_measure rank (m_heap sh) (m_underlying_queue (m_dir_queue sh))
     + \<Sum>\<^sub># (mset (map (worker_measure rank (m_heap sh)) ws))"

abbreviation triple_less :: "((nat \<times> nat \<times> nat) \<times> (nat \<times> nat \<times> nat)) set" where
  "triple_less \<equiv> less_than <*lex*> less_than <*lex*> less_than"

lemma measure_old:
  assumes "evolves X h h'" 
  shows "set (dir_of w) \<subseteq> {..<length h} \<Longrightarrow> worker_measure rank h' w = worker_measure rank h w"
    and "set q \<subseteq> {..<length h} \<Longrightarrow> queue_measure rank h' q = queue_measure rank h q"
proof -
  show "set (dir_of w) \<subseteq> {..<length h} \<Longrightarrow> worker_measure rank h' w = worker_measure rank h w"
    using evolves_path[OF assms] by (cases w) (auto simp: worker_measure_def)
  show "set q \<subseteq> {..<length h} \<Longrightarrow> queue_measure rank h' q = queue_measure rank h q"
    unfolding queue_measure_def using evolves_path[OF assms] by (intro arg_cong[where f=mset] map_cong) auto
qed

lemma mult_replace_one: "(\<And>k. k \<in># K \<Longrightarrow> (k, j) \<in> r) \<Longrightarrow> (K + I, {#j#} + I) \<in> mult r"
  using one_step_implies_mult[of "{#j#}" K r I] by (simp add: add.commute)

lemma traversal_measure_split:
  "traversal_measure rank (a @ w # b) sh =
     worker_measure rank (m_heap sh) w + queue_measure rank (m_heap sh) (m_underlying_queue (m_dir_queue sh))
     + \<Sum>\<^sub># (mset (map (worker_measure rank (m_heap sh)) (a @ b)))"
  by (simp add: traversal_measure_def)

lemma others_measure:
  assumes "evolves X h h'" and "set (concat (map dir_of ws)) \<subseteq> {..<length h}"
  shows "\<Sum>\<^sub># (mset (map (worker_measure rank h') ws)) = \<Sum>\<^sub># (mset (map (worker_measure rank h) ws))"
proof -
  have "map (worker_measure rank h') ws = map (worker_measure rank h) ws"
    using assms(2) by (intro map_cong refl measure_old(1)[OF assms(1)]) auto
  then show ?thesis by (rule arg_cong)
qed

lemma worker_decreases:
  assumes junk: "quiet_junk dt" and nf: "\<not> m_follow_symlinks dt" and rank: "tree_ranked dt rank"
    and inv: "traversal_inv dt roots files (a @ w0 # b) sh"
    and step: "ReaddirLoop dt w0 sh = Some (w, sh')"
  shows "(traversal_measure rank (a @ w # b) sh', traversal_measure rank (a @ w0 # b) sh) \<in> mult triple_less"
proof -
  note iv = inv[unfolded traversal_inv_def]
  let ?h = "m_heap sh"
  have ids: "set (concat (map dir_of (a @ b))) \<subseteq> {..<length ?h}" "set (m_underlying_queue (m_dir_queue sh)) \<subseteq> {..<length ?h}"
    using iv by (auto simp: dir_ids_def)
  let ?O = "\<Sum>\<^sub># (mset (map (worker_measure rank ?h) (a @ b)))"
  show ?thesis
  proof (cases w0)
    case (Pulling st)
    obtain d xs h1 where q: "m_underlying_queue (m_dir_queue sh) = d # xs" and d: "d < length ?h"
      and e: "evolves {d} ?h h1"
      and none: "entries dt (path_of d ?h) = None \<longrightarrow>
        w = Pulling st \<and> sh' = sh\<lparr>m_dir_queue := m_dir_queue sh\<lparr>m_underlying_queue := xs\<rparr>, m_heap := h1,
          finished_dirs := finished_dirs sh @ [d]\<rparr>"
      and some: "\<forall>es. entries dt (path_of d ?h) = Some es \<longrightarrow>
        w = Reading st d es [] \<and> sh' = sh\<lparr>m_dir_queue := m_dir_queue sh\<lparr>m_underlying_queue := xs\<rparr>, m_heap := h1\<rparr>"
      using pull_step[OF inv[unfolded Pulling] step[unfolded Pulling]] by metis
    let ?j = "(rank (path_of d ?h), 1, 0)" and ?I = "queue_measure rank ?h xs + ?O"
    have old: "traversal_measure rank (a @ w0 # b) sh = {#?j#} + ?I"
      unfolding traversal_measure_split Pulling q by (simp add: worker_measure_def queue_measure_def)
    have xs: "set xs \<subseteq> {..<length ?h}" using ids(2) q by auto
    have w: "worker_measure rank h1 w = {#} \<and> m_heap sh' = h1 \<and> m_underlying_queue (m_dir_queue sh') = xs
        \<or> (\<exists>k. worker_measure rank h1 w = {#(rank (path_of d ?h), 0, k)#} \<and> m_heap sh' = h1 \<and> m_underlying_queue (m_dir_queue sh') = xs)"
    proof (cases "entries dt (path_of d ?h)")
      case None
      with none show ?thesis by (simp add: worker_measure_def)
    next
      case (Some es)
      with some evolves_path[OF e d] show ?thesis by (simp add: worker_measure_def)
    qed
    then have new: "traversal_measure rank (a @ w # b) sh' = worker_measure rank h1 w + ?I"
      unfolding traversal_measure_split using measure_old(2)[OF e xs] others_measure[OF e ids(1)] by auto
    show ?thesis unfolding old new by (rule mult_replace_one) (use w in auto)
  next
    case (Reading st d todo local)
    show ?thesis
    proof (cases todo)
      case Nil
      have dl: "d < length ?h" using iv by (auto simp: dir_ids_def Reading)
      have e: "evolves {d} ?h (CloseDir d ?h)" by (rule CloseDir_evolves) (use iv in blast)
      have s: "w = Pulling st" "m_heap sh' = CloseDir d ?h" "m_dir_queue sh' = m_dir_queue sh"
        using step by (auto simp: Reading Nil ReaddirLoop_def)
      let ?j = "(rank (path_of d ?h), 0, 0)" and ?I = "queue_measure rank ?h (m_underlying_queue (m_dir_queue sh)) + ?O"
      have old: "traversal_measure rank (a @ w0 # b) sh = {#?j#} + ?I"
        unfolding traversal_measure_split by (simp add: worker_measure_def Reading Nil)
      have new: "traversal_measure rank (a @ w # b) sh' = {#} + ?I"
        unfolding traversal_measure_split s using measure_old(2)[OF e ids(2)] others_measure[OF e ids(1)]
        by (simp add: worker_measure_def)
      show ?thesis unfolding old new by (rule mult_replace_one) simp
    next
      case (Cons de des)
      obtain st' local' seen where dl: "d < length ?h" and w: "w = Reading st' d des local'"
        and eff: "entry_effect dt (path_of d ?h) de local sh local' sh'"
        and en: "entries dt (path_of d ?h) = Some (seen @ de # des)"
        using entry_step[OF junk inv[unfolded Reading Cons] step[unfolded Reading Cons]] by metis
      note ef = eff[unfolded entry_effect_def]
      have e: "evolves {} ?h (m_heap sh')" using ef by blast
      have p: "path_of d (m_heap sh') = path_of d ?h" by (rule evolves_path[OF e dl])
      let ?j = "(rank (path_of d ?h), 0, Suc (length des))" and ?I = "queue_measure rank ?h (m_underlying_queue (m_dir_queue sh)) + ?O"
      let ?t = "entry_path (path_of d ?h) (dirent_get_name de)"
      have old: "traversal_measure rank (a @ w0 # b) sh = {#?j#} + ?I"
        unfolding traversal_measure_split by (simp add: worker_measure_def Reading Cons)
      have "queue_measure rank (m_heap sh') (m_underlying_queue (m_dir_queue sh')) = queue_measure rank ?h (m_underlying_queue (m_dir_queue sh))
          \<or> wanted_dir dt (path_of d ?h) de \<and> queue_measure rank (m_heap sh') (m_underlying_queue (m_dir_queue sh'))
              = {#(rank ?t, 1, 0)#} + queue_measure rank ?h (m_underlying_queue (m_dir_queue sh))"
      proof -
        have cl: "\<not> m_closed (m_dir_queue sh)" using iv by blast
        consider "m_dir_queue sh' = m_dir_queue sh"
          | f where "wanted_dir dt (path_of d ?h) de" "path_of f (m_heap sh') = ?t"
              "m_underlying_queue (m_dir_queue sh') = m_underlying_queue (m_dir_queue sh) @ [f]"
          using ef unfolding push_back_open[OF cl] by fastforce
        then show ?thesis
        proof cases
          case 1
          then show ?thesis using measure_old(2)[OF e ids(2)] by simp
        next
          case (2 f)
          have "queue_measure rank (m_heap sh') (m_underlying_queue (m_dir_queue sh) @ [f]) =
              {#(rank ?t, 1, 0)#} + queue_measure rank (m_heap sh') (m_underlying_queue (m_dir_queue sh))"
            by (simp add: queue_measure_def 2(2))
          with 2 show ?thesis using measure_old(2)[OF e ids(2)] by simp
        qed
      qed
      then obtain K where K: "queue_measure rank (m_heap sh') (m_underlying_queue (m_dir_queue sh'))
            = K + queue_measure rank ?h (m_underlying_queue (m_dir_queue sh))"
          "K = {#} \<or> K = {#(rank ?t, 1, 0)#} \<and> wanted_dir dt (path_of d ?h) de"
        by (metis add_0)
      have lt: "wanted_dir dt (path_of d ?h) de \<Longrightarrow> rank ?t < rank (path_of d ?h)"
        using rank en unfolding tree_ranked_def by simp
      have new: "traversal_measure rank (a @ w # b) sh' = (K + {#(rank (path_of d ?h), 0, length des)#}) + ?I"
        unfolding traversal_measure_split K(1) using others_measure[OF e ids(1)] by (simp add: w worker_measure_def p)
      show ?thesis unfolding old new by (rule mult_replace_one) (use K(2) lt in auto)
    qed
  qed (use step in \<open>simp add: ReaddirLoop_def\<close>)
qed

text \<open>
  C18. When symbolic links are not followed and directories are not nested for ever, no traversal goes on
  for ever, in whatever order the workers and the consumers of their output take their steps.
\<close>

theorem traversal_terminates:
  assumes "quiet_junk dt" and "\<not> m_follow_symlinks dt" and "tree_ranked dt rank"
    and "Scandir dt ps n sync_queue_init = Some (f 0)"
  shows "\<not> (\<forall>k. traverse_step dt (f k) (f (Suc k)))"
proof
  let ?R = "named S_IFDIR dt ps" and ?F = "named S_IFREG dt ps"
  assume run: "\<forall>k. traverse_step dt (f k) (f (Suc k))"
  have start: "traversal_inv dt ?R ?F (fst (f 0)) (snd (f 0))"
    using Scandir_starts[of dt ps n] assms(4) by (metis option.inject fst_conv snd_conv)
  have inv: "traversal_inv dt ?R ?F (fst (f k)) (snd (f k))" for k
  proof (induction k)
    case (Suc k)
    then show ?case using traverse_step_inv[OF assms(1)] run by (metis prod.collapse)
  qed (rule start)
  define m where "m = (\<lambda>k. (traversal_measure rank (fst (f k)) (snd (f k)), length (m_underlying_queue (m_out_queue (snd (f k))))))"
  have "(m (Suc k), m k) \<in> mult triple_less <*lex*> less_than" for k
  proof -
    obtain ws sh ws' sh' where s: "f k = (ws, sh)" "f (Suc k) = (ws', sh')" by (cases "f k"; cases "f (Suc k)")
    have inv_k: "traversal_inv dt ?R ?F ws sh" using inv[of k] s by simp
    have "traverse_step dt (ws, sh) (ws', sh')" using run s by metis
    then show ?thesis
    proof cases
      case (worker t w)
      let ?a = "take t ws" and ?b = "drop (Suc t) ws"
      have e: "ws = ?a @ ws ! t # ?b" "ws' = ?a @ w # ?b"
        using worker(1,2) by (simp_all add: id_take_nth_drop upd_conv_take_nth_drop)
      have i: "traversal_inv dt ?R ?F (?a @ ws ! t # ?b) sh" using inv_k e(1) by simp
      have "(traversal_measure rank (?a @ w # ?b) sh', traversal_measure rank (?a @ ws ! t # ?b) sh) \<in> mult triple_less"
        by (rule worker_decreases[OF assms(1-3) i worker(3)])
      then show ?thesis using s e(2) unfolding m_def by (simp add: e(1)[symmetric])
    next
      case (consumer g q)
      have "\<not> m_closed (m_out_queue sh)" using inv_k unfolding traversal_inv_def by blast
      from pull_front_open[OF this consumer(3)] consumer(1,2) s show ?thesis
        by (auto simp: m_def traversal_measure_def)
    qed
  qed
  moreover have "wf (mult triple_less <*lex*> less_than)" by (intro wf_lex_prod wf_mult) simp_all
  ultimately show False using wf_iff_no_infinite_down_chain by blast
qed

lemma tiny_ranked: "tree_ranked (tiny_tree (tiny_junk S_IFOTHER)) (\<lambda>p. if p = ''d'' then 1 else 0)"
proof -
  have "(\<exists>des. entries (tiny_tree (tiny_junk S_IFOTHER)) p = Some des) \<Longrightarrow> p = ''d'' \<or> p = ''d/s''" for p
    by (simp add: entries_def tiny_tree_def DirTree_ctor_def tiny_os_def split: if_splits)
  moreover have "\<forall>de \<in> set (the (entries (tiny_tree (tiny_junk S_IFOTHER)) ''d'')).
      entry_path ''d'' (dirent_get_name de) \<noteq> ''d''"
    by code_simp
  moreover have "\<forall>de \<in> set (the (entries (tiny_tree (tiny_junk S_IFOTHER)) ''d/s'')).
      \<not> wanted_dir (tiny_tree (tiny_junk S_IFOTHER)) ''d/s'' de"
    by code_simp
  ultimately show ?thesis unfolding tree_ranked_def by (auto split: if_splits) (metis option.sel)+
qed

lemma traversal_terminates_witness:
  "\<not> (\<forall>k. traverse_step (tiny_tree (tiny_junk S_IFOTHER))
     (run_threads (tiny_tree (tiny_junk S_IFOTHER)) (replicate k 0) (the (Scandir (tiny_tree (tiny_junk S_IFOTHER)) [''./d/''] 2 sync_queue_init)))
     (run_threads (tiny_tree (tiny_junk S_IFOTHER)) (replicate (Suc k) 0) (the (Scandir (tiny_tree (tiny_junk S_IFOTHER)) [''./d/''] 2 sync_queue_init))))"
proof -
  let ?dt = "tiny_tree (tiny_junk S_IFOTHER)"
  let ?s = "the (Scandir ?dt [''./d/''] 2 sync_queue_init)"
  have j: "quiet_junk ?dt" "\<not> m_follow_symlinks ?dt"
    by (simp_all add: quiet_junk_def tiny_tree_def DirTree_ctor_def tiny_junk_def)
  have "Scandir ?dt [''./d/''] 2 sync_queue_init = Some ?s"
    using Scandir_starts[of ?dt "[''./d/'']" 2] by (metis option.sel)
  then have "Scandir ?dt [''./d/''] 2 sync_queue_init = Some (run_threads ?dt (replicate 0 0) ?s)" by simp
  from traversal_terminates[where f="\<lambda>k. run_threads ?dt (replicate k 0) ?s", OF j tiny_ranked this] show ?thesis .
qed

end
