(* ===== verification/File.thy ===== *)
theory File
  imports FileID LiteralSearch MatchOutput
begin

unbundle bit_operations_syntax

text \<open>
  \<open>src/File.h\<close> and \<open>src/File.cpp\<close>: reading a file into the buffer the scanner works on.

  A \<open>File\<close> refers to a \<open>FileID\<close> of the heap and to a buffer, which the files of one scanner thread share;
  memory is byte-addressed. What successive calls of \<open>read\<close> deliver is given by the operating system. The
  destructor does nothing, since memory mapping is switched off.
\<close>

subsection \<open>The class\<close>

text \<open>
  What can be thrown while a file is constructed: what \<open>GetFileDescriptor\<close> throws, the exception for a bad
  descriptor, \<open>std::bad_alloc\<close>, and the end of the program when a getter throws.
\<close>

datatype file_error = FileIDError FileIDException | BadDescriptor | BadAlloc | Terminated

record buffers =
  b_heap :: heap
  b_storage :: resizable_array
  b_memory :: memory

definition mem_write :: "nat \<Rightarrow> string \<Rightarrow> memory \<Rightarrow> memory" where
  "mem_write p c mem = (\<lambda>a. if p \<le> a \<and> a < p + length c then c ! (a - p) else mem a)"

text \<open>The read loop: every call of \<open>read\<close> writes at the start of the buffer.\<close>

primrec read_loop :: "nat \<Rightarrow> string list \<Rightarrow> memory \<Rightarrow> memory" where
  "read_loop p [] mem = mem"
| "read_loop p (c # cs) mem = read_loop p cs (mem_write p c mem)"

definition GetFileData ::
    "(nat \<Rightarrow> nat \<Rightarrow> nat option) \<Rightarrow> os \<Rightarrow> int \<Rightarrow> nat \<Rightarrow> nat \<Rightarrow> buffers \<Rightarrow> (nat \<times> buffers) option" where
  "GetFileData alloc s file_descriptor file_size preferred_block_size bs =
     (case ResizableArray_realloc alloc file_size preferred_block_size (b_storage bs) (b_memory bs) of
        None \<Rightarrow> None
      | Some (b, ra, mem) \<Rightarrow>
          Some (b, bs\<lparr>b_storage := ra, b_memory := read_loop b (sys_read s file_descriptor) mem\<rparr>))"

text \<open>
  The constructor: the exception, or \<open>m_file_data\<close>, which is a null pointer (\<open>None\<close>) for an empty file.
\<close>

definition File_ctor ::
    "(nat \<Rightarrow> nat \<Rightarrow> nat option) \<Rightarrow> os \<Rightarrow> nat \<Rightarrow> buffers \<Rightarrow> (file_error + nat option) \<times> buffers" where
  "File_ctor alloc s i bs =
     (case GetFileDescriptor s i (b_heap bs) of
        (Inl e, h) \<Rightarrow> (Inl (FileIDError e), bs\<lparr>b_heap := h\<rparr>)
      | (Inr fd, h) \<Rightarrow>
          if fd = -1 then (Inl BadDescriptor, bs\<lparr>b_heap := h\<rparr>)
          else
            (case GetFileSize s i h of
               None \<Rightarrow> (Inl Terminated, bs\<lparr>b_heap := h\<rparr>)
             | Some (file_size, h) \<Rightarrow>
                 if file_size = 0 then (Inr None, bs\<lparr>b_heap := h\<rparr>)
                 else
                   (case GetBlockSize s i h of
                      None \<Rightarrow> (Inl Terminated, bs\<lparr>b_heap := h\<rparr>)
                    | Some (blk, h) \<Rightarrow>
                        (case GetFileData alloc s fd (nat file_size) (nat (clamp blk 0x20000 0x100000)) (bs\<lparr>b_heap := h\<rparr>) of
                           None \<Rightarrow> (Inl BadAlloc, bs\<lparr>b_heap := h\<rparr>)
                         | Some (b, bs) \<Rightarrow> (Inr (Some b), bs)))))"

text \<open>The constructor from a path, with its own object for the current directory.\<close>

definition File_named ::
    "(nat \<Rightarrow> nat \<Rightarrow> nat option) \<Rightarrow> os \<Rightarrow> string \<Rightarrow> 32 word \<Rightarrow> 32 word \<Rightarrow> buffers \<Rightarrow> (file_error + nat option) \<times> buffers" where
  "File_named alloc s filename fam fcf bs =
     (case make_shared (FileID_copy (FileID_cwd s)) (b_heap bs) of
        (cwd, h) \<Rightarrow>
          (case make_shared (FileID_at cwd filename fam fcf) h of
             (i, h) \<Rightarrow> File_ctor alloc s i (bs\<lparr>b_heap := h\<rparr>)))"

definition File_size :: "os \<Rightarrow> nat \<Rightarrow> buffers \<Rightarrow> (int \<times> buffers) option" where
  "File_size s i bs = map_option (\<lambda>(n, h). (n, bs\<lparr>b_heap := h\<rparr>)) (GetFileSize s i (b_heap bs))"

definition File_name :: "nat \<Rightarrow> buffers \<Rightarrow> string \<times> buffers" where
  "File_name i bs = (the_path i (b_heap bs), bs\<lparr>b_heap := GetPath i (b_heap bs)\<rparr>)"

subsection \<open>Reading\<close>

lemma mem_write_outside: "\<not> (p \<le> a \<and> a < p + length c) \<Longrightarrow> mem_write p c mem a = mem a"
  by (auto simp: mem_write_def)

lemma mem_write_inside: "k < length c \<Longrightarrow> mem_write p c mem (p + k) = c ! k"
  by (simp add: mem_write_def)

lemma read_loop_outside:
  "\<forall>c \<in> set cs. length c \<le> n \<Longrightarrow> \<not> (p \<le> a \<and> a < p + n) \<Longrightarrow> read_loop p cs mem a = mem a"
  by (induction cs arbitrary: mem) (auto simp: mem_write_def dest: order_trans)

lemma read_loop_last:
  assumes "k < length c"
  shows "read_loop p (cs @ [c]) mem (p + k) = c ! k"
  using assms by (induction cs arbitrary: mem) (simp_all add: mem_write_inside)

text \<open>
  What it takes to read file \<open>i\<close> with content \<open>c\<close>: it is below a directory and has its flags, it has
  not been opened, it opens, the length of its content is what has been found out about it before or what
  \<open>fstat\<close> gives (\<open>sized\<close>), and one call of \<open>read\<close> delivers all of it.
\<close>

definition fresh_file :: "nat \<Rightarrow> heap \<Rightarrow> bool" where
  "fresh_file i h \<longleftrightarrow>
     i < length h \<and> m_at_dir (h ! i) \<noteq> None \<and> m_open_flags (h ! i) \<noteq> 0 \<and> m_file_descriptor (h ! i) < 0
     \<and> m_valid_bits (h ! i) AND V_FILE_DESC = 0"

definition opened :: "os \<Rightarrow> nat \<Rightarrow> heap \<Rightarrow> int" where
  "opened s i h = sys_open s (path_of i h) (m_open_flags (h ! i))"

abbreviation fitting_size :: "nat \<Rightarrow> int \<Rightarrow> int \<Rightarrow> bool" where
  "fitting_size m n blk \<equiv>
     n = int m \<and> (0 < m \<longrightarrow> is_power_of_2 (of_nat (nat (clamp blk 0x20000 0x100000)) :: 64 word))"

abbreviation fitting :: "string \<Rightarrow> int \<Rightarrow> int \<Rightarrow> bool" where
  "fitting c n blk \<equiv> fitting_size (length c) n blk"

definition sized :: "os \<Rightarrow> nat \<Rightarrow> heap \<Rightarrow> nat \<Rightarrow> bool" where
  "sized s i h m \<longleftrightarrow>
     opened s i h \<ge> 0
     \<and> (if m_valid_bits (h ! i) AND V_STATINFO = 0
        then \<exists>sb. sys_fstat s (opened s i h) = Some sb \<and> fitting_size m (st_size sb) (st_blksize sb)
        else fitting_size m (m_size (h ! i)) (m_block_size (h ! i)))
     \<and> m < 2 ^ 63"

definition readable :: "os \<Rightarrow> nat \<Rightarrow> heap \<Rightarrow> string \<Rightarrow> bool" where
  "readable s i h c \<longleftrightarrow> sized s i h (length c) \<and> sys_read s (opened s i h) = (if c = [] then [] else [c])"

text \<open>What reading a file leaves of the others: their paths, and all that makes them readable.\<close>

definition readiness :: "file_id \<Rightarrow> 32 word \<times> int \<times> bool \<times> bool \<times> int \<times> int" where
  "readiness f = (m_open_flags f, m_file_descriptor f, m_valid_bits f AND V_FILE_DESC = 0,
     m_valid_bits f AND V_STATINFO = 0, m_size f, m_block_size f)"

definition undisturbed :: "nat \<Rightarrow> heap \<Rightarrow> heap \<Rightarrow> bool" where
  "undisturbed i h h' \<longleftrightarrow>
     heap_ok h' \<and> length h' = length h
     \<and> (\<forall>k<length h. names (h' ! k) = names (h ! k)
          \<and> m_temp_dir_file_descriptor (h' ! k) = m_temp_dir_file_descriptor (h ! k)
          \<and> (k \<noteq> i \<longrightarrow> readiness (h' ! k) = readiness (h ! k)))"

lemma undisturbed_trans: "undisturbed i h h1 \<Longrightarrow> undisturbed i h1 h2 \<Longrightarrow> undisturbed i h h2"
  by (simp add: undisturbed_def)

lemma undisturbed_path: "undisturbed i h h' \<Longrightarrow> k < length h \<Longrightarrow> path_of k h' = path_of k h"
  by (rule path_of_names) (simp_all add: undisturbed_def)

lemma undisturbed_fresh:
  assumes u: "undisturbed i h h'" and "k \<noteq> i" and f: "fresh_file k h"
  shows "fresh_file k h'" and "opened s k h' = opened s k h" and "readable s k h' c = readable s k h c"
proof -
  have k: "k < length h" "names (h' ! k) = names (h ! k)" "readiness (h' ! k) = readiness (h ! k)" "length h' = length h"
    using assms by (simp_all add: undisturbed_def fresh_file_def)
  then show "fresh_file k h'" using f by (auto simp: fresh_file_def readiness_def names_def)
  show o: "opened s k h' = opened s k h"
    using k undisturbed_path[OF u k(1)] by (simp add: opened_def readiness_def)
  show "readable s k h' c = readable s k h c"
    using k(3) by (simp add: readable_def sized_def o readiness_def)
qed

lemma undisturbed_frame:
  assumes "heap_ok h'" and fr: "map frame h' = map frame h"
  shows "undisturbed i h h'"
proof -
  have "names (h' ! k) = names (h ! k) \<and> m_temp_dir_file_descriptor (h' ! k) = m_temp_dir_file_descriptor (h ! k)
      \<and> readiness (h' ! k) = readiness (h ! k)" if k: "k < length h" for k
  proof -
    note ff = frame_fields[OF map_frame_nth[OF fr k]]
    have low: "x AND m = (x OR V_PATH) AND m" if "m \<in> {V_FILE_DESC, V_STATINFO}" for x m :: "8 word"
      using that by (auto simp: bit.conj_disj_distrib2 valid_defs)
    have "m_valid_bits (h' ! k) AND m = m_valid_bits (h ! k) AND m" if "m \<in> {V_FILE_DESC, V_STATINFO}" for m
      using low[OF that, of "m_valid_bits (h' ! k)"] low[OF that, of "m_valid_bits (h ! k)"] ff(12) by metis
    with ff show ?thesis by (simp add: names_def readiness_def)
  qed
  with assms(1) map_frame_length[OF fr] show ?thesis by (simp add: undisturbed_def)
qed

lemma undisturbed_update:
  assumes "heap_ok h" and "path_core (g (h ! i)) = path_core (h ! i)"
    and "m_temp_dir_file_descriptor (g (h ! i)) = m_temp_dir_file_descriptor (h ! i)"
  shows "undisturbed i h (update_id i g h)"
proof -
  have "heap_ok (update_id i g h)"
    by (rule heap_ok_path_core[OF assms(1)]) (use assms(2) in \<open>auto simp: nth_update_id\<close>)
  with assms(2,3) show ?thesis by (auto simp: undisturbed_def nth_update_id path_core_def names_def)
qed

lemma GetFileDescriptor_fresh:
  assumes ok: "heap_ok h" and f: "fresh_file i h"
  shows "opened s i h = -1 \<Longrightarrow> \<exists>h'. GetFileDescriptor s i h = (Inl (OpenFailed (path_of i h)), h') \<and> undisturbed i h h'"
    and "opened s i h \<noteq> -1 \<Longrightarrow> \<exists>h'. GetFileDescriptor s i h = (Inr (opened s i h), h') \<and> undisturbed i h h'
           \<and> m_file_descriptor (h' ! i) = opened s i h \<and> m_size (h' ! i) = m_size (h ! i)
           \<and> m_block_size (h' ! i) = m_block_size (h ! i) \<and> m_valid_bits (h' ! i) AND V_STATINFO = m_valid_bits (h ! i) AND V_STATINFO"
proof -
  let ?h = "ResolvePath i h"
  have i: "i < length h" using f by (simp add: fresh_file_def)
  have r: "heap_ok ?h" "map frame ?h = map frame h" "m_path (?h ! i) = path_of i h"
    using GetPath_ResolvePath(2)[OF ok i] by simp_all
  have u: "undisturbed i h ?h" by (rule undisturbed_frame[OF r(1,2)])
  have len: "length ?h = length h" by (rule map_frame_length[OF r(2)])
  note ff = frame_fields[OF map_frame_nth[OF r(2) i]]
  have op: "sys_open s (m_path (?h ! i)) (m_open_flags (?h ! i)) = opened s i h"
    by (simp add: opened_def r(3) ff)
  have impl: "impl_GetFileDescriptor s i h =
      (if opened s i h = -1 then (Some (OpenFailed (path_of i h)), ?h)
       else (None, update_id i (\<lambda>f. f\<lparr>m_file_descriptor := opened s i h\<rparr>) ?h))"
    using f op r(3) by (auto simp: impl_GetFileDescriptor_def fresh_file_def Let_def)
  have desc: "m_valid_bits (h ! i) AND V_FILE_DESC = 0" using f by (simp add: fresh_file_def)
  show "opened s i h = -1 \<Longrightarrow> \<exists>h'. GetFileDescriptor s i h = (Inl (OpenFailed (path_of i h)), h') \<and> undisturbed i h h'"
    using u by (simp add: GetFileDescriptor_def impl desc)
  assume n: "opened s i h \<noteq> -1"
  define h2 where "h2 = set_valid i V_PATH ?h"
  define g where "g = (\<lambda>f :: file_id. f\<lparr>m_file_descriptor := opened s i h, m_valid_bits := m_valid_bits f OR V_FILE_DESC\<rparr>)"
  have pi: "path_of i ?h = path_of i h" by (rule path_of_frame[OF r(2) i])
  have s2: "heap_ok h2" "map frame h2 = map frame ?h"
    unfolding h2_def by (rule set_valid_path[OF r(1)], simp_all add: len i r(3) pi)
       (rule set_valid_path[OF r(1)], simp_all add: len i r(3) pi)
  have u2: "undisturbed i ?h h2" by (rule undisturbed_frame[OF s2])
  have "path_core (g (h2 ! i)) = path_core (h2 ! i)"
    by (simp add: path_core_def g_def bit.conj_disj_distrib2 valid_defs)
  then have u3: "undisturbed i h2 (update_id i g h2)" by (rule undisturbed_update[OF s2(1)]) (simp add: g_def)
  let ?h3 = "set_valid i (V_FILE_DESC OR V_PATH) (update_id i (\<lambda>f. f\<lparr>m_file_descriptor := opened s i h\<rparr>) ?h)"
  have e: "?h3 = update_id i g h2"
    by (auto simp: update_id_def h2_def g_def set_valid_def len i or.commute or.left_commute intro!: arg_cong[where f="\<lambda>x. ?h[i := x]"])
  have "m_valid_bits (?h ! i) OR V_PATH = m_valid_bits (h ! i) OR V_PATH" by (rule ff)
  moreover have "x AND V_STATINFO = (x OR V_PATH) AND V_STATINFO" "(x OR (V_FILE_DESC OR V_PATH)) AND V_STATINFO = x AND V_STATINFO"
    for x :: "8 word" by (simp_all add: bit.conj_disj_distrib2 valid_defs)
  ultimately have "(m_valid_bits (?h ! i) OR (V_FILE_DESC OR V_PATH)) AND V_STATINFO = m_valid_bits (h ! i) AND V_STATINFO"
    by metis
  then have "m_file_descriptor (?h3 ! i) = opened s i h \<and> m_size (?h3 ! i) = m_size (h ! i)
      \<and> m_block_size (?h3 ! i) = m_block_size (h ! i) \<and> m_valid_bits (?h3 ! i) AND V_STATINFO = m_valid_bits (h ! i) AND V_STATINFO"
    using i len ff(10,11) by (simp add: set_valid_def nth_update_id)
  moreover have "undisturbed i h ?h3" unfolding e by (rule undisturbed_trans[OF undisturbed_trans[OF u u2] u3])
  moreover have "GetFileDescriptor s i h = (Inr (opened s i h), ?h3)"
    using i len n by (simp add: GetFileDescriptor_def impl desc Let_def set_valid_def nth_update_id)
  ultimately show "\<exists>h'. GetFileDescriptor s i h = (Inr (opened s i h), h') \<and> undisturbed i h h'
           \<and> m_file_descriptor (h' ! i) = opened s i h \<and> m_size (h' ! i) = m_size (h ! i)
           \<and> m_block_size (h' ! i) = m_block_size (h ! i) \<and> m_valid_bits (h' ! i) AND V_STATINFO = m_valid_bits (h ! i) AND V_STATINFO"
    by blast
qed

lemma GetFileSize_loads:
  assumes ok: "heap_ok h" and i: "i < length h" and d: "m_at_dir (h ! i) \<noteq> None" and fd: "m_file_descriptor (h ! i) \<ge> 0"
    and v: "m_valid_bits (h ! i) AND V_STATINFO = 0" and st: "sys_fstat s (m_file_descriptor (h ! i)) = Some sb"
  obtains h' where "GetFileSize s i h = Some (st_size sb, h')" and "undisturbed i h h'"
    and "GetFileSize s i h' = Some (st_size sb, h')" and "GetBlockSize s i h' = Some (st_blksize sb, h')"
proof -
  let ?bits = "V_UUID OR V_STATINFO OR V_TYPE"
  let ?h1 = "update_id i (SetStatInfo sb) h"
  have l: "LazyLoadStatInfo s i h = Some ?h1"
    using d fd st by (auto simp: LazyLoadStatInfo_def update_id_def)
  have u1: "undisturbed i h ?h1"
    by (rule undisturbed_update[OF ok]) (simp_all add: path_core_def SetStatInfo_def)
  then have ok1: "heap_ok ?h1" by (simp add: undisturbed_def)
  have "path_core ((\<lambda>f. f\<lparr>m_valid_bits := m_valid_bits f OR ?bits\<rparr>) (?h1 ! i)) = path_core (?h1 ! i)"
    by (simp add: path_core_def bit.conj_disj_distrib2 valid_defs)
  then have u: "undisturbed i h (set_valid i ?bits ?h1)"
    unfolding set_valid_def by (intro undisturbed_trans[OF u1] undisturbed_update[OF ok1]) simp_all
  have valid: "m_valid_bits (set_valid i ?bits ?h1 ! i) AND V_STATINFO \<noteq> 0"
    using i by (simp add: set_valid_def nth_update_id bit.conj_disj_distrib2 valid_defs)
  have sz: "m_size (set_valid i ?bits ?h1 ! i) = st_size sb" "m_block_size (set_valid i ?bits ?h1 ! i) = st_blksize sb"
    using i by (simp_all add: set_valid_def nth_update_id SetStatInfo_def)
  show thesis
    by (rule that[of "set_valid i ?bits ?h1"]) (use l v valid sz u in \<open>simp_all add: GetFileSize_def GetBlockSize_def ensure_stat_def\<close>)
qed

text \<open>The sizes, from what is known already or from \<open>fstat\<close>.\<close>

lemma GetFileSize_known:
  assumes ok: "heap_ok h" and i: "i < length h" and d: "m_at_dir (h ! i) \<noteq> None" and fd: "m_file_descriptor (h ! i) \<ge> 0"
    and q: "if m_valid_bits (h ! i) AND V_STATINFO = 0
            then \<exists>sb. sys_fstat s (m_file_descriptor (h ! i)) = Some sb \<and> Q (st_size sb) (st_blksize sb)
            else Q (m_size (h ! i)) (m_block_size (h ! i))"
  obtains n b h' where "Q n b" and "GetFileSize s i h = Some (n, h')" and "undisturbed i h h'"
    and "GetFileSize s i h' = Some (n, h')" and "GetBlockSize s i h' = Some (b, h')"
proof (cases "m_valid_bits (h ! i) AND V_STATINFO = 0")
  case True
  with q obtain sb where sb: "sys_fstat s (m_file_descriptor (h ! i)) = Some sb" "Q (st_size sb) (st_blksize sb)" by auto
  show thesis by (rule GetFileSize_loads[OF ok i d fd True sb(1)]) (rule that[OF sb(2)])
next
  case False
  then have "GetFileSize s i h = Some (m_size (h ! i), h)" "GetBlockSize s i h = Some (m_block_size (h ! i), h)"
    by (simp_all add: GetFileSize_def GetBlockSize_def ensure_stat_def)
  with that[of "m_size (h ! i)" "m_block_size (h ! i)" h] q False undisturbed_frame[OF ok refl] show thesis by simp
qed

lemma realloc_succeeds:
  assumes "\<forall>a n. alloc a n \<noteq> None" and "is_power_of_2 (of_nat align :: 64 word)" and "8 \<le> align" and "align < 2 ^ 64"
  obtains b ra' mem' where "ResizableArray_realloc alloc n align ra mem = Some (b, ra', mem')"
proof -
  have "(8 :: 64 word) \<le> of_nat align" using assms(3,4) by (simp add: word_le_nat_alt unat_of_nat)
  then have "overaligned_alloc_size (of_nat align) (of_nat n) \<noteq> None"
    using assms(2) by (simp add: overaligned_alloc_size_def leD)
  then obtain r where r: "overaligned_alloc_size (of_nat align) (of_nat n) = Some r" by blast
  obtain q where q: "alloc align (unat r) = Some q" using assms(1) by blast
  have "ResizableArray_realloc alloc n align ra mem \<noteq> None"
    by (cases "m_current_buffer ra") (auto simp: ResizableArray_realloc_def Let_def r q)
  then show thesis using that by (cases "ResizableArray_realloc alloc n align ra mem") auto
qed

lemma clamp_range: "lo \<le> hi \<Longrightarrow> lo \<le> clamp v lo hi \<and> clamp v lo hi \<le> hi"
  by (simp add: clamp_def)

lemma mem_write_map: "map (mem_write p c mem) [p..<p + length c] = c"
  by (rule nth_equalityI) (simp_all add: mem_write_def)

text \<open>Constructing a file of size \<open>m\<close>, whatever \<open>read\<close> then delivers.\<close>

lemma File_ctor_sized:
  assumes ok: "heap_ok (b_heap bs)" and f: "fresh_file i (b_heap bs)" and r: "sized s i (b_heap bs) m"
    and ra: "array_ok (b_storage bs)" and al: "\<forall>a n. alloc a n \<noteq> None"
  obtains p bs' where "File_ctor alloc s i bs = (Inr p, bs')" and "undisturbed i (b_heap bs) (b_heap bs')"
    and "array_ok (b_storage bs')" and "File_size s i bs' = Some (int m, bs')"
    and "m = 0 \<longrightarrow> p = None"
    and "0 < m \<longrightarrow> (\<exists>b mem. p = Some b \<and> b_memory bs' = read_loop b (sys_read s (opened s i (b_heap bs))) mem
           \<and> (\<forall>a. b + m \<le> a \<and> a < b + m + 128 \<longrightarrow> mem a = NUL))"
proof -
  let ?h = "b_heap bs" and ?fd = "opened s i (b_heap bs)"
  have fd: "?fd \<ge> 0" and big: "m < 2 ^ 63"
    using r by (simp_all add: sized_def)
  have "?fd \<noteq> -1" using fd by simp
  from GetFileDescriptor_fresh(2)[OF ok f this] obtain h1 where h1: "GetFileDescriptor s i ?h = (Inr ?fd, h1)"
    "undisturbed i ?h h1" "m_file_descriptor (h1 ! i) = ?fd" "m_size (h1 ! i) = m_size (?h ! i)"
    "m_block_size (h1 ! i) = m_block_size (?h ! i)" "m_valid_bits (h1 ! i) AND V_STATINFO = m_valid_bits (?h ! i) AND V_STATINFO" by blast
  have i: "i < length h1" and d: "m_at_dir (h1 ! i) \<noteq> None" and ok1: "heap_ok h1"
    using f h1(2) by (auto simp: fresh_file_def undisturbed_def names_def)
  obtain n blk h2 where sz: "fitting_size m n blk" and h2: "GetFileSize s i h1 = Some (n, h2)" "undisturbed i h1 h2"
    "GetFileSize s i h2 = Some (n, h2)" "GetBlockSize s i h2 = Some (blk, h2)"
  proof (rule GetFileSize_known[OF ok1 i d, where Q = "fitting_size m"])
    show "if m_valid_bits (h1 ! i) AND V_STATINFO = 0
        then \<exists>sb. sys_fstat s (m_file_descriptor (h1 ! i)) = Some sb \<and> fitting_size m (st_size sb) (st_blksize sb)
        else fitting_size m (m_size (h1 ! i)) (m_block_size (h1 ! i))"
      using r unfolding sized_def h1(3-6) by blast
  qed (use h1(3) fd in simp_all)
  have sb: "n = int m" "0 < m \<longrightarrow> is_power_of_2 (of_nat (nat (clamp blk 0x20000 0x100000)) :: 64 word)"
    using sz by blast+
  have u: "undisturbed i ?h h2" by (rule undisturbed_trans[OF h1(2) h2(2)])
  show thesis
  proof (cases "m = 0")
    case True
    then show thesis
      using that[of None "bs\<lparr>b_heap := h2\<rparr>"] h1(1) h2 fd u ra sb(1)
      by (simp add: File_ctor_def File_size_def)
  next
    case False
    let ?al = "nat (clamp (blk) 0x20000 0x100000)"
    have al_range: "8 \<le> ?al" "?al \<le> 0x100000" using clamp_range[of "0x20000" "0x100000" "blk"] by auto
    obtain b ra' mem' where ral: "ResizableArray_realloc alloc m ?al (b_storage bs) (b_memory bs) = Some (b, ra', mem')"
      by (rule realloc_succeeds[OF al, where align = ?al and n = m and ra = "b_storage bs" and mem = "b_memory bs"]) (use sb(2) False al_range in auto)
    have "m + 128 + ?al < 2 ^ 64" using big al_range(2) by simp
    from ResizableArray_realloc_spec[OF ra this ral] have sp: "array_ok ra'"
      "\<forall>a. b + m \<le> a \<and> a < b + m + 128 \<longrightarrow> mem' a = NUL" by blast+
    let ?bs = "bs\<lparr>b_heap := h2, b_storage := ra', b_memory := read_loop b (sys_read s ?fd) mem'\<rparr>"
    have "File_ctor alloc s i bs = (Inr (Some b), ?bs)"
      using h1(1) h2(1,4) fd sb(1) False ral by (simp add: File_ctor_def GetFileData_def)
    then show thesis
      by (rule that) (use False u sp h2(3) sb(1) in \<open>auto simp: File_size_def\<close>)
  qed
qed

text \<open>Constructing a file that can be read.\<close>

lemma File_ctor_readable:
  assumes ok: "heap_ok (b_heap bs)" and f: "fresh_file i (b_heap bs)" and r: "readable s i (b_heap bs) c"
    and ra: "array_ok (b_storage bs)" and al: "\<forall>a n. alloc a n \<noteq> None"
  obtains p bs' where "File_ctor alloc s i bs = (Inr p, bs')" and "undisturbed i (b_heap bs) (b_heap bs')"
    and "array_ok (b_storage bs')" and "File_size s i bs' = Some (int (length c), bs')"
    and "c = [] \<longrightarrow> p = None"
    and "c \<noteq> [] \<longrightarrow> (\<exists>b. p = Some b \<and> map (b_memory bs') [b..<b + length c] = c
           \<and> (\<forall>a. b + length c \<le> a \<and> a < b + length c + 128 \<longrightarrow> b_memory bs' a = NUL))"
proof -
  have z: "sized s i (b_heap bs) (length c)" and rd: "sys_read s (opened s i (b_heap bs)) = (if c = [] then [] else [c])"
    using r by (simp_all add: readable_def)
  obtain p bs' where p: "File_ctor alloc s i bs = (Inr p, bs')" "undisturbed i (b_heap bs) (b_heap bs')"
    "array_ok (b_storage bs')" "File_size s i bs' = Some (int (length c), bs')" "length c = 0 \<longrightarrow> p = None"
    "0 < length c \<longrightarrow> (\<exists>b mem. p = Some b \<and> b_memory bs' = read_loop b (sys_read s (opened s i (b_heap bs))) mem
           \<and> (\<forall>a. b + length c \<le> a \<and> a < b + length c + 128 \<longrightarrow> mem a = NUL))"
    by (rule File_ctor_sized[OF ok f z ra al])
  show thesis
    by (rule that[OF p(1-4)]) (use p(5,6) rd in \<open>auto simp: mem_write_map mem_write_outside\<close>)
qed

lemma odd_block_size_bad_alloc:
  assumes "heap_ok (b_heap bs)" and "fresh_file i (b_heap bs)" and "opened s i (b_heap bs) \<ge> 0"
    and "sys_fstat s (opened s i (b_heap bs)) = Some sb" and "st_size sb > 0"
    and "0x20000 < st_blksize sb" and "st_blksize sb < 0x100000"
    and "\<not> is_power_of_2 (of_nat (nat (st_blksize sb)) :: 64 word)" and "m_current_buffer (b_storage bs) = None"
    and "m_valid_bits (b_heap bs ! i) AND V_STATINFO = 0"
  shows "fst (File_ctor alloc s i bs) = Inl BadAlloc"
proof -
  let ?h = "b_heap bs" and ?fd = "opened s i (b_heap bs)"
  have "?fd \<noteq> -1" using assms(3) by simp
  from GetFileDescriptor_fresh(2)[OF assms(1,2) this] obtain h1 where h1: "GetFileDescriptor s i ?h = (Inr ?fd, h1)"
    "undisturbed i ?h h1" "m_file_descriptor (h1 ! i) = ?fd" "m_valid_bits (h1 ! i) AND V_STATINFO = 0" using assms(10) by auto
  have i: "i < length h1" and d: "m_at_dir (h1 ! i) \<noteq> None" and ok1: "heap_ok h1"
    using assms(2) h1(2) by (auto simp: fresh_file_def undisturbed_def names_def)
  obtain h2 where h2: "GetFileSize s i h1 = Some (st_size sb, h2)" "undisturbed i h1 h2"
    "GetFileSize s i h2 = Some (st_size sb, h2)" "GetBlockSize s i h2 = Some (st_blksize sb, h2)"
    by (rule GetFileSize_loads[OF ok1 i d, of s sb]) (use h1(3,4) assms(3,4) in auto)
  have "clamp (st_blksize sb) 0x20000 0x100000 = st_blksize sb" using assms(6,7) by (simp add: clamp_def)
  then have "GetFileData alloc s ?fd (nat (st_size sb)) (nat (clamp (st_blksize sb) 0x20000 0x100000)) (bs\<lparr>b_heap := h2\<rparr>) = None"
    using assms(8,9) by (simp add: GetFileData_def ResizableArray_realloc_def overaligned_alloc_size_def)
  then show ?thesis using h1(1) h2(1,4) assms(3,5) by (simp add: File_ctor_def)
qed

text \<open>
  C17. A file that can be opened, whose size fstat gives correctly and which one call of read delivers in
  full, is constructed without an exception: the buffer holds its content followed by 128 zero bytes, in
  whatever state the shared buffer was, and no other file is disturbed. An empty file has no buffer.
\<close>

theorem File_holds_content:
  assumes "heap_ok (b_heap bs)" and "fresh_file i (b_heap bs)" and "readable s i (b_heap bs) c"
    and "array_ok (b_storage bs)" and "\<forall>a n. alloc a n \<noteq> None"
  shows "\<exists>p bs'. File_ctor alloc s i bs = (Inr p, bs') \<and> File_size s i bs' = Some (int (length c), bs')
    \<and> (\<forall>k<length (b_heap bs). path_of k (b_heap bs') = path_of k (b_heap bs))
    \<and> (case p of None \<Rightarrow> c = []
       | Some b \<Rightarrow> map (b_memory bs') [b..<b + length c] = c
           \<and> (\<forall>a. b + length c \<le> a \<and> a < b + length c + 128 \<longrightarrow> b_memory bs' a = NUL))"
proof -
  obtain p bs' where r: "File_ctor alloc s i bs = (Inr p, bs')" "undisturbed i (b_heap bs) (b_heap bs')"
    "array_ok (b_storage bs')" "File_size s i bs' = Some (int (length c), bs')" "c = [] \<longrightarrow> p = None"
    "c \<noteq> [] \<longrightarrow> (\<exists>b. p = Some b \<and> map (b_memory bs') [b..<b + length c] = c
           \<and> (\<forall>a. b + length c \<le> a \<and> a < b + length c + 128 \<longrightarrow> b_memory bs' a = NUL))"
    by (rule File_ctor_readable[OF assms])
  then show ?thesis using undisturbed_path[OF r(2)] by (cases "c = []") auto
qed

text \<open>
  C33. When read delivers the content of a file in several pieces, each piece overwrites the one before it:
  at the start of the buffer is the last piece, whatever the content of the file begins with.
\<close>

theorem short_reads_overwrite:
  assumes "GetFileData alloc s fd n blk bs = Some (b, bs')" and "sys_read s fd = cs @ [c]" and "k < length c"
  shows "b_memory bs' (b + k) = c ! k"
  using assms read_loop_last[OF assms(3)] by (auto simp: GetFileData_def split: option.splits prod.splits)

subsection \<open>Instances\<close>

definition file_os :: "int \<Rightarrow> string list \<Rightarrow> os" where
  "file_os blk cs = sample_os
     \<lparr>sys_fstat := (\<lambda>fd. Some \<lparr>st_mode = S_IFREG, st_dev = 5, st_ino = 6, st_size = int (length (concat cs)),
         st_blksize = blk, st_blocks = 1\<rparr>),
      sys_read := (\<lambda>fd. if fd = 7 then cs else [])\<rparr>"

definition sample_buffers :: buffers where
  "sample_buffers = \<lparr>b_heap = sample_heap, b_storage = ResizableArray_init, b_memory = (\<lambda>a. CHR ''z'')\<rparr>"

lemma sample_buffers_ok: "heap_ok (b_heap sample_buffers)" "array_ok (b_storage sample_buffers)"
    "fresh_file 2 (b_heap sample_buffers)" "opened (file_os blk cs) 2 (b_heap sample_buffers) = 7"
    "m_current_buffer (b_storage sample_buffers) = None" "m_valid_bits (b_heap sample_buffers ! 2) AND V_STATINFO = 0"
proof -
  show "heap_ok (b_heap sample_buffers)" by (simp add: sample_buffers_def sample_heap_ok(1))
  show "array_ok (b_storage sample_buffers)" by (simp add: sample_buffers_def ResizableArray_init_def array_ok_def)
  show "fresh_file 2 (b_heap sample_buffers)" unfolding fresh_file_def by code_simp
  have "path_of 2 (b_heap sample_buffers) = ''src/a.c''" by code_simp
  then show "opened (file_os blk cs) 2 (b_heap sample_buffers) = 7"
    by (simp add: opened_def file_os_def sample_os_def)
  show "m_current_buffer (b_storage sample_buffers) = None" by (simp add: sample_buffers_def ResizableArray_init_def)
  show "m_valid_bits (b_heap sample_buffers ! 2) AND V_STATINFO = 0" by code_simp
qed

lemma File_holds_content_witness:
  "\<exists>b bs'. File_ctor (\<lambda>a n. Some 4096) (file_os 4096 [''abc'']) 2 sample_buffers = (Inr (Some b), bs')
     \<and> map (b_memory bs') [b..<b + 3] = ''abc''"
proof -
  have "is_power_of_2 (of_nat (nat (clamp 4096 0x20000 0x100000)) :: 64 word)" by (simp add: is_power_of_2_def clamp_def)
  then have "readable (file_os 4096 [''abc'']) 2 (b_heap sample_buffers) ''abc''"
    by (simp add: readable_def sized_def sample_buffers_ok) (simp add: file_os_def)
  from File_holds_content[OF sample_buffers_ok(1,3) this sample_buffers_ok(2), of "\<lambda>a n. Some 4096"]
  show ?thesis by (auto simp: numeral_3_eq_3 split: option.splits)
qed

lemma short_reads_overwrite_witness:
  "\<exists>b bs'. GetFileData (\<lambda>a n. Some 4096) (file_os 4096 [''ab'', ''c'']) 7 3 0x20000 sample_buffers = Some (b, bs')
     \<and> b_memory bs' b = CHR ''c''"
proof -
  have p: "is_power_of_2 (of_nat 0x20000 :: 64 word)" by (simp add: is_power_of_2_def clamp_def)
  obtain b ra' mem' where r: "ResizableArray_realloc (\<lambda>a n. Some 4096) 3 0x20000 (b_storage sample_buffers) (b_memory sample_buffers)
      = Some (b, ra', mem')"
    by (rule realloc_succeeds[OF _ p, of "\<lambda>a n. Some 4096" 3 "b_storage sample_buffers" "b_memory sample_buffers"]) auto
  then obtain bs' where g: "GetFileData (\<lambda>a n. Some 4096) (file_os 4096 [''ab'', ''c'']) 7 3 0x20000 sample_buffers = Some (b, bs')"
    by (auto simp: GetFileData_def)
  have "sys_read (file_os 4096 [''ab'', ''c'']) 7 = [''ab''] @ [''c'']" by (simp add: file_os_def)
  from short_reads_overwrite[OF g this, of 0] g show ?thesis by simp
qed

end
