(* ===== verification/ScanRun.thy ===== *)
theory ScanRun
  imports File Scan SyncQueue "HOL-Library.Multiset"
begin

text \<open>
  \<open>FileScanner::Run\<close> of \<open>src/FileScanner.cpp\<close>: a scanner thread pulls file identifiers off its input queue,
  reads each file, has it scanned and pushes the list of its matches onto the output queue. Scanning is a
  virtual function; what \<open>Run\<close> relies on is the locale \<open>content_scanner\<close>. Several threads share the queues and
  the files: they are a step relation whose steps are pulling a file and dealing with it.
\<close>

subsection \<open>The thread function\<close>

text \<open>What ends a thread: an exception that \<open>Run\<close> does not handle.\<close>

datatype run_error = RunFile file_error | RunScan scan_exception

type_synonym scan_fun = "memory \<Rightarrow> nat \<Rightarrow> nat \<Rightarrow> match_list \<Rightarrow> (scan_exception option \<times> match_list) option"

record scan_thread =
  t_buffers :: buffers
  t_ml :: match_list
  t_out :: "match_list sync_queue"

text \<open>The exceptions of the \<open>File\<close> constructor that \<open>Run\<close> handles: \<open>FileException\<close> and \<open>std::system_error\<close>.\<close>

definition handled :: "file_error \<Rightarrow> bool" where
  "handled e = (case e of FileIDError (OpenFailed _) \<Rightarrow> True | BadDescriptor \<Rightarrow> True | _ \<Rightarrow> False)"

text \<open>Passing the matches of a file on: \<open>None\<close> is a scan that never returns.\<close>

definition deliver :: "nat \<Rightarrow> scan_thread \<Rightarrow> scan_thread" where
  "deliver i st =
     (if MatchList_empty (t_ml st) then st
      else let h = b_heap (t_buffers st); ml = SetFilename (the_path i h) (t_ml st)
           in st\<lparr>t_buffers := (t_buffers st)\<lparr>b_heap := GetPath i h\<rparr>, t_out := snd (push_back ml (t_out st)),
                 t_ml := MatchList_clear ml\<rparr>)"

definition run_body ::
    "(nat \<Rightarrow> nat \<Rightarrow> nat option) \<Rightarrow> os \<Rightarrow> scan_fun \<Rightarrow> nat \<Rightarrow> scan_thread \<Rightarrow> (run_error option \<times> scan_thread) option" where
  "run_body alloc s scan i st =
     (case File_ctor alloc s i (t_buffers st) of
        (Inl e, bs) \<Rightarrow> Some (if handled e then None else Some (RunFile e), st\<lparr>t_buffers := bs\<rparr>)
      | (Inr file_data, bs) \<Rightarrow>
          (case File_size s i bs of
             None \<Rightarrow> Some (Some (RunFile Terminated), st\<lparr>t_buffers := bs\<rparr>)
           | Some (n, bs) \<Rightarrow>
               if n = 0 then Some (None, st\<lparr>t_buffers := bs\<rparr>)
               else
                 (case scan (b_memory bs) (case file_data of None \<Rightarrow> 0 | Some b \<Rightarrow> b) (nat n) (t_ml st) of
                    None \<Rightarrow> None
                  | Some (Some x, ml) \<Rightarrow> Some (Some (RunScan x), st\<lparr>t_buffers := bs, t_ml := ml\<rparr>)
                  | Some (None, ml) \<Rightarrow> Some (None, deliver i (st\<lparr>t_buffers := bs, t_ml := ml\<rparr>)))))"

partial_function (option) run_loop ::
    "(nat \<Rightarrow> nat \<Rightarrow> nat option) \<Rightarrow> os \<Rightarrow> scan_fun \<Rightarrow> nat sync_queue \<Rightarrow> scan_thread \<Rightarrow> (run_error option \<times> scan_thread) option" where
  "run_loop alloc s scan q st =
     (case pull_front q of
        Inl _ \<Rightarrow> None
      | Inr ((status, v), q') \<Rightarrow>
          (if status = closed then Some (None, st)
           else case v of
             None \<Rightarrow> Some (None, st)
           | Some i \<Rightarrow>
               (case run_body alloc s scan i st of
                  None \<Rightarrow> None
                | Some (Some x, st') \<Rightarrow> Some (Some x, st')
                | Some (None, st') \<Rightarrow> run_loop alloc s scan q' st')))"

text \<open>\<open>Run\<close> with its own buffer and match list; the heap, the memory and the output queue are the program's.\<close>

definition Run ::
    "(nat \<Rightarrow> nat \<Rightarrow> nat option) \<Rightarrow> os \<Rightarrow> scan_fun \<Rightarrow> nat sync_queue \<Rightarrow> heap \<Rightarrow> memory \<Rightarrow> match_list sync_queue \<Rightarrow>
     (run_error option \<times> scan_thread) option" where
  "Run alloc s scan in_queue h mem out =
     run_loop alloc s scan in_queue
       \<lparr>t_buffers = \<lparr>b_heap = h, b_storage = ResizableArray_init, b_memory = mem\<rparr>, t_ml = MatchList_init, t_out = out\<rparr>"

subsection \<open>What the thread function relies on\<close>

text \<open>
  The contract of the virtual \<open>ScanFile\<close>: on a padded buffer and an empty match list it returns, without an
  exception, with matches that are right for the content of the buffer.
\<close>

locale content_scanner =
  fixes scan :: scan_fun and good :: "string \<Rightarrow> match_line list \<Rightarrow> bool"
  assumes scans: "map mem [fd..<fd + length c] = c \<Longrightarrow> padded mem (fd + length c) \<Longrightarrow> c \<noteq> [] \<Longrightarrow> m_match_list ml = []
      \<Longrightarrow> \<exists>ml'. scan mem fd (length c) ml = Some (None, ml') \<and> good c (m_match_list ml')"

text \<open>
  A file waiting to be scanned: it can be read and has content \<open>Some c\<close>, or cannot be opened (\<open>None\<close>). The
  matches it may be reported with are none if it cannot be opened or is empty, otherwise what the scanner says.
\<close>

definition to_scan :: "os \<Rightarrow> heap \<Rightarrow> nat \<Rightarrow> string option \<Rightarrow> bool" where
  "to_scan s h i content \<longleftrightarrow>
     fresh_file i h \<and> (case content of None \<Rightarrow> opened s i h = -1 | Some c \<Rightarrow> readable s i h c)"

definition outcome :: "(string \<Rightarrow> match_line list \<Rightarrow> bool) \<Rightarrow> string option \<Rightarrow> match_line list \<Rightarrow> bool" where
  "outcome good content ms =
     (case content of None \<Rightarrow> ms = [] | Some c \<Rightarrow> if c = [] then ms = [] else good c ms)"

definition report :: "heap \<Rightarrow> nat \<Rightarrow> match_line list \<Rightarrow> match_list list" where
  "report h i ms = (if ms = [] then [] else [\<lparr>m_filename = path_of i h, m_match_list = ms\<rparr>])"

lemma undisturbed_to_scan:
  assumes u: "undisturbed i h h'" and "k \<noteq> i" and t: "to_scan s h k content"
  shows "to_scan s h' k content"
proof -
  have f: "fresh_file k h" using t by (simp add: to_scan_def)
  from undisturbed_fresh[OF u assms(2) f] t show ?thesis
    by (cases content) (simp_all add: to_scan_def)
qed

lemma undisturbed_GetPath:
  assumes "heap_ok h" and "i < length h"
  shows "undisturbed k h (GetPath i h)" and "the_path i h = path_of i h"
proof -
  note g = GetPath_ResolvePath(1)[OF assms]
  show "undisturbed k h (GetPath i h)" by (rule undisturbed_frame) (use g in simp_all)
  show "the_path i h = path_of i h" using g by (simp add: the_path_def)
qed

text \<open>The state of a thread between two files.\<close>

definition thread_ok :: "scan_thread \<Rightarrow> bool" where
  "thread_ok st \<longleftrightarrow> heap_ok (b_heap (t_buffers st)) \<and> array_ok (b_storage (t_buffers st))
     \<and> m_match_list (t_ml st) = [] \<and> \<not> m_closed (t_out st)"

abbreviation t_heap :: "scan_thread \<Rightarrow> heap" where
  "t_heap st \<equiv> b_heap (t_buffers st)"

abbreviation t_pushed :: "scan_thread \<Rightarrow> match_list list" where
  "t_pushed st \<equiv> m_underlying_queue (t_out st)"

lemma deliver_spec:
  assumes "heap_ok (t_heap st)" and "i < length (t_heap st)" and "\<not> m_closed (t_out st)"
  shows "undisturbed i (t_heap st) (t_heap (deliver i st))"
    and "b_storage (t_buffers (deliver i st)) = b_storage (t_buffers st)"
    and "m_match_list (t_ml (deliver i st)) = []" and "\<not> m_closed (t_out (deliver i st))"
    and "t_pushed (deliver i st) = t_pushed st @ report (t_heap st) i (m_match_list (t_ml st))"
  using assms undisturbed_GetPath[OF assms(1,2)] undisturbed_frame[OF assms(1) refl]
  by (auto simp: deliver_def Let_def MatchList_empty_def MatchList_clear_def SetFilename_def push_back_def report_def)

lemma File_ctor_unopened:
  assumes "heap_ok (b_heap bs)" and "fresh_file i (b_heap bs)" and "opened s i (b_heap bs) = -1"
  shows "\<exists>h'. File_ctor alloc s i bs = (Inl (FileIDError (OpenFailed (path_of i (b_heap bs)))), bs\<lparr>b_heap := h'\<rparr>)
    \<and> undisturbed i (b_heap bs) h'"
  using GetFileDescriptor_fresh(1)[OF assms] by (auto simp: File_ctor_def)

context content_scanner begin

lemma run_body_spec:
  assumes ok: "thread_ok st" and t: "to_scan s (t_heap st) i content" and al: "\<forall>a n. alloc a n \<noteq> None"
  obtains st' ms where "run_body alloc s scan i st = Some (None, st')" and "thread_ok st'"
    and "undisturbed i (t_heap st) (t_heap st')" and "outcome good content ms"
    and "t_pushed st' = t_pushed st @ report (t_heap st) i ms"
proof -
  have h: "heap_ok (t_heap st)" and f: "fresh_file i (t_heap st)" and ra: "array_ok (b_storage (t_buffers st))"
    and ml: "m_match_list (t_ml st) = []" and nc: "\<not> m_closed (t_out st)" and i: "i < length (t_heap st)"
    using ok t by (simp_all add: thread_ok_def to_scan_def fresh_file_def)
  show thesis
  proof (cases content)
    case None
    with t have "opened s i (t_heap st) = -1" by (simp add: to_scan_def)
    from File_ctor_unopened[OF h f this] obtain h' where
      c: "File_ctor alloc s i (t_buffers st) = (Inl (FileIDError (OpenFailed (path_of i (t_heap st)))), (t_buffers st)\<lparr>b_heap := h'\<rparr>)"
        "undisturbed i (t_heap st) h'" by blast
    have "run_body alloc s scan i st = Some (None, st\<lparr>t_buffers := (t_buffers st)\<lparr>b_heap := h'\<rparr>\<rparr>)"
      by (simp add: run_body_def c(1) handled_def)
    then show thesis
      by (rule that[of _ "[]"]) (use c(2) None ok in \<open>simp_all add: thread_ok_def undisturbed_def outcome_def report_def\<close>)
  next
    case (Some c)
    then have r: "readable s i (t_heap st) c" using t by (simp add: to_scan_def)
    obtain p bs' where c: "File_ctor alloc s i (t_buffers st) = (Inr p, bs')" "undisturbed i (t_heap st) (b_heap bs')"
      "array_ok (b_storage bs')" "File_size s i bs' = Some (int (length c), bs')" "c = [] \<longrightarrow> p = None"
      "c \<noteq> [] \<longrightarrow> (\<exists>b. p = Some b \<and> map (b_memory bs') [b..<b + length c] = c
           \<and> (\<forall>a. b + length c \<le> a \<and> a < b + length c + 128 \<longrightarrow> b_memory bs' a = NUL))"
      by (rule File_ctor_readable[OF h f r ra al])
    show thesis
    proof (cases "c = []")
      case True
      have "run_body alloc s scan i st = Some (None, st\<lparr>t_buffers := bs'\<rparr>)"
        using True c(1,4) by (simp add: run_body_def)
      then show thesis
        by (rule that[of _ "[]"]) (use c(2,3) True Some ok in \<open>simp_all add: thread_ok_def undisturbed_def outcome_def report_def\<close>)
    next
      case False
      with c(6) obtain b where b: "p = Some b" "map (b_memory bs') [b..<b + length c] = c"
        "padded (b_memory bs') (b + length c)" by (auto simp: padded_def)
      from scans[OF b(2,3) False ml] obtain ml' where
        s: "scan (b_memory bs') b (length c) (t_ml st) = Some (None, ml')" "good c (m_match_list ml')" by blast
      let ?st = "st\<lparr>t_buffers := bs', t_ml := ml'\<rparr>"
      have body: "run_body alloc s scan i st = Some (None, deliver i ?st)"
        using c(1,4) b(1) s(1) False by (simp add: run_body_def)
      have h': "heap_ok (b_heap bs')" "length (b_heap bs') = length (t_heap st)"
        using c(2) by (simp_all add: undisturbed_def)
      have "heap_ok (t_heap ?st)" "i < length (t_heap ?st)" "\<not> m_closed (t_out ?st)" using h' i nc by simp_all
      note d = deliver_spec[OF this]
      have u: "undisturbed i (t_heap st) (t_heap (deliver i ?st))"
        by (rule undisturbed_trans[OF c(2)]) (use d(1) in simp)
      have "path_of i (b_heap bs') = path_of i (t_heap st)" by (rule undisturbed_path[OF c(2) i])
      then show thesis
        by (intro that[of "deliver i ?st" "m_match_list ml'", OF body _ u])
          (use d u c(3) s(2) False Some in \<open>simp_all add: thread_ok_def undisturbed_def outcome_def report_def\<close>)
    qed
  qed
qed

text \<open>The files of a closed queue, one after the other.\<close>

lemma run_loop_spec:
  assumes "\<forall>a n. alloc a n \<noteq> None"
  shows "m_closed q \<Longrightarrow> distinct (m_underlying_queue q) \<Longrightarrow> thread_ok st
    \<Longrightarrow> \<forall>i \<in> set (m_underlying_queue q). to_scan s (t_heap st) i (content i)
    \<Longrightarrow> \<exists>st' ms. run_loop alloc s scan q st = Some (None, st')
      \<and> (\<forall>i \<in> set (m_underlying_queue q). outcome good (content i) (ms i))
      \<and> t_pushed st' = t_pushed st @ concat (map (\<lambda>i. report (t_heap st) i (ms i)) (m_underlying_queue q))"
proof (induction "m_underlying_queue q" arbitrary: q st)
  case Nil
  then have "run_loop alloc s scan q st = Some (None, st)"
    by (subst run_loop.simps) (simp add: pull_front_Nil)
  with Nil show ?case by simp
next
  case (Cons i xs)
  let ?q = "q\<lparr>m_underlying_queue := xs\<rparr>"
  have ul: "m_underlying_queue q = i # xs" using Cons.hyps(2) by simp
  have t: "to_scan s (t_heap st) i (content i)" using Cons.prems(4) ul by simp
  obtain st1 mi where b: "run_body alloc s scan i st = Some (None, st1)" "thread_ok st1"
    "undisturbed i (t_heap st) (t_heap st1)" "outcome good (content i) mi"
    "t_pushed st1 = t_pushed st @ report (t_heap st) i mi"
    by (rule run_body_spec[OF Cons.prems(3) t assms])
  have others: "to_scan s (t_heap st1) k (content k)" if "k \<in> set xs" for k
    by (rule undisturbed_to_scan[OF b(3)]) (use that Cons.prems(2,4) ul in auto)
  have "\<exists>st' ms. run_loop alloc s scan ?q st1 = Some (None, st')
      \<and> (\<forall>i \<in> set (m_underlying_queue ?q). outcome good (content i) (ms i))
      \<and> t_pushed st' = t_pushed st1 @ concat (map (\<lambda>i. report (t_heap st1) i (ms i)) (m_underlying_queue ?q))"
    by (rule Cons.hyps(1)) (use Cons.prems ul b(2) others in simp_all)
  then obtain st' ms where IH: "run_loop alloc s scan ?q st1 = Some (None, st')"
    "\<forall>i \<in> set xs. outcome good (content i) (ms i)"
    "t_pushed st' = t_pushed st1 @ concat (map (\<lambda>i. report (t_heap st1) i (ms i)) xs)" by auto
  have i: "i \<notin> set xs" using Cons.prems(2) ul by simp
  have "report (t_heap st1) k m = report (t_heap st) k m" if "k \<in> set xs" for k m
    using Cons.prems(4) ul that undisturbed_path[OF b(3), of k] by (auto simp: report_def to_scan_def fresh_file_def)
  then have e: "map (\<lambda>k. report (t_heap st1) k (ms k)) xs = map (\<lambda>k. report (t_heap st) k ((ms(i := mi)) k)) xs"
    using i by auto
  have "run_loop alloc s scan q st = Some (None, st')"
    by (subst run_loop.simps) (simp add: pull_front_Cons[OF ul] b(1) IH(1))
  moreover have "\<forall>k \<in> set (i # xs). outcome good (content k) ((ms(i := mi)) k)"
    using IH(2) b(4) i by auto
  moreover have "t_pushed st' = t_pushed st @ concat (map (\<lambda>k. report (t_heap st) k ((ms(i := mi)) k)) (i # xs))"
    using IH(3) b(5) e by simp
  ultimately show ?case unfolding ul by blast
qed

end

subsection \<open>A pool of scanner threads\<close>

text \<open>
  A thread of the pool: the file it has pulled, its buffer and its match list, and the exception that has ended it. Of the heap, the queues
  and the program's threads there is one.
\<close>

record scan_worker =
  w_file :: "nat option"
  w_storage :: resizable_array
  w_memory :: memory
  w_ml :: match_list
  w_error :: "run_error option"

record pool =
  p_in :: "nat sync_queue"
  p_heap :: heap
  p_out :: "match_list sync_queue"
  p_workers :: "scan_worker list"

definition worker_thread :: "pool \<Rightarrow> scan_worker \<Rightarrow> scan_thread" where
  "worker_thread p w = \<lparr>t_buffers = \<lparr>b_heap = p_heap p, b_storage = w_storage w, b_memory = w_memory w\<rparr>, t_ml = w_ml w, t_out = p_out p\<rparr>"

definition take_file :: "nat \<Rightarrow> nat \<Rightarrow> nat sync_queue \<Rightarrow> pool \<Rightarrow> pool" where
  "take_file t i q p = p\<lparr>p_in := q, p_workers := (p_workers p)[t := (p_workers p ! t)\<lparr>w_file := Some i\<rparr>]\<rparr>"

definition finish_file :: "nat \<Rightarrow> run_error option \<Rightarrow> scan_thread \<Rightarrow> pool \<Rightarrow> pool" where
  "finish_file t x st p = p\<lparr>p_heap := t_heap st, p_out := t_out st,
     p_workers := (p_workers p)[t := \<lparr>w_file = None, w_storage = b_storage (t_buffers st), w_memory = b_memory (t_buffers st),
                                    w_ml = t_ml st, w_error = x\<rparr>]\<rparr>"

inductive pool_step ::
    "(nat \<Rightarrow> nat \<Rightarrow> nat option) \<Rightarrow> os \<Rightarrow> scan_fun \<Rightarrow> pool \<Rightarrow> pool \<Rightarrow> bool"
    for alloc s scan where
  pull: "t < length (p_workers p) \<Longrightarrow> w_file (p_workers p ! t) = None \<Longrightarrow> w_error (p_workers p ! t) = None
      \<Longrightarrow> pull_front (p_in p) = Inr ((success, Some i), q) \<Longrightarrow> pool_step alloc s scan p (take_file t i q p)"
| deal: "t < length (p_workers p) \<Longrightarrow> w_file (p_workers p ! t) = Some i
      \<Longrightarrow> run_body alloc s scan i (worker_thread p (p_workers p ! t)) = Some (x, st)
      \<Longrightarrow> pool_step alloc s scan p (finish_file t x st p)"

inductive_cases pool_step_elim: "pool_step alloc s scan p p'"

definition held :: "scan_worker list \<Rightarrow> nat list" where
  "held ws = concat (map (\<lambda>w. case w_file w of None \<Rightarrow> [] | Some i \<Rightarrow> [i]) ws)"

definition waiting :: "pool \<Rightarrow> nat list" where
  "waiting p = m_underlying_queue (p_in p) @ held (p_workers p)"

lemma held_Cons: "mset (held (w # ws)) = mset (held [w]) + mset (held ws)"
  by (simp add: held_def)

lemma held_swap:
  "t < length ws \<Longrightarrow> mset (held (ws[t := w])) + mset (held [ws ! t]) = mset (held ws) + mset (held [w])"
proof (induction ws arbitrary: t)
  case (Cons a ws)
  show ?case
  proof (cases t)
    case 0
    then show ?thesis using held_Cons[of w ws] held_Cons[of a ws] by simp
  next
    case (Suc k)
    then have "mset (held (ws[k := w])) + mset (held [ws ! k]) = mset (held ws) + mset (held [w])"
      using Cons by simp
    then show ?thesis using Suc held_Cons[of a ws] held_Cons[of a "ws[k := w]"] by simp
  qed
qed simp

lemma held_update:
  assumes "t < length ws"
  shows "w_file (ws ! t) = None \<Longrightarrow> w_file w = Some i \<Longrightarrow> mset (held (ws[t := w])) = add_mset i (mset (held ws))"
    and "w_file (ws ! t) = Some i \<Longrightarrow> w_file w = None \<Longrightarrow> add_mset i (mset (held (ws[t := w]))) = mset (held ws)"
  using held_swap[OF assms, of w] by (simp_all add: held_def)

lemma held_nth: "t < length ws \<Longrightarrow> w_file (ws ! t) = Some i \<Longrightarrow> i \<in> set (held ws)"
  by (auto simp: held_def split: option.splits intro!: bexI[of _ "ws ! t"])

text \<open>
  What holds between the steps, for the files \<open>fs\<close> put into the queue and the heap and output queue at the
  start: the files dealt with are in the output as they should be, and the others are still to be scanned.
\<close>

definition reports :: "heap \<Rightarrow> (nat \<Rightarrow> match_line list) \<Rightarrow> nat multiset \<Rightarrow> match_list multiset" where
  "reports h ms fs = (\<Sum>i \<in># fs. mset (report h i (ms i)))"

definition pool_inv ::
    "(string \<Rightarrow> match_line list \<Rightarrow> bool) \<Rightarrow> os \<Rightarrow> (nat \<Rightarrow> string option) \<Rightarrow> pool \<Rightarrow> pool \<Rightarrow> bool" where
  "pool_inv good s content p0 p \<longleftrightarrow>
     heap_ok (p_heap p) \<and> \<not> m_closed (p_out p) \<and> length (p_workers p) = length (p_workers p0)
     \<and> (\<forall>w \<in> set (p_workers p). array_ok (w_storage w) \<and> m_match_list (w_ml w) = [] \<and> w_error w = None)
     \<and> (\<forall>i \<in> set (waiting p). to_scan s (p_heap p) i (content i) \<and> path_of i (p_heap p) = path_of i (p_heap p0))
     \<and> (\<exists>fin ms. mset (waiting p0) = mset (waiting p) + fin
          \<and> (\<forall>i \<in># fin. outcome good (content i) (ms i))
          \<and> mset (m_underlying_queue (p_out p)) = mset (m_underlying_queue (p_out p0)) + reports (p_heap p0) ms fin)"

lemma pool_inv_take:
  assumes inv: "pool_inv good s content p0 p" and t: "t < length (p_workers p)" "w_file (p_workers p ! t) = None"
    and q: "pull_front (p_in p) = Inr ((success, Some i), q)"
  shows "pool_inv good s content p0 (take_file t i q p)" and "mset (waiting (take_file t i q p)) = mset (waiting p)"
proof -
  obtain xs where x: "m_underlying_queue (p_in p) = i # xs" "m_underlying_queue q = xs"
  proof (cases "m_underlying_queue (p_in p)")
    case Nil
    then show ?thesis using q by (auto simp: pull_front_Nil split: if_splits)
  qed (use q that in \<open>auto simp: pull_front_Cons\<close>)
  show w: "mset (waiting (take_file t i q p)) = mset (waiting p)"
    using held_update(1)[OF t(1), of "(p_workers p ! t)\<lparr>w_file := Some i\<rparr>" i] t(2) x by (simp add: waiting_def take_file_def)
  have "set (p_workers (take_file t i q p)) \<subseteq> insert ((p_workers p ! t)\<lparr>w_file := Some i\<rparr>) (set (p_workers p))"
    by (simp add: take_file_def set_update_subset_insert)
  then have ws: "array_ok (w_storage w) \<and> m_match_list (w_ml w) = [] \<and> w_error w = None" if "w \<in> set (p_workers (take_file t i q p))" for w
    using that inv nth_mem[OF t(1)] by (auto simp: pool_inv_def)
  have "set (waiting (take_file t i q p)) = set (waiting p)" using w by (metis set_mset_mset)
  then show "pool_inv good s content p0 (take_file t i q p)"
    using inv w ws by (simp add: pool_inv_def) (simp add: take_file_def)
qed

lemma worker_thread_ok:
  assumes "pool_inv good s content p0 p" and "w \<in> set (p_workers p)"
  shows "thread_ok (worker_thread p w)"
  using assms by (simp add: pool_inv_def thread_ok_def worker_thread_def)

definition pool_measure :: "pool \<Rightarrow> nat" where
  "pool_measure p = length (m_underlying_queue (p_in p)) + length (waiting p)"

lemma pool_inv_distinct:
  assumes "pool_inv good s content p0 p" and "distinct (waiting p0)"
  shows "distinct (waiting p)"
proof -
  obtain fin where "mset (waiting p0) = mset (waiting p) + fin" using assms(1) by (auto simp: pool_inv_def)
  moreover obtain xs where "fin = mset xs" by (metis ex_mset)
  ultimately have "mset (waiting p0) = mset (waiting p @ xs)" by simp
  then have "distinct (waiting p @ xs)" using assms(2) mset_eq_imp_distinct_iff by blast
  then show ?thesis by simp
qed

context content_scanner begin

lemma pool_inv_finish:
  assumes inv: "pool_inv good s content p0 p" and d0: "distinct (waiting p0)" and al: "\<forall>a n. alloc a n \<noteq> None"
    and t: "t < length (p_workers p)" "w_file (p_workers p ! t) = Some i"
  shows "\<exists>st. run_body alloc s scan i (worker_thread p (p_workers p ! t)) = Some (None, st)
    \<and> pool_inv good s content p0 (finish_file t None st p)
    \<and> add_mset i (mset (waiting (finish_file t None st p))) = mset (waiting p)"
proof -
  let ?w = "p_workers p ! t" and ?h = "p_heap p"
  have iw: "i \<in> set (waiting p)" using held_nth[OF t] by (simp add: waiting_def)
  have sc: "to_scan s ?h k (content k)" "path_of k ?h = path_of k (p_heap p0)" if "k \<in> set (waiting p)" for k
    using inv that by (simp_all add: pool_inv_def)
  have "t_heap (worker_thread p ?w) = ?h" by (simp add: worker_thread_def)
  note th = this
  have ti: "to_scan s (t_heap (worker_thread p ?w)) i (content i)" using sc(1)[OF iw] th by simp
  obtain st mi where b: "run_body alloc s scan i (worker_thread p ?w) = Some (None, st)" "thread_ok st"
    "undisturbed i (t_heap (worker_thread p ?w)) (t_heap st)" "outcome good (content i) mi"
    "t_pushed st = t_pushed (worker_thread p ?w) @ report (t_heap (worker_thread p ?w)) i mi"
    by (rule run_body_spec[OF worker_thread_ok[OF inv nth_mem[OF t(1)]] ti al])
  let ?p = "finish_file t None st p"
  have m: "add_mset i (mset (waiting ?p)) = mset (waiting p)"
    using held_update(2)[OF t, of "\<lparr>w_file = None, w_storage = b_storage (t_buffers st), w_memory = b_memory (t_buffers st),
      w_ml = t_ml st, w_error = None\<rparr>"]
    by (simp add: waiting_def finish_file_def)
  have d: "distinct (waiting p)" by (rule pool_inv_distinct[OF inv d0])
  have dm: "distinct (i # waiting ?p)" using d m by (metis mset.simps(2) mset_eq_imp_distinct_iff)
  have sub: "set (waiting ?p) \<subseteq> set (waiting p)" using m by (metis mset.simps(2) set_mset_mset set_subset_Cons)
  have still: "to_scan s (t_heap st) k (content k) \<and> path_of k (t_heap st) = path_of k (p_heap p0)" if k: "k \<in> set (waiting ?p)" for k
  proof -
    have kw: "k \<in> set (waiting p)" using k sub by blast
    have "k \<noteq> i" using dm k by auto
    moreover have "k < length ?h" using sc(1)[OF kw] by (simp add: to_scan_def fresh_file_def)
    ultimately show ?thesis
      using undisturbed_to_scan[OF b(3), of k s "content k"] undisturbed_path[OF b(3), of k] sc[OF kw] th by simp
  qed
  obtain fin ms where f: "mset (waiting p0) = mset (waiting p) + fin" "\<forall>i \<in># fin. outcome good (content i) (ms i)"
    "mset (m_underlying_queue (p_out p)) = mset (m_underlying_queue (p_out p0)) + reports (p_heap p0) ms fin"
    using inv by (auto simp: pool_inv_def)
  have w: "array_ok (w_storage w) \<and> m_match_list (w_ml w) = [] \<and> w_error w = None" if "w \<in> set (p_workers ?p)" for w
  proof (cases "w \<in> set (p_workers p)")
    case True
    then show ?thesis using inv by (simp add: pool_inv_def)
  next
    case False
    then have "w = \<lparr>w_file = None, w_storage = b_storage (t_buffers st), w_memory = b_memory (t_buffers st),
                    w_ml = t_ml st, w_error = None\<rparr>"
      using that subsetD[OF set_update_subset_insert, of w "p_workers p" t] by (auto simp: finish_file_def)
    then show ?thesis using b(2) by (simp add: thread_ok_def)
  qed
  have "i \<notin># fin"
  proof
    assume "i \<in># fin"
    then have "count fin i \<ge> 1" "count (mset (waiting p)) i \<ge> 1" using iw by (simp_all add: count_greater_eq_one_iff)
    then have "count (mset (waiting p0)) i \<ge> 2" unfolding f(1) count_union by linarith
    then show False using d0 distinct_count_atmost_1[of "waiting p0"] by (auto split: if_splits)
  qed
  then have rep: "reports (p_heap p0) (ms(i := mi)) (add_mset i fin) = mset (report ?h i mi) + reports (p_heap p0) ms fin"
    using sc(2)[OF iw] by (auto simp: reports_def report_def intro!: arg_cong[where f = sum_mset] image_mset_cong)
  have out: "mset (t_pushed st) = mset (m_underlying_queue (p_out p0)) + reports (p_heap p0) (ms(i := mi)) (add_mset i fin)"
    using b(5) f(3) rep th by (simp add: worker_thread_def)
  have "\<forall>k \<in># add_mset i fin. outcome good (content k) ((ms(i := mi)) k)" using f(2) b(4) by auto
  moreover have "mset (waiting p0) = mset (waiting ?p) + add_mset i fin" using f(1) m by (metis union_mset_add_mset_left union_mset_add_mset_right)
  ultimately have "pool_inv good s content p0 ?p"
    using inv b(2) w still out unfolding pool_inv_def
    by (intro conjI exI[of _ "add_mset i fin"] exI[of _ "ms(i := mi)"])
       (auto simp: finish_file_def thread_ok_def)
  then show ?thesis using b(1) m by blast
qed

lemma pool_step_inv:
  assumes st: "pool_step alloc s scan p p'" and inv: "pool_inv good s content p0 p" and d: "distinct (waiting p0)"
    and al: "\<forall>a n. alloc a n \<noteq> None"
  shows "pool_inv good s content p0 p' \<and> pool_measure p' < pool_measure p"
  using st
proof (cases rule: pool_step_elim[consumes 1, case_names pull deal])
  case (pull t i q)
  have "length (m_underlying_queue (p_in (take_file t i q p))) < length (m_underlying_queue (p_in p))"
  proof (cases "m_underlying_queue (p_in p)")
    case Nil
    then show ?thesis using pull(5) by (auto simp: pull_front_Nil split: if_splits)
  qed (use pull(5) in \<open>auto simp: pull_front_Cons take_file_def\<close>)
  moreover note pool_inv_take[OF inv pull(2,3,5)]
  ultimately show ?thesis unfolding pull(1) pool_measure_def by (metis add_strict_right_mono size_mset)
next
  case (deal t i x st)
  from pool_inv_finish[OF inv d al deal(2,3)] deal(4) have r: "x = None"
    "pool_inv good s content p0 (finish_file t None st p)" "add_mset i (mset (waiting (finish_file t None st p))) = mset (waiting p)"
    by auto
  have "length (waiting (finish_file t None st p)) < length (waiting p)" using arg_cong[OF r(3), of size] by simp
  moreover have "p_in (finish_file t None st p) = p_in p" by (simp add: finish_file_def)
  ultimately show ?thesis unfolding deal(1) r(1) pool_measure_def using r(2) by simp
qed

lemma pool_progress:
  assumes inv: "pool_inv good s content p0 p" and d: "distinct (waiting p0)" and al: "\<forall>a n. alloc a n \<noteq> None"
    and n: "p_workers p0 \<noteq> []" and w: "waiting p \<noteq> []"
  shows "\<exists>p'. pool_step alloc s scan p p'"
proof (cases "\<exists>t<length (p_workers p). w_file (p_workers p ! t) \<noteq> None")
  case True
  then obtain t i where "t < length (p_workers p)" "w_file (p_workers p ! t) = Some i" by blast
  with pool_inv_finish[OF inv d al this] show ?thesis by (metis pool_step.deal)
next
  case False
  then have "held (p_workers p) = []" by (auto simp: held_def in_set_conv_nth)
  with w obtain i xs where q: "m_underlying_queue (p_in p) = i # xs" by (cases "m_underlying_queue (p_in p)") (auto simp: waiting_def)
  have "0 < length (p_workers p)" using inv n by (simp add: pool_inv_def)
  moreover from nth_mem[OF this] have "w_error (p_workers p ! 0) = None" using inv unfolding pool_inv_def by blast
  ultimately show ?thesis using False pull_front_Cons[OF q] by (metis pool_step.pull)
qed

lemma pool_reaches:
  assumes "(pool_step alloc s scan ^^ k) p0 p" and "pool_inv good s content p0 p0" and "distinct (waiting p0)"
    and "\<forall>a n. alloc a n \<noteq> None"
  shows "pool_inv good s content p0 p \<and> k + pool_measure p \<le> pool_measure p0"
  using assms(1)
proof (induction k arbitrary: p)
  case (Suc k)
  then obtain p1 where "(pool_step alloc s scan ^^ k) p0 p1" "pool_step alloc s scan p1 p" by auto
  with Suc.IH[of p1] pool_step_inv[of alloc s p1 p content p0] assms(3,4) show ?case by fastforce
qed (use assms(2) in simp)

end

text \<open>The pool at the start: files that can be dealt with, all different, and threads in order.\<close>

definition pool_ready :: "os \<Rightarrow> (nat \<Rightarrow> string option) \<Rightarrow> pool \<Rightarrow> bool" where
  "pool_ready s content p \<longleftrightarrow>
     heap_ok (p_heap p) \<and> \<not> m_closed (p_out p) \<and> p_workers p \<noteq> [] \<and> distinct (waiting p)
     \<and> (\<forall>w \<in> set (p_workers p). array_ok (w_storage w) \<and> m_match_list (w_ml w) = [] \<and> w_error w = None)
     \<and> (\<forall>i \<in> set (waiting p). to_scan s (p_heap p) i (content i))"

lemma pool_ready_inv: "pool_ready s content p \<Longrightarrow> pool_inv good s content p p"
  by (auto simp: pool_ready_def pool_inv_def reports_def intro!: exI[of _ "{#}"])

context content_scanner begin

lemma pool_reports:
  assumes r: "pool_ready s content p0" and al: "\<forall>a n. alloc a n \<noteq> None" and st: "(pool_step alloc s scan)\<^sup>*\<^sup>* p0 p"
  shows "(\<forall>w \<in> set (p_workers p). w_error w = None)
    \<and> (waiting p = [] \<longrightarrow>
        (\<exists>ms. (\<forall>i \<in> set (waiting p0). outcome good (content i) (ms i))
            \<and> mset (m_underlying_queue (p_out p))
              = mset (m_underlying_queue (p_out p0)) + reports (p_heap p0) ms (mset (waiting p0))))"
proof -
  have d: "distinct (waiting p0)" using r by (simp add: pool_ready_def)
  obtain k where "(pool_step alloc s scan ^^ k) p0 p" using st by (auto simp: rtranclp_power)
  from pool_reaches[OF this pool_ready_inv[OF r] d al] have inv: "pool_inv good s content p0 p" by blast
  then obtain fin ms where f: "mset (waiting p0) = mset (waiting p) + fin" "\<forall>i \<in># fin. outcome good (content i) (ms i)"
    "mset (m_underlying_queue (p_out p)) = mset (m_underlying_queue (p_out p0)) + reports (p_heap p0) ms fin"
    by (auto simp: pool_inv_def)
  have e: "fin = mset (waiting p0)" if "waiting p = []" using f(1) that by simp
  moreover have "\<forall>i \<in> set (waiting p0). outcome good (content i) (ms i)" if "waiting p = []"
    using f(2) unfolding e[OF that] by simp
  moreover have "\<forall>w \<in> set (p_workers p). w_error w = None" using inv unfolding pool_inv_def by blast
  ultimately show ?thesis using f(3) by blast
qed

lemma pool_ends:
  assumes r: "pool_ready s content p0" and al: "\<forall>a n. alloc a n \<noteq> None" and st: "(pool_step alloc s scan ^^ k) p0 p"
  shows "k \<le> pool_measure p0 \<and> (waiting p \<noteq> [] \<longrightarrow> (\<exists>p'. pool_step alloc s scan p p'))"
proof -
  have d: "distinct (waiting p0)" and n: "p_workers p0 \<noteq> []" using r by (simp_all add: pool_ready_def)
  from pool_reaches[OF st pool_ready_inv[OF r] d al] pool_progress[OF _ d al n] show ?thesis by fastforce
qed

lemma pool_finishes:
  assumes r: "pool_ready s content p0" and al: "\<forall>a n. alloc a n \<noteq> None"
  shows "\<exists>p. (pool_step alloc s scan)\<^sup>*\<^sup>* p0 p \<and> waiting p = []"
proof (rule ccontr)
  assume no: "\<not> ?thesis"
  have "\<exists>p. (pool_step alloc s scan ^^ k) p0 p" for k
  proof (induction k)
    case (Suc k)
    then obtain p where p: "(pool_step alloc s scan ^^ k) p0 p" by blast
    then have "waiting p \<noteq> []" using no by (auto simp: rtranclp_power)
    with pool_ends[OF r al p] p show ?case by auto
  qed simp
  then obtain p where "(pool_step alloc s scan ^^ Suc (pool_measure p0)) p0 p" by blast
  from pool_ends[OF r al this] show False by simp
qed

end

end
