(* ===== verification/FileScanning.thy ===== *)
theory FileScanning
  imports ScanRun
begin

unbundle bit_operations_syntax

text \<open>
  The scanner threads running on libpcre2: \<open>FileScannerPCRE2::ScanFile\<close> is what the thread function calls, and
  the documented behaviour of the library, as the locale \<open>pcre2_library\<close>, makes it the scanner \<open>Run\<close> relies on:
  for every file exactly the lines on which a match of the pattern starts are reported.
\<close>

subsection \<open>The virtual function\<close>

type_synonym subject_match = "string \<Rightarrow> nat \<Rightarrow> bool \<Rightarrow> int \<times> nat \<times> nat"

definition pcre2_env ::
    "bool \<Rightarrow> scanner \<Rightarrow> subject_match \<Rightarrow> (memory \<Rightarrow> nat \<Rightarrow> nat \<Rightarrow> nat) \<Rightarrow> memory \<Rightarrow> nat \<Rightarrow> nat \<Rightarrow> scan_env" where
  "pcre2_env sse sc pm cnt mem fd n =
     \<lparr> env_mem = mem, env_data = fd, env_size = n, env_sse4_2 = sse, env_scanner = sc,
       env_match = pm (file_bytes mem fd n), env_count = cnt \<rparr>"

text \<open>\<open>ScanFile\<close> catches its exceptions, so none reaches the thread function.\<close>

definition pcre2_scan ::
    "bool \<Rightarrow> scanner \<Rightarrow> subject_match \<Rightarrow> (memory \<Rightarrow> nat \<Rightarrow> nat \<Rightarrow> nat) \<Rightarrow> scan_fun" where
  "pcre2_scan sse sc pm cnt mem fd n ml =
     map_option (\<lambda>(x, ml'). (None, ml')) (ScanFile (pcre2_env sse sc pm cnt mem fd n) ml)"

subsection \<open>Matches in a content\<close>

text \<open>Some attempt finds a match at \<open>[s, e)\<close>; an unrestricted attempt at \<open>s\<close> finds one that starts there.\<close>

definition literal_at :: "string \<Rightarrow> string \<Rightarrow> nat \<Rightarrow> bool" where
  "literal_at pat c s \<longleftrightarrow> s + length pat \<le> length c \<and> take (length pat) (drop s c) = pat"

definition match_at :: "scanner \<Rightarrow> subject_match \<Rightarrow> string \<Rightarrow> nat \<Rightarrow> nat \<Rightarrow> bool" where
  "match_at sc pm c s e \<longleftrightarrow>
     (if m_use_literal sc
      then literal_at (m_literal_search_string sc) c s \<and> e = s + length (m_literal_search_string sc)
      else \<exists>t \<le> s. \<exists>opt \<in> {False, True}. case pm c t opt of (rc, s', e') \<Rightarrow> rc > 0 \<and> s' = s \<and> e' = e)"

definition starts_at :: "scanner \<Rightarrow> subject_match \<Rightarrow> string \<Rightarrow> nat \<Rightarrow> bool" where
  "starts_at sc pm c s \<longleftrightarrow>
     (if m_use_literal sc then literal_at (m_literal_search_string sc) c s
      else case pm c s False of (rc, s', e) \<Rightarrow> rc > 0 \<and> s' = s)"

definition content_line :: "string \<Rightarrow> nat \<Rightarrow> nat" where
  "content_line c s = 1 + length (filter ((=) NL) (take s c))"

text \<open>
  An offset the scan on libpcre2 can step over: UTF-8 continuation bytes lead from a newline to it, and the pattern
  has an empty match at that newline. A pattern without empty matches has none, and neither has a line that does
  not begin with a continuation byte.
\<close>

definition hidden :: "scanner \<Rightarrow> subject_match \<Rightarrow> string \<Rightarrow> nat \<Rightarrow> bool" where
  "hidden sc pm c s \<longleftrightarrow> (\<exists>p < s. c ! p = NL \<and> match_at sc pm c p p \<and> (\<forall>a \<in> {p<..s}. continuation (c ! a)))"

text \<open>
  Every reported line is the line of a match, with its number and cut at the match; the lines are in order; and
  every line is reported on which a match starts, at an offset that is not one of \<open>missed\<close>.
\<close>

definition matches_but :: "(nat \<Rightarrow> bool) \<Rightarrow> scanner \<Rightarrow> subject_match \<Rightarrow> string \<Rightarrow> match_line list \<Rightarrow> bool" where
  "matches_but missed sc pm c ms \<longleftrightarrow>
     sorted_wrt (<) (map m_line_number ms)
     \<and> (\<forall>m \<in> set ms. \<exists>s e. s \<le> e \<and> e \<le> length c \<and> match_at sc pm c s e \<and> Match_ctor c s e (content_line c s) = Inr m)
     \<and> (\<forall>s < length c. starts_at sc pm c s \<and> \<not> missed s \<longrightarrow> content_line c s \<in> m_line_number ` set ms)"

definition right_matches :: "scanner \<Rightarrow> subject_match \<Rightarrow> string \<Rightarrow> match_line list \<Rightarrow> bool" where
  "right_matches sc pm c = matches_but (hidden sc pm c) sc pm c"

definition exact_matches :: "scanner \<Rightarrow> subject_match \<Rightarrow> string \<Rightarrow> match_line list \<Rightarrow> bool" where
  "exact_matches sc pm c = matches_but (\<lambda>_. False) sc pm c"

lemma right_matches_complete:
  assumes "right_matches sc pm c ms" and "s < length c" and "starts_at sc pm c s" and "\<not> hidden sc pm c s"
  shows "content_line c s \<in> m_line_number ` set ms"
  using assms by (simp add: right_matches_def matches_but_def)

lemma right_matches_sound:
  assumes "right_matches sc pm c ms" and "m \<in> set ms"
  shows "\<exists>s e. s \<le> e \<and> e \<le> length c \<and> match_at sc pm c s e \<and> Match_ctor c s e (content_line c s) = Inr m"
  using assms by (simp add: right_matches_def matches_but_def)

lemma exact_matches_complete:
  assumes "exact_matches sc pm c ms" and "s < length c" and "starts_at sc pm c s"
  shows "content_line c s \<in> m_line_number ` set ms"
  using assms by (simp add: exact_matches_def matches_but_def)

lemma not_hidden: "\<not> continuation (c ! s) \<Longrightarrow> \<not> hidden sc pm c s"
  by (auto simp: hidden_def)

text \<open>For a pattern without empty matches both say the same.\<close>

lemma right_exact:
  assumes "\<And>p. \<not> match_at sc pm c p p"
  shows "right_matches sc pm c = exact_matches sc pm c"
  using assms by (simp add: fun_eq_iff right_matches_def exact_matches_def matches_but_def hidden_def)

lemma line_at_content:
  assumes "s \<le> n" and "env_size env = n"
  shows "line_at env s = content_line (file_bytes (env_mem env) (env_data env) n) s"
  using assms(1)
proof (induction s)
  case 0
  then show ?case by (simp add: line_at_def content_line_def)
next
  case (Suc s)
  let ?c = "file_bytes (env_mem env) (env_data env) n"
  have "newlines (env_mem env) (env_data env) (env_data env + Suc s)
      = newlines (env_mem env) (env_data env) (env_data env + s) + of_bool (env_mem env (env_data env + s) = NL)"
    using newlines_split[of "env_data env" "env_data env + s" "env_data env + s + 1" "env_mem env"]
      newlines_one[of "env_mem env" "env_data env + s"] by simp
  moreover have "take (Suc s) ?c = take s ?c @ [env_mem env (env_data env + s)]"
    using Suc.prems by (simp add: take_Suc_conv_app_nth)
  ultimately show ?case using Suc by (auto simp: line_at_def content_line_def)
qed

lemma literal_at_occurs:
  assumes "s + length pat \<le> n"
  shows "mem_occurs mem (fd + s) pat \<longleftrightarrow> literal_at pat (file_bytes mem fd n) s"
proof -
  have "mem_occurs mem (fd + s) pat \<longleftrightarrow> (\<forall>k < length pat. take (length pat) (drop s (file_bytes mem fd n)) ! k = pat ! k)"
    using assms by (simp add: mem_occurs_def add.assoc)
  also have "\<dots> \<longleftrightarrow> take (length pat) (drop s (file_bytes mem fd n)) = pat"
    using assms by (simp add: list_eq_iff_nth_eq)
  finally show ?thesis using assms by (simp add: literal_at_def)
qed

lemma pcre2_env_sel [simp]:
  "env_mem (pcre2_env sse sc pm cnt mem fd n) = mem" "env_data (pcre2_env sse sc pm cnt mem fd n) = fd"
  "env_size (pcre2_env sse sc pm cnt mem fd n) = n" "env_sse4_2 (pcre2_env sse sc pm cnt mem fd n) = sse"
  "env_scanner (pcre2_env sse sc pm cnt mem fd n) = sc" "env_count (pcre2_env sse sc pm cnt mem fd n) = cnt"
  "env_match (pcre2_env sse sc pm cnt mem fd n) = pm (file_bytes mem fd n)"
  by (simp_all add: pcre2_env_def)

lemma attempt_match_at:
  assumes cfg: "scan_setup (pcre2_env sse sc pm cnt mem fd n)" and m: "t \<le> s" "s \<le> e" "e \<le> n" "rc > 0"
    and a: "attempt (pcre2_env sse sc pm cnt mem fd n) opt t = Some (rc, s, e)"
  shows "match_at sc pm (file_bytes mem fd n) s e"
proof (cases "m_use_literal sc")
  case True
  let ?pat = "m_literal_search_string sc"
  have "t \<le> n" using m(1-3) by simp
  with literal_attempt[OF cfg, of t opt] True a have l: "LiteralMatch_default mem ?pat fd n t = (rc, s, e)" by simp
  show ?thesis
  proof (cases rule: literal_default_cases[OF \<open>t \<le> n\<close>, where mem = mem and pat = ?pat and fd = fd, case_names hit miss])
    case (hit q)
    then have "s = q" "e = s + length ?pat" "mem_occurs mem (fd + s) ?pat" using l by simp_all
    with True m(3) literal_at_occurs[of s ?pat n mem fd] show ?thesis by (simp add: match_at_def)
  qed (use l m(4) in simp)
next
  case False
  let ?c = "file_bytes mem fd n"
  have "pm ?c t opt = (rc, s, e)" using a False by (simp add: attempt_def)
  with m(4) have "\<exists>opt \<in> {False, True}. case pm ?c t opt of (rc, s', e') \<Rightarrow> rc > 0 \<and> s' = s \<and> e' = e"
    by (cases opt) auto
  with False m(1) show ?thesis unfolding match_at_def by auto
qed

lemma good_match_content:
  assumes cfg: "scan_setup (pcre2_env sse sc pm cnt mem fd n)" and g: "good_match (pcre2_env sse sc pm cnt mem fd n) m"
  shows "\<exists>s e. s \<le> e \<and> e \<le> n \<and> match_at sc pm (file_bytes mem fd n) s e
    \<and> Match_ctor (file_bytes mem fd n) s e (content_line (file_bytes mem fd n) s) = Inr m"
proof -
  let ?env = "pcre2_env sse sc pm cnt mem fd n" and ?c = "file_bytes mem fd n"
  obtain opt t rc s e where m: "t \<le> s" "s \<le> e" "e \<le> n" "attempt ?env opt t = Some (rc, s, e)" "rc > 0"
    "Match_ctor ?c s e (line_at ?env s) = Inr m"
    using g by (auto simp: good_match_def)
  have "match_at sc pm ?c s e" by (rule attempt_match_at[OF cfg m(1-3,5,4)])
  moreover have "line_at ?env s = content_line ?c s" using line_at_content[of s n ?env] m(2,3) by simp
  ultimately show ?thesis using m by metis
qed

lemma stepped_over_hidden:
  assumes cfg: "scan_setup (pcre2_env sse sc pm cnt mem fd n)" and s: "stepped_over (pcre2_env sse sc pm cnt mem fd n) s"
  shows "hidden sc pm (file_bytes mem fd n) s"
proof -
  let ?env = "pcre2_env sse sc pm cnt mem fd n" and ?c = "file_bytes mem fd n"
  obtain p where p: "s < n" "p < s" "mem (fd + p) = NL" "empty_match ?env p" "\<forall>a \<in> {p<..s}. continuation (mem (fd + a))"
    using s by (auto simp: stepped_over_def)
  obtain opt t rc where e: "t \<le> p" "attempt ?env opt t = Some (rc, p, p)" "rc > 0" using p(4) by (auto simp: empty_match_def)
  have "match_at sc pm ?c p p" using attempt_match_at[OF cfg e(1) _ _ e(3,2)] p(1,2) by simp
  then show ?thesis using p by (auto simp: hidden_def intro!: exI[of _ p])
qed

lemma starts_at_starts:
  assumes cfg: "scan_setup (pcre2_env sse sc pm cnt mem fd n)" and s: "s < n" "starts_at sc pm (file_bytes mem fd n) s"
  shows "starts (pcre2_env sse sc pm cnt mem fd n) s"
proof (cases "m_use_literal sc")
  case True
  let ?pat = "m_literal_search_string sc"
  have a: "attempt (pcre2_env sse sc pm cnt mem fd n) False s = Some (LiteralMatch_default mem ?pat fd n s)"
    using literal_attempt[OF cfg, of s False] True s(1) by simp
  have la: "literal_at ?pat (file_bytes mem fd n) s" using s(2) True by (simp add: starts_at_def)
  then have len: "s + length ?pat \<le> n" by (simp add: literal_at_def)
  then have o: "mem_occurs mem (fd + s) ?pat" using la literal_at_occurs by blast
  have "s \<le> n" using s(1) by simp
  then show ?thesis
  proof (cases rule: literal_default_cases[of s n, where mem = mem and pat = ?pat and fd = fd, consumes 1, case_names hit miss])
    case (hit q)
    then have "q = s" using o by (metis le_neq_implies_less le_refl)
    then show ?thesis using a hit(1) by (simp add: starts_def)
  qed (use o len in blast)
next
  case False
  then show ?thesis using s by (auto simp: starts_def attempt_def starts_at_def)
qed

text \<open>The scan of a file that is set up and whose prefilter admits every match.\<close>

lemma pcre2_scan_right:
  assumes cfg: "scan_setup (pcre2_env sse sc pm cnt mem fd n)" and pre: "prefilter_law (pcre2_env sse sc pm cnt mem fd n)"
    and short: "short_tables sc" and ml: "m_match_list ml = []"
  shows "\<exists>ml'. pcre2_scan sse sc pm cnt mem fd n ml = Some (None, ml') \<and> right_matches sc pm (file_bytes mem fd n) (m_match_list ml')"
proof -
  let ?env = "pcre2_env sse sc pm cnt mem fd n" and ?c = "file_bytes mem fd n"
  obtain ml' where r: "ScanFile ?env ml = Some (None, ml')" "sorted_wrt (<) (map m_line_number (m_match_list ml'))"
    "\<forall>m \<in> set (m_match_list ml'). good_match ?env m"
    using scan_loop_inv[OF setup_counts setup_attempts setup_skips scan_start_inv, OF cfg cfg cfg ml]
    by (auto simp: ScanFile_def)
  have all: "content_line ?c s \<in> m_line_number ` set (m_match_list ml')"
    if s: "s < n" "starts_at sc pm ?c s" and h: "\<not> hidden sc pm ?c s" for s
  proof -
    have "\<not> stepped_over ?env s" using h stepped_over_hidden[OF cfg] by blast
    from scan_finds_line[OF cfg pre _ ml _ starts_at_starts[OF cfg s] this] short s(1) r(1)
    have "line_at ?env s \<in> m_line_number ` set (m_match_list ml')" by simp
    moreover have "line_at ?env s = content_line ?c s" using line_at_content[of s n ?env] s(1) by simp
    ultimately show ?thesis by simp
  qed
  have "right_matches sc pm ?c (m_match_list ml')"
    unfolding right_matches_def matches_but_def using r(2) all good_match_content[OF cfg] r(3) by auto
  with r(1) show ?thesis by (simp add: pcre2_scan_def)
qed

subsection \<open>The library\<close>

text \<open>
  What libpcre2 promises for a pattern, on every subject and wherever it is in memory: its matcher is the regex
  engine of the scanner, and the pattern information is true of every match.
\<close>

locale pcre2_library =
  fixes pm :: subject_match and info :: pattern_info and ic wr lit :: bool and regex :: string
  assumes engine: "regex_engine mem fd n (pm (file_bytes mem fd n))"
    and information: "plain regex \<Longrightarrow> padded mem (fd + n) \<Longrightarrow>
      info_law (pcre2_env sse (AnalyzeRegex info ic wr lit regex scanner_init) pm cnt mem fd n) info ic wr regex"
begin

text \<open>The scanner as the constructor configures it.\<close>

lemma analysed_scanner:
  assumes "plain regex" and "m_end_fpcu_table (m_tables (AnalyzeRegex info ic wr lit regex scanner_init)) \<le> 16"
  shows "content_scanner (pcre2_scan sse (AnalyzeRegex info ic wr lit regex scanner_init) pm (resolve_CountLinesSinceLastMatch x y z))
           (right_matches (AnalyzeRegex info ic wr lit regex scanner_init) pm)"
proof
  fix mem fd c and ml :: match_list
  assume c: "map mem [fd..<fd + length c] = c" and pad: "padded mem (fd + length c)" and ml: "m_match_list ml = []"
  let ?sc = "AnalyzeRegex info ic wr lit regex scanner_init" and ?cnt = "resolve_CountLinesSinceLastMatch x y z"
  let ?env = "pcre2_env sse ?sc pm ?cnt mem fd (length c)"
  have e: "env_scanner ?env = ?sc" "env_count ?env = ?cnt" "padded (env_mem ?env) (env_data ?env + env_size ?env)"
    "m_use_literal (env_scanner ?env) \<or> regex_engine (env_mem ?env) (env_data ?env) (env_size ?env) (env_match ?env)"
    using pad engine by simp_all
  note an = analysis_sound[OF e(1) information[OF assms(1) pad] assms(1) e(2,3,4)]
  have "short_tables ?sc" using an(3) assms(2) by simp
  from pcre2_scan_right[OF an(1,2) this ml] c
  show "\<exists>ml'. pcre2_scan sse ?sc pm ?cnt mem fd (length c) ml = Some (None, ml') \<and> right_matches ?sc pm c (m_match_list ml')"
    by (simp add: file_bytes_def)
qed

text \<open>A scanner without the optimisations: only the engine matters.\<close>

lemma unanalysed_scans:
  assumes c: "map mem [fd..<fd + length c] = c" and pad: "padded mem (fd + length c)" and ml: "m_match_list ml = []"
  shows "\<exists>ml'. pcre2_scan sse scanner_init pm (resolve_CountLinesSinceLastMatch x y z) mem fd (length c) ml = Some (None, ml')
    \<and> right_matches scanner_init pm c (m_match_list ml')"
proof -
  let ?env = "pcre2_env sse scanner_init pm (resolve_CountLinesSinceLastMatch x y z) mem fd (length c)"
  have "scan_setup ?env" using engine pad by (auto simp: scan_setup_def scanner_init_def)
  moreover have "prefilter_law ?env" by (simp add: prefilter_law_def scanner_init_def)
  moreover have "short_tables scanner_init" by (simp add: short_tables_def scanner_init_def)
  ultimately show ?thesis
    using pcre2_scan_right[where ml = ml, OF _ _ _ ml, of sse scanner_init pm] c by (metis file_bytes_def)
qed

end

sublocale pcre2_library \<subseteq> unanalysed: content_scanner
    "pcre2_scan sse scanner_init pm (resolve_CountLinesSinceLastMatch x y z)" "right_matches scanner_init pm" for sse x y z
  by unfold_locales (rule unanalysed_scans)

text \<open>
  The library on a quoted literal, with its first character as the pattern information.
\<close>

definition content_mem :: "string \<Rightarrow> memory" where
  "content_mem c = (\<lambda>a. if a < length c then c ! a else NUL)"

definition literal_pm :: "string \<Rightarrow> subject_match" where
  "literal_pm pat c = literal_engine (content_mem c) 0 (length c) pat"

definition literal_info :: "string \<Rightarrow> pattern_info" where
  "literal_info pat = \<lparr>first_bitmap = None, first_code_type = 1, first_code_unit = of_char (hd pat)\<rparr>"

lemma callout_newline:
  assumes "s \<le> e"
  shows "callout_handler mem fd s e = of_bool (\<exists>i. s \<le> i \<and> i < e \<and> mem (fd + i) = NL)"
proof (cases "mem_chr mem (fd + s) NL (e - s)")
  case None
  from mem_chr_None[OF this] have "mem (fd + i) \<noteq> NL" if "s \<le> i" "i < e" for i using that assms by simp
  then show ?thesis using None by (auto simp: callout_handler_def)
next
  case (Some q)
  from mem_chr_Some[OF this] have q: "fd + s \<le> q" "q < fd + s + (e - s)" "mem q = NL" by blast+
  from q(1) obtain i where i: "q = fd + s + i" using le_Suc_ex by blast
  then have "s \<le> s + i \<and> s + i < e \<and> mem (fd + (s + i)) = NL" using q(2,3) by (simp add: add.assoc)
  then have "\<exists>i. s \<le> i \<and> i < e \<and> mem (fd + i) = NL" by blast
  then show ?thesis using Some by (simp add: callout_handler_def)
qed

lemma callout_content:
  "s \<le> e \<Longrightarrow> e \<le> n \<Longrightarrow> callout_handler (content_mem (file_bytes mem fd n)) 0 s e = callout_handler mem fd s e"
  unfolding callout_newline content_mem_def by (intro arg_cong[where f = of_bool] ex_cong1) auto

lemma literal_pm_engine: "regex_engine mem fd n (literal_pm pat (file_bytes mem fd n))"
proof -
  let ?c = "file_bytes mem fd n"
  have e: "literal_pm pat ?c = literal_engine (content_mem ?c) 0 n pat" by (simp add: literal_pm_def fun_eq_iff)
  note r = literal_re.regex_engine_axioms[of "content_mem ?c" 0 n pat]
  show ?thesis
    unfolding e
  proof (rule regex_engine.intro)
    fix t opt rc s e
    assume t: "t \<le> n" and m: "literal_engine (content_mem ?c) 0 n pat t opt = (rc, s, e)" "rc > 0"
    have "s \<le> e" "e \<le> n" using literal_re.range[OF t m] by simp_all
    then show "callout_handler mem fd s e = 0" using literal_re.one_line[OF t m] callout_content by simp
  qed (erule literal_re.code | erule (2) literal_re.range | erule (2) literal_re.anchored
      | erule (4) literal_re.leftmost | erule (2) literal_re.no_match)+
qed

lemma starts_literal_content:
  assumes "plain pat" and "padded mem (fd + n)" and "s \<le> n"
    and "starts (pcre2_env sse (AnalyzeRegex info False False True pat scanner_init) pm cnt mem fd n) s"
  shows "literal_at pat (file_bytes mem fd n) s"
proof -
  let ?sc = "AnalyzeRegex info False False True pat scanner_init"
  have sc: "m_use_literal ?sc" "m_literal_search_string ?sc = pat"
    by (simp_all add: AnalyzeRegex_def analyze_literal_def)
  obtain rc e where a: "resolve_LiteralMatch sse mem pat fd n s = Some (rc, s, e)" "rc > 0"
    using assms(4) sc by (auto simp: starts_def attempt_def)
  have "LiteralMatch_default mem pat fd n s = (rc, s, e)"
    using LiteralMatch_versions a(1) assms(1-3) unfolding plain_def by auto
  note l = this
  have "mem_occurs mem (fd + s) pat \<and> s + length pat \<le> n"
  proof (cases rule: literal_default_cases[OF assms(3), where mem = mem and pat = pat and fd = fd, case_names hit miss])
    case (hit q)
    then show ?thesis using l by simp
  next
    case miss
    then show ?thesis using l a(2) by simp
  qed
  then show ?thesis using literal_at_occurs by blast
qed

interpretation literal_lib: pcre2_library "literal_pm pat" "literal_info pat" False False True pat for pat
proof (rule pcre2_library.intro)
  show "regex_engine mem fd n (literal_pm pat (file_bytes mem fd n))" for mem fd n by (rule literal_pm_engine)
  fix mem fd n sse cnt
  assume pl: "plain pat" and pad: "padded mem (fd + n)"
  let ?env = "pcre2_env sse (AnalyzeRegex (literal_info pat) False False True pat scanner_init) (literal_pm pat) cnt mem fd n"
  have occ: "s + length pat \<le> n \<and> (\<forall>k < length pat. mem (fd + s + k) = pat ! k)" if "s \<le> n" "starts ?env s" for s
    using starts_literal_content[OF pl pad that] literal_at_occurs[of s pat n mem fd]
    by (simp add: literal_at_def mem_occurs_def)
  have ne: "pat \<noteq> []" using pl by (simp add: plain_def)
  have lt: "s < n \<and> of_char (mem (fd + s)) = (of_char (hd pat) :: 8 word)" if "s \<le> n" "starts ?env s" for s
    using occ[OF that] ne by (cases pat) auto
  have pre: "s + k \<le> n \<and> mem_occurs mem (fd + s) (take k pat)" if "s \<le> n" "starts ?env s" "k < length pat" for s k
    using occ[OF that(1,2)] that(3) by (simp add: mem_occurs_def)
  show "info_law ?env (literal_info pat) False False pat"
    unfolding info_law_def pcre2_env_sel using lt pre by (simp add: literal_info_def)
qed

subsection \<open>Properties\<close>

text \<open>The scanner of a configuration, as the constructor leaves it, on a processor of any kind.\<close>

definition configured_scan :: "bool \<Rightarrow> pattern_info \<Rightarrow> bool \<Rightarrow> bool \<Rightarrow> bool \<Rightarrow> string \<Rightarrow> subject_match \<Rightarrow> scan_fun" where
  "configured_scan sse info ic wr lit regex pm =
     pcre2_scan sse (AnalyzeRegex info ic wr lit regex scanner_init) pm (resolve_CountLinesSinceLastMatch sse sse sse)"

abbreviation reported_matches :: "pattern_info \<Rightarrow> bool \<Rightarrow> bool \<Rightarrow> bool \<Rightarrow> string \<Rightarrow> subject_match \<Rightarrow> string \<Rightarrow> match_line list \<Rightarrow> bool" where
  "reported_matches info ic wr lit regex pm \<equiv> right_matches (AnalyzeRegex info ic wr lit regex scanner_init) pm"

lemma configured:
  assumes "pcre2_library pm info ic wr lit regex" and "plain regex"
    and "m_end_fpcu_table (m_tables (AnalyzeRegex info ic wr lit regex scanner_init)) \<le> 16"
  shows "content_scanner (configured_scan sse info ic wr lit regex pm) (reported_matches info ic wr lit regex pm)"
  unfolding configured_scan_def by (rule pcre2_library.analysed_scanner[OF assms])


text \<open>
  C5. Several threads on one pair of queues, whichever of them pulls a file and in whatever order they finish:
  no thread ends with an exception, and when no file is left, the output queue has gained for every file the
  match list a single thread would have pushed, each once, in some order.
\<close>

theorem pool_reports_matching_lines:
  assumes "pcre2_library pm info ic wr lit regex" and "plain regex"
    and "m_end_fpcu_table (m_tables (AnalyzeRegex info ic wr lit regex scanner_init)) \<le> 16"
    and "pool_ready s content p0" and "\<forall>a n. alloc a n \<noteq> None"
    and "(pool_step alloc s (configured_scan sse info ic wr lit regex pm))\<^sup>*\<^sup>* p0 p"
  shows "(\<forall>w \<in> set (p_workers p). w_error w = None)
    \<and> (waiting p = [] \<longrightarrow>
        (\<exists>ms. (\<forall>i \<in> set (waiting p0). outcome (reported_matches info ic wr lit regex pm) (content i) (ms i))
            \<and> mset (m_underlying_queue (p_out p))
              = mset (m_underlying_queue (p_out p0)) + reports (p_heap p0) ms (mset (waiting p0))))"
  by (rule content_scanner.pool_reports[OF configured[OF assms(1-3)] assms(4-6)])

text \<open>
  The threads finish: from a queue of files they can take only boundedly many steps, and as long as a file
  is queued or in the hands of a thread some thread can take one.
\<close>

theorem pool_terminates:
  assumes "pcre2_library pm info ic wr lit regex" and "plain regex"
    and "m_end_fpcu_table (m_tables (AnalyzeRegex info ic wr lit regex scanner_init)) \<le> 16"
    and "pool_ready s content p0" and "\<forall>a n. alloc a n \<noteq> None"
    and "(pool_step alloc s (configured_scan sse info ic wr lit regex pm) ^^ k) p0 p"
  shows "k \<le> length (m_underlying_queue (p_in p0)) + length (waiting p0)
    \<and> (waiting p \<noteq> [] \<longrightarrow> (\<exists>p'. pool_step alloc s (configured_scan sse info ic wr lit regex pm) p p'))"
  using content_scanner.pool_ends[OF configured[OF assms(1-3)] assms(4-6)] unfolding pool_measure_def .

text \<open>
  An exception of the file constructor other than a failed open ends the thread at that file, whatever is
  still in the queue: nothing is pushed for the files behind it.
\<close>

theorem unhandled_exception_ends_thread:
  assumes "m_underlying_queue q = i # files" and "fst (File_ctor alloc s i (t_buffers st)) = Inl e" and "\<not> handled e"
  shows "\<exists>st'. run_loop alloc s scan q st = Some (Some (RunFile e), st') \<and> t_pushed st' = t_pushed st"
proof -
  obtain bs where "File_ctor alloc s i (t_buffers st) = (Inl e, bs)" using assms(2) by (metis prod.collapse)
  then have "run_body alloc s scan i st = Some (Some (RunFile e), st\<lparr>t_buffers := bs\<rparr>)"
    using assms(3) by (simp add: run_body_def)
  then show ?thesis by (subst run_loop.simps) (simp add: pull_front_Cons[OF assms(1)])
qed

subsection \<open>Instances\<close>

abbreviation sample_queue :: "nat sync_queue" where
  "sample_queue \<equiv> close (snd (push_back 2 sync_queue_init))"

abbreviation abc_scan :: scan_fun where
  "abc_scan \<equiv> configured_scan True (literal_info ''b'') False False True ''b'' (literal_pm ''b'')"

lemma sample_config:
  "plain ''b''" "m_end_fpcu_table (m_tables (AnalyzeRegex (literal_info ''b'') False False True ''b'' scanner_init)) \<le> 16"
  by (simp_all add: plain_def AnalyzeRegex_def analyze_literal_def analyze_first_units_def literal_info_def m_end_fpcu_table_def)

lemma sample_to_scan: "to_scan (file_os 4096 [''abc'']) (b_heap sample_buffers) 2 (Some ''abc'')"
proof -
  have "is_power_of_2 (of_nat (nat (clamp 4096 0x20000 0x100000)) :: 64 word)" by (simp add: is_power_of_2_def clamp_def)
  then have "readable (file_os 4096 [''abc'']) 2 (b_heap sample_buffers) ''abc''"
    by (simp add: readable_def sized_def sample_buffers_ok) (simp add: file_os_def)
  then show ?thesis by (simp add: to_scan_def sample_buffers_ok)
qed

lemma sample_queue_fields: "m_underlying_queue sample_queue = [2]" "m_closed sample_queue"
  by (simp_all add: close_def push_back_def sync_queue_init_def)


definition idle_worker :: scan_worker where
  "idle_worker = \<lparr>w_file = None, w_storage = ResizableArray_init, w_memory = (\<lambda>_. NUL), w_ml = MatchList_init, w_error = None\<rparr>"

definition sample_pool :: pool where
  "sample_pool = \<lparr>p_in = sample_queue, p_heap = b_heap sample_buffers, p_out = sync_queue_init, p_workers = [idle_worker, idle_worker]\<rparr>"

lemma sample_pool_ready: "pool_ready (file_os 4096 [''abc'']) (\<lambda>_. Some ''abc'') sample_pool" "waiting sample_pool = [2]"
proof -
  show w: "waiting sample_pool = [2]"
    by (simp add: waiting_def sample_pool_def sample_queue_fields held_def idle_worker_def)
  have "array_ok ResizableArray_init" by (simp add: ResizableArray_init_def array_ok_def)
  then show "pool_ready (file_os 4096 [''abc'']) (\<lambda>_. Some ''abc'') sample_pool"
    using sample_buffers_ok(1) sample_to_scan
    by (simp add: pool_ready_def w) (simp add: sample_pool_def idle_worker_def MatchList_init_def sync_queue_init_def)
qed

lemma pool_reports_matching_lines_witness:
  "\<exists>p ms. (pool_step (\<lambda>a n. Some 4096) (file_os 4096 [''abc'']) abc_scan)\<^sup>*\<^sup>* sample_pool p
     \<and> mset (m_underlying_queue (p_out p)) = mset (report (b_heap sample_buffers) 2 ms) \<and> w_error (hd (p_workers sample_pool)) = None"
proof -
  note cs = configured[OF literal_lib.pcre2_library_axioms sample_config, of True]
  obtain p where p: "(pool_step (\<lambda>a n. Some 4096) (file_os 4096 [''abc'']) abc_scan)\<^sup>*\<^sup>* sample_pool p" "waiting p = []"
    using content_scanner.pool_finishes[OF cs sample_pool_ready(1), of "\<lambda>a n. Some 4096"] by auto
  from pool_reports_matching_lines[OF literal_lib.pcre2_library_axioms sample_config sample_pool_ready(1) _ p(1)] p(2)
  obtain ms where "mset (m_underlying_queue (p_out p)) = mset (m_underlying_queue (p_out sample_pool))
      + reports (p_heap sample_pool) ms (mset (waiting sample_pool))" by auto
  then have "mset (m_underlying_queue (p_out p)) = mset (report (b_heap sample_buffers) 2 (ms 2))"
    unfolding sample_pool_ready(2) by (simp add: reports_def sample_pool_def sync_queue_init_def)
  with p(1) show ?thesis by (auto simp: sample_pool_def idle_worker_def)
qed

lemma pool_terminates_witness:
  "\<exists>p'. pool_step (\<lambda>a n. Some 4096) (file_os 4096 [''abc'']) abc_scan sample_pool p'"
  using pool_terminates[OF literal_lib.pcre2_library_axioms sample_config sample_pool_ready(1) _ relpowp_0_I, of "\<lambda>a n. Some 4096" True]
  by (simp add: sample_pool_ready(2))

lemma unhandled_exception_ends_thread_witness:
  "\<exists>st'. run_loop (\<lambda>a n. Some 4096) (file_os 0x30000 [''abc'']) abc_scan sample_queue
       \<lparr>t_buffers = sample_buffers, t_ml = MatchList_init, t_out = sync_queue_init\<rparr> = Some (Some (RunFile BadAlloc), st')
     \<and> t_pushed st' = []"
proof -
  have p: "\<not> is_power_of_2 (of_nat (nat 0x30000) :: 64 word)" by (simp add: is_power_of_2_def clamp_def)
  have "fst (File_ctor (\<lambda>a n. Some 4096) (file_os 0x30000 [''abc'']) 2 sample_buffers) = Inl BadAlloc"
    by (rule odd_block_size_bad_alloc[OF sample_buffers_ok(1,3), where sb = "the (sys_fstat (file_os 0x30000 [''abc'']) 7)"])
      (use p in \<open>simp_all add: sample_buffers_ok, simp_all add: file_os_def\<close>)
  from unhandled_exception_ends_thread[of sample_queue 2 "[]" _ _ "\<lparr>t_buffers = sample_buffers, t_ml = MatchList_init, t_out = sync_queue_init\<rparr>",
      OF sample_queue_fields(1) _] this
  show ?thesis by (simp add: handled_def sync_queue_init_def)
qed

end
