(* ===== verification/Engines.thy ===== *)
theory Engines
  imports FileScanning
begin

unbundle bit_operations_syntax

text \<open>
  The choice of the regex engine, \<open>FileScanner::Create\<close>, and the other two engines: the scanner on the
  original libpcre, \<open>src/FileScannerPCRE.cpp\<close>, and the one on \<open>std::regex\<close>, \<open>src/FileScannerCpp11.cpp\<close>, which
  is compiled without a body.
\<close>

subsection \<open>Construction\<close>

datatype RegexEngine = NONE | CXX11 | PCRE | PCRE2

record file_scanner =
  fs_regex :: string
  fs_ignore_case :: bool
  fs_word_regexp :: bool
  fs_pattern_is_literal :: bool
  fs_next_core :: int
  fs_use_mmap :: bool
  fs_manually_assign_cores :: bool

definition FileScanner_ctor :: "string \<Rightarrow> bool \<Rightarrow> bool \<Rightarrow> bool \<Rightarrow> file_scanner" where
  "FileScanner_ctor regex ignore_case word_regexp pattern_is_literal =
     \<lparr>fs_regex = regex, fs_ignore_case = ignore_case, fs_word_regexp = word_regexp,
      fs_pattern_is_literal = pattern_is_literal, fs_next_core = 0, fs_use_mmap = False, fs_manually_assign_cores = False\<rparr>"

text \<open>The exceptions of the constructors. The message of a study error carries one character of the library's text.\<close>

datatype create_exception =
    PCRE2Failed FileScannerException
  | PCREFailed string nat string
  | StudyFailed char
  | InvalidEngine RegexEngine

definition FileScannerPCRE_ctor ::
    "(string \<Rightarrow> bool \<Rightarrow> (string \<times> nat) + 'code) \<Rightarrow> ('code \<Rightarrow> string option \<times> 'extra) \<Rightarrow>
     string \<Rightarrow> bool \<Rightarrow> bool \<Rightarrow> bool \<Rightarrow> create_exception + ('code \<times> 'extra)" where
  "FileScannerPCRE_ctor pcre_compile pcre_study regex ignore_case word_regexp pattern_is_literal =
     (let wrapped = wrapped_pattern regex word_regexp pattern_is_literal
      in case pcre_compile wrapped ignore_case of
           Inl (error, error_offset) \<Rightarrow> Inl (PCREFailed wrapped error_offset error)
         | Inr code \<Rightarrow>
             (case pcre_study code of
                (Some error, _) \<Rightarrow> Inl (StudyFailed (case error of [] \<Rightarrow> NUL | c # _ \<Rightarrow> c))
              | (None, extra) \<Rightarrow> Inr (code, extra)))"

datatype ('code, 'code2, 'extra) engine_object =
    Cpp11Object file_scanner
  | PCREObject file_scanner 'code 'extra
  | PCRE2Object file_scanner 'code2 scanner

definition Create ::
    "(string \<Rightarrow> bool \<Rightarrow> bool \<Rightarrow> bool \<Rightarrow> create_exception + ('code \<times> 'extra)) \<Rightarrow>
     (string \<Rightarrow> bool \<Rightarrow> bool \<Rightarrow> bool \<Rightarrow> FileScannerException + ('code2 \<times> scanner)) \<Rightarrow>
     string \<Rightarrow> bool \<Rightarrow> bool \<Rightarrow> bool \<Rightarrow> RegexEngine \<Rightarrow> create_exception + ('code, 'code2, 'extra) engine_object" where
  "Create pcre pcre2 regex ignore_case word_regexp pattern_is_literal engine =
     (let base = FileScanner_ctor regex ignore_case word_regexp pattern_is_literal
      in case engine of
           CXX11 \<Rightarrow> Inr (Cpp11Object base)
         | PCRE \<Rightarrow>
             (case pcre regex ignore_case word_regexp pattern_is_literal of
                Inl e \<Rightarrow> Inl e
              | Inr (code, extra) \<Rightarrow> Inr (PCREObject base code extra))
         | PCRE2 \<Rightarrow>
             (case pcre2 regex ignore_case word_regexp pattern_is_literal of
                Inl e \<Rightarrow> Inl (PCRE2Failed e)
              | Inr (code, sc) \<Rightarrow> Inr (PCRE2Object base code sc))
         | NONE \<Rightarrow> Inl (InvalidEngine engine))"

text \<open>\<open>AssignToNextCore\<close>: the core the thread is put on, and the scanner with the next one.\<close>

definition AssignToNextCore :: "int \<Rightarrow> file_scanner \<Rightarrow> int \<times> file_scanner" where
  "AssignToNextCore hardware_concurrency sc =
     (fs_next_core sc, sc\<lparr>fs_next_core := (fs_next_core sc + 1) mod hardware_concurrency\<rparr>)"

subsection \<open>The scanner on libpcre\<close>

text \<open>
  \<open>pcre_exec\<close> on a subject takes its length and the start offset as \<open>int\<close>; a \<open>size_t\<close> file size is cut to
  32 bits. The offset vector keeps its entries when there is no match; \<open>SIZE_MAX\<close> stands for the \<open>-1\<close> it starts with.
\<close>

type_synonym pcre_exec_fun = "string \<Rightarrow> int \<Rightarrow> int \<Rightarrow> bool \<Rightarrow> int \<times> nat \<times> nat"

definition pcre_match :: "pcre_exec_fun \<Rightarrow> subject_match" where
  "pcre_match pcre_exec c t opt = pcre_exec c (sint (of_nat (length c) :: 32 word)) (int t) opt"

definition pcre_env :: "pcre_exec_fun \<Rightarrow> (memory \<Rightarrow> nat \<Rightarrow> nat \<Rightarrow> nat) \<Rightarrow> memory \<Rightarrow> nat \<Rightarrow> nat \<Rightarrow> scan_env" where
  "pcre_env pcre_exec cnt mem fd n = pcre2_env False scanner_init (pcre_match pcre_exec) cnt mem fd n"

definition pcre_body :: "scan_env \<Rightarrow> scan_state \<Rightarrow> flow" where
  "pcre_body env st0 =
     (let opt = (ov0 st0 = ov1 st0); st = st0\<lparr>start_offset := ov1 st0\<rparr>
      in if opt \<and> ov0 st = env_size env then Stop None st
         else
           (case env_match env (start_offset st) opt of
              (rc, s, e) \<Rightarrow>
                if rc = -1 then
                  (if \<not> opt then Stop None st else Continue (st\<lparr>ov1 := start_offset st + 1\<rparr>))
                else if rc < 0 then Stop (Some (ScannerException (MatchError rc))) st
                else if rc = 0 then Stop None st
                else add_match env s e (st\<lparr>ov0 := s, ov1 := e\<rparr>)))"

partial_function (option) pcre_loop :: "scan_env \<Rightarrow> scan_state \<Rightarrow> (scan_exception option \<times> scan_state) option" where
  "pcre_loop env st =
     (if ov1 st < env_size env
      then (case pcre_body env st of
              Stop x st' \<Rightarrow> Some (x, st')
            | Continue st' \<Rightarrow> pcre_loop env st')
      else Some (None, st))"

text \<open>\<open>FileScannerPCRE::ScanFile\<close>, which does not catch its exceptions.\<close>

definition pcre_scan :: "pcre_exec_fun \<Rightarrow> (memory \<Rightarrow> nat \<Rightarrow> nat \<Rightarrow> nat) \<Rightarrow> scan_fun" where
  "pcre_scan pcre_exec cnt mem fd n ml =
     (let env = pcre_env pcre_exec cnt mem fd n
      in map_option (\<lambda>(x, st). (x, found st)) (pcre_loop env (scan_start env ml)))"

text \<open>\<open>FileScannerCpp11::ScanFile\<close>, without its conditional part.\<close>

definition cpp11_scan :: scan_fun where
  "cpp11_scan mem fd n ml = Some (None, ml)"

subsection \<open>One pass, compared with the scanner on libpcre2\<close>

definition steps_over :: "scan_env \<Rightarrow> scan_state \<Rightarrow> bool" where
  "steps_over env st \<longleftrightarrow> ov0 st = ov1 st \<and> ov1 st \<noteq> env_size env \<and> fst (env_match env (ov1 st) True) = -1"

lemma pcre_body_scan_body:
  assumes "env_scanner env = scanner_init" and "\<not> steps_over env st"
  shows "scan_body env st = Some (pcre_body env st)"
  using assms
  by (auto simp: scan_body_def pcre_body_def steps_over_def skip_ahead_def scanner_init_def after_match_def Let_def split: prod.splits)

lemma pcre_body_steps_over:
  "steps_over env st \<Longrightarrow> pcre_body env st = Continue (st\<lparr>start_offset := ov1 st, ov1 := ov1 st + 1\<rparr>)"
  by (auto simp: pcre_body_def steps_over_def Let_def split: prod.splits)

definition pcre_inv :: "scan_env \<Rightarrow> scan_state \<Rightarrow> bool" where
  "pcre_inv env st \<longleftrightarrow> scan_inv env st \<and> covered (\<lambda>_. False) env st"

lemma pcre_body_inv:
  assumes sc: "env_scanner env = scanner_init" and cfg: "scan_setup env" and inv: "pcre_inv env st" and lt: "ov1 st < env_size env"
  shows "case pcre_body env st of
      Stop x st' \<Rightarrow> x = None \<and> found st' = found st \<and> all_found (\<lambda>_. False) env st'
    | Continue st' \<Rightarrow> pcre_inv env st' \<and> scan_measure env st' < scan_measure env st"
proof (cases "steps_over env st")
  case True
  let ?st = "st\<lparr>start_offset := ov1 st, ov1 := ov1 st + 1\<rparr>"
  have o: "ov0 st = ov1 st" using True by (simp add: steps_over_def)
  have si: "scan_inv env ?st" using inv lt by (auto simp: pcre_inv_def scan_inv_def intro: le_trans)
  have "line_at env q \<in> lines_found st" if "q \<le> env_size env" "starts env q" "q < ov1 st + 1" for q
  proof (cases "q = ov1 st")
    case True
    then show ?thesis using inv o by (simp add: pcre_inv_def covered_def)
  next
    case False
    then have "q < ov1 st" using that(3) by simp
    then show ?thesis using inv that(1,2) by (auto simp: pcre_inv_def covered_def)
  qed
  then have "covered (\<lambda>_. False) env ?st"
    using inv o lt sc by (auto simp: pcre_inv_def covered_def lines_found_def scanner_init_def)
  moreover have "scan_measure env ?st < scan_measure env st" using o lt by (simp add: scan_measure_def)
  ultimately show ?thesis using pcre_body_steps_over[OF True] si by (simp add: pcre_inv_def)
next
  case False
  note b = pcre_body_scan_body[OF sc False]
  have i: "scan_inv env st" "covered (\<lambda>_. False) env st" using inv by (simp_all add: pcre_inv_def)
  have short: "short_tables (env_scanner env)" and pre: "prefilter_law env"
    using sc by (simp_all add: short_tables_def prefilter_law_def scanner_init_def)
  have sk: "m_use_literal (env_scanner env) \<or> skips_sound env"
    using setup_skips_sound[OF cfg pre short] by blast
  have "\<not> (ov0 st = ov1 st \<and> (\<exists>s e. attempt env True (ov1 st) = Some (-1, s, e)))"
    using False lt sc by (auto simp: steps_over_def attempt_def scanner_init_def)
  then have "ov0 st = ov1 st \<and> (\<exists>s e. attempt env True (ov1 st) = Some (-1, s, e)) \<longrightarrow> (\<forall>q. stepped_over env q \<longrightarrow> False)" by blast
  from scan_body_covered[OF cfg sk i this] scan_body_inv[OF setup_counts[OF cfg] setup_attempts[OF cfg] setup_skips[OF cfg] i(1)] b
  show ?thesis by (auto simp: pcre_inv_def split: flow.splits)
qed

lemma pcre_loop_spec:
  assumes sc: "env_scanner env = scanner_init" and cfg: "scan_setup env" and inv: "pcre_inv env st"
  shows "\<exists>st'. pcre_loop env st = Some (None, st')
    \<and> sorted_wrt (<) (map m_line_number (m_match_list (found st')))
    \<and> (\<forall>m \<in> set (m_match_list (found st')). good_match env m)
    \<and> (\<forall>s < env_size env. starts env s \<longrightarrow> line_at env s \<in> lines_found st')"
  using inv
proof (induction "scan_measure env st" arbitrary: st rule: less_induct)
  case less
  have fin: "sorted_wrt (<) (map m_line_number (m_match_list (found st)))"
    "\<forall>m \<in> set (m_match_list (found st)). good_match env m"
    using less.prems by (auto simp: pcre_inv_def scan_inv_def)
  show ?case
  proof (cases "ov1 st < env_size env")
    case False
    then have "\<forall>s < env_size env. starts env s \<longrightarrow> line_at env s \<in> lines_found st"
      using less.prems by (auto simp: pcre_inv_def covered_def)
    then show ?thesis using fin False by (subst pcre_loop.simps) simp
  next
    case True
    note b = pcre_body_inv[OF sc cfg less.prems True]
    show ?thesis
    proof (cases "pcre_body env st")
      case (Continue st')
      then show ?thesis using less.hyps[of st'] b True by (subst pcre_loop.simps) simp
    next
      case (Stop x st')
      with b have s: "x = None" "found st' = found st" "all_found (\<lambda>_. False) env st'" by simp_all
      have "pcre_loop env st = Some (None, st')" using Stop s(1) True by (subst pcre_loop.simps) simp
      then show ?thesis using fin s(2,3) by (simp add: all_found_def)
    qed
  qed
qed

subsection \<open>Properties\<close>

text \<open>
  C34. On files below 2 GiB the scanner on libpcre reports what the one on libpcre2 does: given a library whose
  matcher is a regex engine, its scan returns without an exception and with exactly the matching lines.
\<close>

theorem PCRE_reports_matching_lines:
  assumes "\<forall>mem fd n. n < 2 ^ 31 \<longrightarrow> regex_engine mem fd n (pcre_match pcre_exec (file_bytes mem fd n))"
    and "padded mem (fd + n)" and "0 < n" and "n < 2 ^ 31" and "m_match_list ml = []"
  shows "\<exists>ml'. pcre_scan pcre_exec (resolve_CountLinesSinceLastMatch x y z) mem fd n ml = Some (None, ml')
    \<and> exact_matches scanner_init (pcre_match pcre_exec) (file_bytes mem fd n) (m_match_list ml')"
proof -
  let ?cnt = "resolve_CountLinesSinceLastMatch x y z" and ?pm = "pcre_match pcre_exec" and ?c = "file_bytes mem fd n"
  let ?env = "pcre2_env False scanner_init ?pm ?cnt mem fd n"
  have cfg: "scan_setup ?env" using assms(1,2,4) by (auto simp: scan_setup_def scanner_init_def)
  have "pcre_inv ?env (scan_start ?env ml)"
    using scan_start_inv[OF assms(5)] scan_start_covered assms(3) by (simp add: pcre_inv_def)
  from pcre_loop_spec[OF _ cfg this] obtain st' where r: "pcre_loop ?env (scan_start ?env ml) = Some (None, st')"
    "sorted_wrt (<) (map m_line_number (m_match_list (found st')))"
    "\<forall>m \<in> set (m_match_list (found st')). good_match ?env m"
    "\<forall>s < n. starts ?env s \<longrightarrow> line_at ?env s \<in> lines_found st'" by auto
  have "content_line ?c s \<in> m_line_number ` set (m_match_list (found st'))" if "s < n" "starts_at scanner_init ?pm ?c s" for s
  proof -
    have "line_at ?env s \<in> lines_found st'" using r(4) that(1) starts_at_starts[OF cfg that] by blast
    moreover have "line_at ?env s = content_line ?c s" using line_at_content[of s n ?env] that(1) by simp
    ultimately show ?thesis by (simp add: lines_found_def)
  qed
  then have "exact_matches scanner_init ?pm ?c (m_match_list (found st'))"
    unfolding exact_matches_def matches_but_def using r(2,3) good_match_content[OF cfg] by auto
  with r(1) show ?thesis by (simp add: pcre_scan_def pcre_env_def)
qed

lemma sint_of_large:
  assumes "2 ^ 31 \<le> n" and "n < 2 ^ 32"
  shows "sint (of_nat n :: 32 word) < 0"
proof -
  have u: "uint (of_nat n :: 32 word) = int n" using assms(2) by (simp add: uint_nat unat_of_nat)
  have "int n div 2 ^ 31 = 1" using assms by (intro int_div_pos_eq[where r = "int n - 2 ^ 31"]) auto
  then have "bit (int n) 31" by (simp add: bit_iff_odd)
  then have "sint (of_nat n :: 32 word) = take_bit 32 (int n) - 2 ^ 32"
    by (simp add: sint_uint u signed_take_bit_eq_take_bit_minus)
  also have "take_bit 32 (int n) = int n" using assms(2) by (simp add: take_bit_int_eq_self)
  finally show ?thesis using assms(2) by simp
qed

lemma pcre_scan_bad_length:
  assumes "\<forall>c l t opt. l < 0 \<longrightarrow> fst (pcre_exec c l t opt) = -32" and "2 ^ 31 \<le> n" and "n < 2 ^ 32"
  shows "pcre_scan pcre_exec cnt mem fd n ml = Some (Some (ScannerException (MatchError (-32))), ml)"
proof -
  let ?env = "pcre_env pcre_exec cnt mem fd n" and ?st = "scan_start (pcre_env pcre_exec cnt mem fd n) ml"
  have "fst (env_match ?env 0 False) = -32"
    using assms(1) sint_of_large[OF assms(2,3)] by (simp add: pcre_env_def pcre_match_def)
  moreover have "ov0 ?st \<noteq> ov1 ?st" "ov1 ?st = 0" by (simp_all add: scan_start_def SIZE_MAX_def)
  ultimately have "pcre_body ?env ?st = Stop (Some (ScannerException (MatchError (-32)))) (?st\<lparr>start_offset := 0\<rparr>)"
    by (auto simp: pcre_body_def Let_def split: prod.splits)
  moreover have "ov1 ?st < env_size ?env" using assms(2) by (simp add: scan_start_def pcre_env_def)
  ultimately have "pcre_loop ?env ?st = Some (Some (ScannerException (MatchError (-32))), ?st\<lparr>start_offset := 0\<rparr>)"
    by (subst pcre_loop.simps) simp
  then show ?thesis by (simp add: pcre_scan_def scan_start_def)
qed

text \<open>
  C35. A file with a size from 2 GiB up to 4 GiB, in whatever pieces it is read, makes libpcre report a bad length, for
  the size arrives negative. The scanner throws before it has found anything, and the scanner thread ends, whatever
  is still in its queue.
\<close>

theorem PCRE_large_file_ends_thread:
  assumes "\<forall>c l t opt. l < 0 \<longrightarrow> fst (pcre_exec c l t opt) = -32"
    and "2 ^ 31 \<le> n" and "n < 2 ^ 32"
    and "m_underlying_queue q = i # files" and "thread_ok st" and "fresh_file i (t_heap st)" and "sized s i (t_heap st) n"
    and "\<forall>a n. alloc a n \<noteq> None"
  shows "\<exists>st'. run_loop alloc s (pcre_scan pcre_exec cnt) q st = Some (Some (RunScan (ScannerException (MatchError (-32)))), st')
    \<and> t_pushed st' = t_pushed st"
proof -
  have f: "heap_ok (t_heap st)" "array_ok (b_storage (t_buffers st))"
    using assms(5) by (simp_all add: thread_ok_def)
  have "0 < n" using assms(2) by (rule less_le_trans[rotated]) simp
  then obtain b bs' where c: "File_ctor alloc s i (t_buffers st) = (Inr (Some b), bs')" "File_size s i bs' = Some (int n, bs')"
    using File_ctor_sized[OF f(1) assms(6,7) f(2) assms(8)] by (metis (no_types, lifting))
  have "run_body alloc s (pcre_scan pcre_exec cnt) i st
      = Some (Some (RunScan (ScannerException (MatchError (-32)))), st\<lparr>t_buffers := bs', t_ml := t_ml st\<rparr>)"
    using c \<open>0 < n\<close> pcre_scan_bad_length[OF assms(1-3)] by (simp add: run_body_def)
  then show ?thesis by (subst run_loop.simps) (simp add: pull_front_Cons[OF assms(4)])
qed

subsection \<open>Instances\<close>

text \<open>libpcre on a quoted literal: the literal engine, with the length and the start offset it is given.\<close>

definition literal_exec :: "string \<Rightarrow> pcre_exec_fun" where
  "literal_exec pat c l t opt =
     (if l < 0 then (-32, 0, 0) else literal_engine (content_mem c) 0 (nat l) pat (nat t) opt)"

lemma literal_exec_engine:
  assumes "n < 2 ^ 31"
  shows "regex_engine mem fd n (pcre_match (literal_exec pat) (file_bytes mem fd n))"
proof -
  have "sint (of_nat n :: 32 word) = int n"
    using assms by (simp add: sint_uint uint_nat unat_of_nat signed_take_bit_int_eq_self)
  then have "pcre_match (literal_exec pat) (file_bytes mem fd n) = literal_pm pat (file_bytes mem fd n)"
    by (simp add: fun_eq_iff pcre_match_def literal_exec_def literal_pm_def)
  then show ?thesis using literal_pm_engine by metis
qed

lemma PCRE_reports_matching_lines_witness:
  "\<exists>ml'. pcre_scan (literal_exec ''ab'') (resolve_CountLinesSinceLastMatch True True True) sample_text 0 9 MatchList_init = Some (None, ml')
     \<and> 2 \<in> m_line_number ` set (m_match_list ml')"
proof -
  have "padded sample_text (0 + 9)" by (simp add: padded_def sample_text_def)
  from PCRE_reports_matching_lines[OF _ this, of "literal_exec ''ab''" MatchList_init True True True] literal_exec_engine
  obtain ml' where r: "pcre_scan (literal_exec ''ab'') (resolve_CountLinesSinceLastMatch True True True) sample_text 0 9 MatchList_init = Some (None, ml')"
    "exact_matches scanner_init (pcre_match (literal_exec ''ab'')) (file_bytes sample_text 0 9) (m_match_list ml')"
    by (auto simp: MatchList_init_def)
  have c: "file_bytes sample_text 0 9 = ''ab'' @ [NL] @ ''cab'' @ [NL] @ ''ab''" by code_simp
  have "starts_at scanner_init (pcre_match (literal_exec ''ab'')) (''ab'' @ [NL] @ ''cab'' @ [NL] @ ''ab'') 4" by code_simp
  moreover have "content_line (''ab'' @ [NL] @ ''cab'' @ [NL] @ ''ab'') 4 = 2" by code_simp
  ultimately have "2 \<in> m_line_number ` set (m_match_list ml')"
    using exact_matches_complete[OF r(2)[unfolded c], of 4] by auto
  with r(1) show ?thesis by blast
qed

text \<open>A file of 2 GiB that is read in two pieces.\<close>

lemma PCRE_large_file_ends_thread_witness:
  "\<exists>c st'. length c = 2 ^ 30 \<and> run_loop (\<lambda>a n. Some 4096) (file_os 4096 [c, c]) (pcre_scan (literal_exec ''b'') (resolve_CountLinesSinceLastMatch True True True))
       sample_queue \<lparr>t_buffers = sample_buffers, t_ml = MatchList_init, t_out = sync_queue_init\<rparr>
     = Some (Some (RunScan (ScannerException (MatchError (-32)))), st') \<and> t_pushed st' = []"
proof -
  let ?st = "\<lparr>t_buffers = sample_buffers, t_ml = MatchList_init, t_out = sync_queue_init\<rparr>"
  obtain c :: string where c: "length c = 2 ^ 30" using Ex_list_of_length by blast
  have "is_power_of_2 (of_nat (nat (clamp 4096 0x20000 0x100000)) :: 64 word)" by (simp add: is_power_of_2_def clamp_def)
  then have z: "sized (file_os 4096 [c, c]) 2 (t_heap ?st) (2 ^ 31)"
    using c by (simp add: sized_def sample_buffers_ok) (simp add: file_os_def)
  have ok: "thread_ok ?st" using sample_buffers_ok(1,2) by (simp add: thread_ok_def MatchList_init_def sync_queue_init_def)
  have f: "fresh_file 2 (t_heap ?st)" using sample_buffers_ok(3) by simp
  have "\<forall>c l t opt. l < 0 \<longrightarrow> fst (literal_exec ''b'' c l t opt) = -32" by (simp add: literal_exec_def)
  from PCRE_large_file_ends_thread[OF this _ _ sample_queue_fields(1) ok f z,
      of "\<lambda>a n. Some 4096" "resolve_CountLinesSinceLastMatch True True True"]
  obtain st' where "run_loop (\<lambda>a n. Some 4096) (file_os 4096 [c, c]) (pcre_scan (literal_exec ''b'') (resolve_CountLinesSinceLastMatch True True True))
       sample_queue ?st = Some (Some (RunScan (ScannerException (MatchError (-32)))), st')" "t_pushed st' = []"
    by (auto simp: sync_queue_init_def)
  with c show ?thesis by blast
qed

end
