(* ===== verification/ConfigFiles.thy ===== *)
theory ConfigFiles
  imports ScanRun TypeArgs
begin

unbundle bit_operations_syntax

text \<open>
  The configuration files of \<open>src/ArgParse.cpp\<close>: where \<open>ArgParse\<close> looks for \<open>.ucgrc\<close> files
  (\<open>GetProjectRCFilename\<close>, \<open>FindAndParseConfigFiles\<close>) and how the text of one becomes command-line
  parameters (\<open>ConvertRCFileToArgv\<close>). Log output and warnings are not modelled.
\<close>

subsection \<open>The text of a configuration file\<close>

abbreviation CR :: char where
  "CR \<equiv> CHR 0x0D"

definition line_part :: "string \<Rightarrow> string" where
  "line_part text = takeWhile (\<lambda>c. c \<noteq> CR \<and> c \<noteq> NL) text"

definition after_line :: "string \<Rightarrow> string" where
  "after_line text = dropWhile (\<lambda>c. c \<noteq> CR \<and> c \<noteq> NL) text"

text \<open>\<open>ConvertRCFileToArgv\<close> from the position \<open>pos\<close>; parameters are C strings, which end at a NUL.\<close>

function rc_loop :: "string \<Rightarrow> string \<Rightarrow> ArgParseException + string list" where
  "rc_loop name pos =
     (case dropWhile isspace pos of
        [] \<Rightarrow> Inr []
      | c # cs \<Rightarrow>
          if c = CHR ''#'' then rc_loop name (dropWhile (\<lambda>c. c \<noteq> NL) (c # cs))
          else
            (let param = takeWhile (\<lambda>c. c \<noteq> NUL) (line_part (c # cs))
             in if param = ''--'' then Inl (DoubleDashInRCFile param name)
                else if c \<noteq> CHR ''-'' then Inl (NonOptionInRCFile param name)
                else (case rc_loop name (after_line (c # cs)) of
                        Inl e \<Rightarrow> Inl e
                      | Inr params \<Rightarrow> Inr (param # params))))"
  by pat_completeness auto

lemma dropWhile_Cons_shorter:
  assumes "dropWhile P xs = y # ys" and "Q y"
  shows "length (dropWhile Q (y # ys)) < length xs"
proof -
  have "length (dropWhile Q (y # ys)) \<le> length ys" using assms(2) by (simp add: length_dropWhile_le)
  also have "length (y # ys) \<le> length xs" unfolding assms(1)[symmetric] by (rule length_dropWhile_le)
  then have "length ys < length xs" by simp
  finally show ?thesis .
qed

termination rc_loop
proof (relation "measure (\<lambda>(name, pos). length pos)", goal_cases)
  case 1
  then show ?case by simp
next
  case (2 name pos c cs)
  then show ?case using dropWhile_Cons_shorter[OF 2(1), of "\<lambda>c. c \<noteq> NL"] by simp
next
  case (3 name pos c cs param)
  have "\<not> isspace c" using 3(1) by (metis hd_dropWhile list.distinct(1) list.sel(1))
  then have "c \<noteq> CR \<and> c \<noteq> NL" by (auto simp: isspace_def)
  then show ?case using dropWhile_Cons_shorter[OF 3(1), of "\<lambda>c. c \<noteq> CR \<and> c \<noteq> NL"] by (simp add: after_line_def)
qed

declare rc_loop.simps [simp del]

definition ConvertRCFileToArgv :: "string \<Rightarrow> string \<Rightarrow> ArgParseException + string list" where
  "ConvertRCFileToArgv name text = rc_loop name text"

subsection \<open>Finding the files\<close>

lemma portable_dirname_shorter:
  assumes "2 \<le> length p"
  shows "length (portable_dirname p) < length p"
proof -
  define q where "q = strip_slashes p"
  have q: "length q \<le> length p" using length_dropWhile_le[of _ "rev p"] by (simp add: q_def strip_slashes_def)
  have d: "length (strip_slashes (rev (dropWhile (\<lambda>c. c \<noteq> SLASH) (rev q)))) < length p" if "SLASH \<in> set q"
  proof -
    have "dropWhile (\<lambda>c. c \<noteq> SLASH) (rev q) \<noteq> []" using that by auto
    moreover from hd_dropWhile[OF this] have "hd (dropWhile (\<lambda>c. c \<noteq> SLASH) (rev q)) = SLASH" by simp
    ultimately obtain xs where xs: "dropWhile (\<lambda>c. c \<noteq> SLASH) (rev q) = SLASH # xs"
      by (cases "dropWhile (\<lambda>c. c \<noteq> SLASH) (rev q)") auto
    have "length (strip_slashes (rev (SLASH # xs))) \<le> length xs"
      using length_dropWhile_le[of _ xs] by (simp add: strip_slashes_def)
    moreover have "length (SLASH # xs) \<le> length q" unfolding xs[symmetric] using length_dropWhile_le[of _ "rev q"] by simp
    ultimately show ?thesis unfolding xs using q by simp
  qed
  then show ?thesis using assms by (auto simp: portable_dirname_def Let_def q_def[symmetric])
qed

definition rc_name :: "string \<Rightarrow> string" where
  "rc_name dir = (if last dir \<noteq> SLASH then dir @ ''/'' else dir) @ ''.ucgrc''"

definition is_home :: "os \<Rightarrow> int \<Rightarrow> string \<Rightarrow> bool" where
  "is_home s home_fd dir \<longleftrightarrow>
     home_fd \<noteq> -1 \<and> (let cwd_fd = sys_open s dir FAM_RDONLY in cwd_fd \<noteq> -1 \<and> is_same_file s cwd_fd home_fd)"

function project_rc_loop :: "os \<Rightarrow> int \<Rightarrow> string \<Rightarrow> string" where
  "project_rc_loop s home_fd current_cwd =
     (if current_cwd = [] \<or> current_cwd ! 0 = CHR ''.'' then []
      else if is_home s home_fd current_cwd then []
      else if sys_open s (rc_name current_cwd) FAM_RDONLY \<noteq> -1 then rc_name current_cwd
      else if length current_cwd = 1 \<or> length current_cwd \<le> 4 \<and> current_cwd ! 1 = CHR '':'' then []
      else project_rc_loop s home_fd (portable_dirname current_cwd))"
  by pat_completeness auto

termination project_rc_loop
proof (relation "measure (\<lambda>(s, home_fd, p). length p)", goal_cases)
  case (2 s home_fd p)
  then have "2 \<le> length p" by (cases p; cases "tl p") auto
  then show ?case using portable_dirname_shorter by simp
qed simp

declare project_rc_loop.simps [simp del]

text \<open>The environment: the variable \<open>HOME\<close>, the home directory in the user database, the working directory.\<close>

record environment =
  env_HOME :: "string option"
  env_pw_dir :: "string option"
  env_cwd :: "string option"

definition home_descriptor :: "os \<Rightarrow> environment \<Rightarrow> int" where
  "home_descriptor s env =
     (let homedirname = get_home_dir_name (env_HOME env) (env_pw_dir env)
      in if homedirname = [] then -1 else sys_open s homedirname FAM_RDONLY)"

definition GetProjectRCFilename :: "os \<Rightarrow> environment \<Rightarrow> string" where
  "GetProjectRCFilename s env = project_rc_loop s (home_descriptor s env) (get_current_dir_name (env_cwd env))"

text \<open>
  Reading one file: its text, or the exception of the \<open>File\<close> constructor. The objects for the file and for the
  current directory (numbers 1 and 0) are its own.
\<close>

definition rc_file_text :: "(nat \<Rightarrow> nat \<Rightarrow> nat option) \<Rightarrow> os \<Rightarrow> string \<Rightarrow> file_error + string" where
  "rc_file_text alloc s filename =
     (case File_named alloc s filename FAM_RDONLY (FCF_NOATIME OR FCF_NOCTTY)
             \<lparr>b_heap = [], b_storage = ResizableArray_init, b_memory = (\<lambda>_. NUL)\<rparr> of
        (Inl e, _) \<Rightarrow> Inl e
      | (Inr file_data, bs) \<Rightarrow>
          (case File_size s 1 bs of
             None \<Rightarrow> Inl Terminated
           | Some (n, bs) \<Rightarrow>
               Inr (case file_data of None \<Rightarrow> [] | Some b \<Rightarrow> map (b_memory bs) [b..<b + nat n])))"

text \<open>What ends the search: an exception of the text, or one of the file that is not handled.\<close>

datatype config_error = RCText ArgParseException | RCFile file_error

definition rc_file_args :: "(nat \<Rightarrow> nat \<Rightarrow> nat option) \<Rightarrow> os \<Rightarrow> string \<Rightarrow> config_error + string list" where
  "rc_file_args alloc s filename =
     (case rc_file_text alloc s filename of
        Inl e \<Rightarrow> if handled e then Inr [] else Inl (RCFile e)
      | Inr text \<Rightarrow>
          if text = [] then Inr []
          else (case ConvertRCFileToArgv filename text of Inl e \<Rightarrow> Inl (RCText e) | Inr params \<Rightarrow> Inr params))"

definition FindAndParseConfigFiles ::
    "(nat \<Rightarrow> nat \<Rightarrow> nat option) \<Rightarrow> os \<Rightarrow> environment \<Rightarrow> bool \<Rightarrow> config_error + (string list \<times> string list)" where
  "FindAndParseConfigFiles alloc s env test_noenv_user =
     (let homedir = get_home_dir_name (env_HOME env) (env_pw_dir env)
      in case (if \<not> test_noenv_user \<and> homedir \<noteq> [] then rc_file_args alloc s (homedir @ ''/.ucgrc'') else Inr []) of
           Inl e \<Rightarrow> Inl e
         | Inr user_argv \<Rightarrow>
             (let proj_rc_filename = GetProjectRCFilename s env
              in case (if proj_rc_filename \<noteq> [] then rc_file_args alloc s proj_rc_filename else Inr []) of
                   Inl e \<Rightarrow> Inl e
                 | Inr project_argv \<Rightarrow> Inr (user_argv, project_argv)))"

subsection \<open>Lines of a configuration file\<close>

text \<open>What a configuration file is made of: empty lines, comments and parameters, possibly indented.\<close>

datatype rc_line = Blank string | Comment string string | Param string string

primrec render_line :: "rc_line \<Rightarrow> string" where
  "render_line (Blank ws) = ws @ [NL]"
| "render_line (Comment ws t) = ws @ CHR ''#'' # t @ [NL]"
| "render_line (Param ws p) = ws @ p @ [NL]"

primrec line_ok :: "rc_line \<Rightarrow> bool" where
  "line_ok (Blank ws) \<longleftrightarrow> (\<forall>c \<in> set ws. isspace c)"
| "line_ok (Comment ws t) \<longleftrightarrow> (\<forall>c \<in> set ws. isspace c) \<and> NL \<notin> set t"
| "line_ok (Param ws p) \<longleftrightarrow> (\<forall>c \<in> set ws. isspace c) \<and> p \<noteq> [] \<and> hd p = CHR ''-'' \<and> p \<noteq> ''--''
     \<and> NL \<notin> set p \<and> CR \<notin> set p \<and> NUL \<notin> set p"

primrec line_params :: "rc_line \<Rightarrow> string list" where
  "line_params (Blank ws) = []"
| "line_params (Comment ws t) = []"
| "line_params (Param ws p) = [p]"

lemma isspace_NL [simp]: "isspace NL"
  by (simp add: isspace_def)

lemma rc_loop_space: "\<forall>c \<in> set ws. isspace c \<Longrightarrow> rc_loop name (ws @ pos) = rc_loop name pos"
  by (subst (1 2) rc_loop.simps) (simp add: dropWhile_append2)

lemma rc_loop_NL: "rc_loop name (NL # pos) = rc_loop name pos"
  using rc_loop_space[of "[NL]"] by simp

lemma rc_loop_comment:
  assumes "NL \<notin> set t"
  shows "rc_loop name (CHR ''#'' # t @ NL # pos) = rc_loop name pos"
proof -
  have "dropWhile (\<lambda>c. c \<noteq> NL) (t @ NL # pos) = NL # pos" using assms by (simp add: dropWhile_append3 dropWhile_append)
  then show ?thesis using rc_loop_NL by (subst rc_loop.simps) (simp add: isspace_def)
qed

lemma rc_loop_line:
  assumes "\<not> isspace c" and "c \<noteq> CHR ''#''" and "NL \<notin> set (c # p)" and "CR \<notin> set (c # p)"
  shows "rc_loop name ((c # p) @ NL # pos) =
    (let param = takeWhile (\<lambda>c. c \<noteq> NUL) (c # p)
     in if param = ''--'' then Inl (DoubleDashInRCFile param name)
        else if c \<noteq> CHR ''-'' then Inl (NonOptionInRCFile param name)
        else (case rc_loop name pos of Inl e \<Rightarrow> Inl e | Inr params \<Rightarrow> Inr (param # params)))"
proof -
  have P: "\<forall>x \<in> set (c # p). x \<noteq> CR \<and> x \<noteq> NL" using assms(3,4) by auto
  have l: "line_part ((c # p) @ NL # pos) = c # p" "after_line ((c # p) @ NL # pos) = NL # pos"
    unfolding line_part_def after_line_def using P by (subst takeWhile_append2 dropWhile_append2; auto)+
  have d: "dropWhile isspace (c # p @ NL # pos) = c # p @ NL # pos" using assms(1) by simp
  show ?thesis
    unfolding append_Cons rc_loop.simps[of name "c # p @ NL # pos"] d list.case l[unfolded append_Cons] rc_loop_NL
    using assms(2) by (simp only: if_False)
qed

lemma rc_loop_render:
  assumes "line_ok l"
  shows "rc_loop name (render_line l @ pos) = map_sum id (\<lambda>ps. line_params l @ ps) (rc_loop name pos)"
proof (cases l)
  case (Blank ws)
  then show ?thesis using assms rc_loop_space rc_loop_NL by (cases "rc_loop name pos") auto
next
  case (Comment ws t)
  then show ?thesis using assms rc_loop_space[of ws name "CHR ''#'' # t @ NL # pos"] rc_loop_comment
    by (cases "rc_loop name pos") auto
next
  case (Param ws p)
  then obtain q where p: "p = CHR ''-'' # q" using assms by (cases p) auto
  have "takeWhile (\<lambda>c. c \<noteq> NUL) p = p" using assms Param by (auto simp: takeWhile_eq_all_conv)
  note u = this
  have "rc_loop name (p @ NL # pos) = (case rc_loop name pos of Inl e \<Rightarrow> Inl e | Inr params \<Rightarrow> Inr (p # params))"
    using rc_loop_line[of "CHR ''-''" q name pos] assms Param u unfolding p by (simp only: isspace_def Let_def) simp
  then show ?thesis
    using Param assms rc_loop_space[of ws name "p @ NL # pos"] by (cases "rc_loop name pos") auto
qed

lemma rc_lines:
  "\<forall>l \<in> set ls. line_ok l \<Longrightarrow>
     rc_loop name (concat (map render_line ls) @ pos) = map_sum id (\<lambda>ps. concat (map line_params ls) @ ps) (rc_loop name pos)"
proof (induction ls)
  case Nil
  then show ?case by (cases "rc_loop name pos") auto
next
  case (Cons l ls)
  then show ?case using rc_loop_render[of l name "concat (map render_line ls) @ pos"]
    by (cases "rc_loop name pos") auto
qed

subsection \<open>Directories above the working directory\<close>

text \<open>The absolute path with the given components.\<close>

definition dir_of :: "string list \<Rightarrow> string" where
  "dir_of comps = (if comps = [] then ''/'' else concat (map (\<lambda>c. SLASH # c) comps))"

definition components_ok :: "string list \<Rightarrow> bool" where
  "components_ok comps \<longleftrightarrow> (\<forall>c \<in> set comps. c \<noteq> [] \<and> SLASH \<notin> set c) \<and> (comps \<noteq> [] \<longrightarrow> hd (hd comps) \<noteq> CHR '':'')"

lemma components_ok_snoc: "components_ok (cs @ [c]) \<Longrightarrow> components_ok cs \<and> c \<noteq> [] \<and> SLASH \<notin> set c"
  by (auto simp: components_ok_def)

lemma strip_slashes_id: "q \<noteq> [] \<Longrightarrow> last q \<noteq> SLASH \<Longrightarrow> strip_slashes q = q"
  by (metis append_butlast_last_id strip_slashes_snoc)

lemma dirname_dir_of:
  assumes "components_ok (cs @ [c])"
  shows "portable_dirname (dir_of (cs @ [c])) = dir_of cs"
proof -
  note c = components_ok_snoc[OF assms]
  let ?x = "concat (map (\<lambda>c. SLASH # c) cs)"
  have d: "dir_of (cs @ [c]) = ?x @ SLASH # c" by (simp add: dir_of_def)
  have "last (?x @ SLASH # c) \<noteq> SLASH" using c by (metis last_ConsR last_appendR last_in_set list.distinct(1))
  then have s: "strip_slashes (?x @ SLASH # c) = ?x @ SLASH # c" by (intro strip_slashes_id) simp_all
  have "rev (dropWhile (\<lambda>c. c \<noteq> SLASH) (rev (?x @ SLASH # c))) = ?x @ [SLASH]"
    using c by (simp add: dropWhile_append3 dropWhile_append)
  then have e: "strip_slashes (rev (dropWhile (\<lambda>c. c \<noteq> SLASH) (rev (?x @ SLASH # c)))) = strip_slashes ?x" by simp
  have "strip_slashes ?x = ?x"
  proof (cases cs rule: rev_cases)
    case (snoc ds d)
    then have "d \<noteq> [] \<and> SLASH \<notin> set d" using c components_ok_snoc by blast
    then have "d \<noteq> []" "last d \<noteq> SLASH" using last_in_set by metis+
    then have "last ?x \<noteq> SLASH" using snoc by simp
    then show ?thesis using snoc by (intro strip_slashes_id) simp_all
  qed simp
  then show ?thesis using e s unfolding d by (simp add: portable_dirname_def Let_def dir_of_def)
qed

lemma dir_of_head: "dir_of comps \<noteq> []" "dir_of comps ! 0 = SLASH"
  by (cases comps; simp add: dir_of_def)+

lemma dir_of_second:
  assumes "components_ok comps" and "comps \<noteq> []"
  shows "2 \<le> length (dir_of comps)" and "dir_of comps ! 1 \<noteq> CHR '':''"
  using assms by (cases comps; cases "hd comps"; auto simp: dir_of_def components_ok_def)+

text \<open>Where the walk from the working directory stops: at the home directory, or at a configuration file.\<close>

definition stops_at :: "os \<Rightarrow> int \<Rightarrow> string \<Rightarrow> bool" where
  "stops_at s home_fd dir \<longleftrightarrow> is_home s home_fd dir \<or> sys_open s (rc_name dir) FAM_RDONLY \<noteq> -1"

lemma project_rc_walk:
  assumes "components_ok comps"
  shows "(\<forall>k \<le> length comps. stops_at s home_fd (dir_of (take k comps))
        \<and> (\<forall>j. k < j \<and> j \<le> length comps \<longrightarrow> \<not> stops_at s home_fd (dir_of (take j comps)))
      \<longrightarrow> project_rc_loop s home_fd (dir_of comps)
        = (if is_home s home_fd (dir_of (take k comps)) then [] else rc_name (dir_of (take k comps))))
    \<and> ((\<forall>j \<le> length comps. \<not> stops_at s home_fd (dir_of (take j comps))) \<longrightarrow> project_rc_loop s home_fd (dir_of comps) = [])"
  using assms
proof (induction comps rule: rev_induct)
  case Nil
  then show ?case by (subst (1 2) project_rc_loop.simps) (auto simp: dir_of_def stops_at_def)
next
  case (snoc c cs)
  let ?d = "dir_of (cs @ [c])"
  have ok: "components_ok cs" using components_ok_snoc[OF snoc.prems] by blast
  note IH = snoc.IH[OF ok]
  have up: "project_rc_loop s home_fd ?d = project_rc_loop s home_fd (dir_of cs)" if "\<not> stops_at s home_fd ?d"
    using that dir_of_head[of "cs @ [c]"] dir_of_second[OF snoc.prems] dirname_dir_of[OF snoc.prems]
    by (subst project_rc_loop.simps) (auto simp: stops_at_def)
  have "project_rc_loop s home_fd ?d = (if is_home s home_fd (dir_of (take k (cs @ [c]))) then [] else rc_name (dir_of (take k (cs @ [c]))))"
    if k: "k \<le> length (cs @ [c])" "stops_at s home_fd (dir_of (take k (cs @ [c])))"
      "\<forall>j. k < j \<and> j \<le> length (cs @ [c]) \<longrightarrow> \<not> stops_at s home_fd (dir_of (take j (cs @ [c])))" for k
  proof (cases "k = length (cs @ [c])")
    case True
    then show ?thesis using k(2) dir_of_head[of "cs @ [c]"] by (subst project_rc_loop.simps) (auto simp: stops_at_def)
  next
    case False
    then have kc: "k \<le> length cs" using k(1) by simp
    have "\<not> stops_at s home_fd ?d" using k(3) kc by (auto dest!: spec[where x = "length (cs @ [c])"])
    moreover have "\<forall>j. k < j \<and> j \<le> length cs \<longrightarrow> \<not> stops_at s home_fd (dir_of (take j cs))"
    proof (intro allI impI)
      fix j
      assume "k < j \<and> j \<le> length cs"
      then show "\<not> stops_at s home_fd (dir_of (take j cs))" using k(3)[rule_format, of j] by simp
    qed
    ultimately show ?thesis using up IH[THEN conjunct1, rule_format, of k] k(2) kc by simp
  qed
  moreover have "project_rc_loop s home_fd ?d = []" if n: "\<forall>j \<le> length (cs @ [c]). \<not> stops_at s home_fd (dir_of (take j (cs @ [c])))"
  proof -
    have "\<not> stops_at s home_fd ?d" using n[rule_format, of "length (cs @ [c])"] by simp
    moreover have "\<not> stops_at s home_fd (dir_of (take j cs))" if "j \<le> length cs" for j
      using n[rule_format, of j] that by simp
    ultimately show ?thesis using up IH by simp
  qed
  ultimately show ?case by blast
qed

subsection \<open>Properties\<close>

text \<open>
  C36. Writing command-line parameters to a configuration file, one to a line and with any blank lines,
  comments and indentation between them, and reading the file back gives the parameters in their order.
\<close>

theorem rc_file_roundtrip:
  assumes "\<forall>l \<in> set ls. line_ok l"
  shows "ConvertRCFileToArgv name (concat (map render_line ls)) = Inr (concat (map line_params ls))"
  using rc_lines[OF assms, of name "[]"] by (simp add: ConvertRCFileToArgv_def rc_loop.simps)

text \<open>
  The first line that is neither blank nor a comment and does not begin with a dash, or is a double dash
  alone, makes the file as a whole be rejected, with that line in the exception.
\<close>

theorem rc_file_first_bad_line:
  assumes "\<forall>l \<in> set ls. line_ok l" and "\<forall>c \<in> set ws. isspace c" and "bad \<noteq> []" and "\<not> isspace (hd bad)" and "hd bad \<noteq> CHR ''#''"
    and "NL \<notin> set bad" and "CR \<notin> set bad" and "NUL \<notin> set bad" and "hd bad \<noteq> CHR ''-'' \<or> bad = ''--''"
  shows "ConvertRCFileToArgv name (concat (map render_line ls) @ ws @ bad @ [NL] @ rest)
    = Inl (if bad = ''--'' then DoubleDashInRCFile bad name else NonOptionInRCFile bad name)"
proof -
  obtain c p where b: "bad = c # p" using assms(3) by (cases bad) auto
  have "takeWhile (\<lambda>c. c \<noteq> NUL) bad = bad" using assms(8) by (auto simp: takeWhile_eq_all_conv)
  then have "rc_loop name (ws @ bad @ NL # rest) = Inl (if bad = ''--'' then DoubleDashInRCFile bad name else NonOptionInRCFile bad name)"
    using rc_loop_space[OF assms(2)] rc_loop_line[of c p name rest] assms(4-9) b by (auto simp: Let_def)
  then show ?thesis using rc_lines[OF assms(1)] by (simp add: ConvertRCFileToArgv_def)
qed

text \<open>
  C24. The project configuration file is looked for in the working directory and the directories above it, from
  the inside outwards. The walk stops at the first of them that is the home directory or has a \<open>.ucgrc\<close> that can be
  opened; the file is taken unless that directory is the home directory. Without such a directory there is none.
\<close>

theorem project_rc_is_nearest:
  assumes "components_ok comps" and "env_cwd env = Some (dir_of comps)"
  shows "(\<forall>k \<le> length comps. stops_at s (home_descriptor s env) (dir_of (take k comps))
        \<and> (\<forall>j. k < j \<and> j \<le> length comps \<longrightarrow> \<not> stops_at s (home_descriptor s env) (dir_of (take j comps)))
      \<longrightarrow> GetProjectRCFilename s env
        = (if is_home s (home_descriptor s env) (dir_of (take k comps)) then [] else rc_name (dir_of (take k comps))))
    \<and> ((\<forall>j \<le> length comps. \<not> stops_at s (home_descriptor s env) (dir_of (take j comps))) \<longrightarrow> GetProjectRCFilename s env = [])"
  using project_rc_walk[OF assms(1)] assms(2) by (simp add: GetProjectRCFilename_def get_current_dir_name_def)

subsection \<open>Instances\<close>

lemma rc_file_roundtrip_witness:
  "ConvertRCFileToArgv ''.ucgrc'' (''# Options'' @ [NL, NL] @ ''  --noenv'' @ [NL]) = Inr [''--noenv'']"
proof -
  have "\<forall>l \<in> set [Comment [] '' Options'', Blank [], Param ''  '' ''--noenv'']. line_ok l" by code_simp
  from rc_file_roundtrip[OF this] show ?thesis by simp
qed

lemma rc_file_first_bad_line_witness:
  "ConvertRCFileToArgv ''.ucgrc'' (''--noenv'' @ [NL] @ ''main'' @ [NL]) = Inl (NonOptionInRCFile ''main'' ''.ucgrc'')"
proof -
  have "\<forall>l \<in> set [Param [] ''--noenv'']. line_ok l" by code_simp
  from rc_file_first_bad_line[OF this, of "[]" "''main''" "''.ucgrc''" "[]"] show ?thesis by (simp add: isspace_def)
qed

text \<open>A working directory two levels below the home directory, with a configuration file in between.\<close>

definition rc_os :: os where
  "rc_os = sample_os
     \<lparr>sys_open := (\<lambda>p fl. if p = ''/home/me'' then 4 else if p = ''/home/me/proj/.ucgrc'' then 5 else if p = ''/home/me/.ucgrc'' then 6 else -1),
      sys_fstat := (\<lambda>fd. Some \<lparr>st_mode = S_IFDIR, st_dev = 1, st_ino = (if fd = 4 then 1 else 2), st_size = 0, st_blksize = 4096, st_blocks = 1\<rparr>)\<rparr>"

definition rc_env :: environment where
  "rc_env = \<lparr>env_HOME = Some ''/home/me'', env_pw_dir = None, env_cwd = Some ''/home/me/proj/src''\<rparr>"

lemma project_rc_is_nearest_witness: "GetProjectRCFilename rc_os rc_env = ''/home/me/proj/.ucgrc''"
proof -
  let ?comps = "[''home'', ''me'', ''proj'', ''src'']"
  have h: "home_descriptor rc_os rc_env = 4" by code_simp
  have ok: "components_ok ?comps" "env_cwd rc_env = Some (dir_of ?comps)" by code_simp+
  have "stops_at rc_os 4 (dir_of (take 3 ?comps))" "\<not> is_home rc_os 4 (dir_of (take 3 ?comps))" "\<not> stops_at rc_os 4 (dir_of (take 4 ?comps))"
    by code_simp+
  moreover from this have "\<forall>j. 3 < j \<and> j \<le> length ?comps \<longrightarrow> \<not> stops_at rc_os 4 (dir_of (take j ?comps))"
    by (auto simp: le_Suc_eq numeral_eq_Suc)
  ultimately have "GetProjectRCFilename rc_os rc_env = rc_name (dir_of (take 3 ?comps))"
    using project_rc_is_nearest[OF ok, of rc_os, unfolded h, THEN conjunct1, rule_format, of 3] by simp
  also have "\<dots> = ''/home/me/proj/.ucgrc''" by code_simp
  finally show ?thesis .
qed

end
