(* ===== verification/OptionTable.thy ===== *)
theory OptionTable
  imports StringUtil
begin

text \<open>
  The command-line options of \<open>src/ArgParse.cpp\<close>: the checkers for their arguments (\<open>struct Arg\<close>), the table
  \<open>f_raw_options\<close>, and the descriptors the option parser library gets for it, with an entry of their own for
  aliases and for the forms \<open>--opt\<close>, \<open>--noopt\<close> and \<open>--no-opt\<close> (\<open>struct PreDescriptor\<close>).
\<close>

subsection \<open>Keys and types\<close>

text \<open>\<open>OPT_RESERVED\<close> is \<open>OPT_UNKNOWN\<close>; \<open>OPT_SECTION\<close> is the index of all text rows.\<close>

datatype OPT =
    OPT_UNKNOWN | OPT_SECTION | OPT_IGNORE_CASE | OPT_SMART_CASE | OPT_HANDLE_CASE | OPT_LITERAL | OPT_WORDREGEX
  | OPT_COLOR | OPT_PREFIX_FILE | OPT_NULLSEP | OPT_IGNORE_DIR | OPT_IGNORE_FILE | OPT_INCLUDE | OPT_EXCLUDE
  | OPT_FOLLOW | OPT_RECURSE_SUBDIRS | OPT_ONLY_KNOWN_TYPES | OPT_TYPE | OPT_NOENV | OPT_TYPE_SET | OPT_TYPE_ADD
  | OPT_TYPE_DEL | OPT_PERF_DIRJOBS | OPT_PERF_SCANJOBS | OPT_HELP | OPT_HELP_TYPES | OPT_USAGE | OPT_VERSION
  | OPT_LINE_NUMBER | OPT_COLUMN | OPT_TEST_LOG_ALL | OPT_TEST_NOENV_USER | OPT_TEST_USE_MMAP | OPT_BRACKET_NO_STANDIN

definition DISABLE :: int where "DISABLE = 0"
definition ENABLE :: int where "ENABLE = 1"
definition IGNORE :: int where "IGNORE = 1"
definition SMART_CASE :: int where "SMART_CASE = 2"
definition NO_SMART_CASE :: int where "NO_SMART_CASE = 3"

lemmas option_types = DISABLE_def ENABLE_def IGNORE_def SMART_CASE_def NO_SMART_CASE_def

subsection \<open>Argument checkers\<close>

datatype arg_status = ARG_NONE | ARG_OK | ARG_ILLEGAL

text \<open>
  \<open>strtol\<close> in base 10 without the saturation: the number, if there is one, and what is left of the string. The
  type \<open>long\<close> has 64 bits, \<open>int\<close> 32.
\<close>

definition is_digit :: "char \<Rightarrow> bool" where
  "is_digit c \<longleftrightarrow> CHR ''0'' \<le> c \<and> c \<le> CHR ''9''"

definition digits_value :: "string \<Rightarrow> int" where
  "digits_value ds = foldl (\<lambda>n d. 10 * n + (int (of_char d) - 48)) 0 ds"

definition scan_number :: "string \<Rightarrow> int option \<times> string" where
  "scan_number s =
     (let t = dropWhile isspace s;
          (neg, u) = (case t of
                        [] \<Rightarrow> (False, [])
                      | c # cs \<Rightarrow> if c = CHR ''-'' then (True, cs) else if c = CHR ''+'' then (False, cs) else (False, t));
          ds = takeWhile is_digit u
      in if ds = [] then (None, s)
         else (Some (if neg then - digits_value ds else digits_value ds), dropWhile is_digit u))"

text \<open>\<open>std::stol\<close> and \<open>std::stoi\<close>: \<open>None\<close> is an exception, \<open>std::invalid_argument\<close> or \<open>std::out_of_range\<close>.\<close>

definition in_range :: "nat \<Rightarrow> int option \<Rightarrow> int option" where
  "in_range w v =
     (case v of None \<Rightarrow> None | Some n \<Rightarrow> if - (2 ^ (w - 1)) \<le> n \<and> n < 2 ^ (w - 1) then Some n else None)"

definition stol :: "string \<Rightarrow> int option" where
  "stol s = in_range 64 (fst (scan_number s))"

definition stoi :: "string \<Rightarrow> int option" where
  "stoi s = in_range 32 (fst (scan_number s))"

text \<open>The checkers on the name and the argument of an option, null pointers as \<open>None\<close>.\<close>

definition Arg_Unknown :: "string option \<Rightarrow> string option \<Rightarrow> arg_status" where
  "Arg_Unknown name arg = ARG_ILLEGAL"

definition Arg_UnknownArgHook :: "string option \<Rightarrow> string option \<Rightarrow> arg_status" where
  "Arg_UnknownArgHook name arg = (if name \<noteq> None then ARG_NONE else ARG_ILLEGAL)"

definition Arg_Required :: "string option \<Rightarrow> string option \<Rightarrow> arg_status" where
  "Arg_Required name arg = (if arg \<noteq> None then ARG_OK else ARG_ILLEGAL)"

definition Arg_NonEmpty :: "string option \<Rightarrow> string option \<Rightarrow> arg_status" where
  "Arg_NonEmpty name arg = (if arg \<noteq> None \<and> arg \<noteq> Some [] then ARG_OK else ARG_ILLEGAL)"

definition Arg_Numeric :: "string option \<Rightarrow> string option \<Rightarrow> arg_status" where
  "Arg_Numeric name arg =
     (case arg of
        None \<Rightarrow> ARG_ILLEGAL
      | Some a \<Rightarrow> (case scan_number a of (v, rest) \<Rightarrow> if v \<noteq> None \<and> rest = [] then ARG_OK else ARG_ILLEGAL))"

definition Arg_IntegerGreater :: "int \<Rightarrow> string option \<Rightarrow> string option \<Rightarrow> arg_status" where
  "Arg_IntegerGreater limit name arg =
     (case arg of
        None \<Rightarrow> ARG_ILLEGAL
      | Some a \<Rightarrow> (case stol a of None \<Rightarrow> ARG_ILLEGAL | Some v \<Rightarrow> if v > limit then ARG_OK else ARG_ILLEGAL))"

text \<open>The function pointers the table holds; \<open>Check_None\<close> is the library's own.\<close>

datatype check_arg = Check_None | Check_Unknown | Check_NonEmpty | Check_IntegerGreater0

primrec run_check :: "check_arg \<Rightarrow> string option \<Rightarrow> string option \<Rightarrow> arg_status" where
  "run_check Check_None = (\<lambda>name arg. ARG_NONE)"
| "run_check Check_Unknown = Arg_Unknown"
| "run_check Check_NonEmpty = Arg_NonEmpty"
| "run_check Check_IntegerGreater0 = Arg_IntegerGreater 0"

subsection \<open>Descriptors\<close>

record predescriptor =
  m_index :: OPT
  m_type :: int
  m_notype :: int
  m_shortopts :: string
  m_longopts :: string
  m_argname :: string
  m_check_arg :: check_arg
  m_help :: string
  m_is_hidden :: bool
  m_is_bracket_no :: bool

text \<open>The constructors: an option, an option with an argument name, \<open>--[no]opt\<close>, a hidden option, text.\<close>

definition option_row :: "OPT \<Rightarrow> int \<Rightarrow> string \<Rightarrow> string \<Rightarrow> string \<Rightarrow> check_arg \<Rightarrow> string \<Rightarrow> predescriptor" where
  "option_row index type shortopts longopts argname check_arg help =
     \<lparr>m_index = index, m_type = type, m_notype = 0, m_shortopts = shortopts, m_longopts = longopts, m_argname = argname,
      m_check_arg = check_arg, m_help = help, m_is_hidden = False, m_is_bracket_no = False\<rparr>"

definition plain_row :: "OPT \<Rightarrow> int \<Rightarrow> string \<Rightarrow> string \<Rightarrow> check_arg \<Rightarrow> string \<Rightarrow> predescriptor" where
  "plain_row index type shortopts longopts check_arg help = option_row index type shortopts longopts [] check_arg help"

definition bracket_no_row :: "OPT \<Rightarrow> int \<Rightarrow> int \<Rightarrow> string \<Rightarrow> string \<Rightarrow> string \<Rightarrow> check_arg \<Rightarrow> string \<Rightarrow> predescriptor" where
  "bracket_no_row index yestype notype shortopts longopts argname check_arg help =
     (option_row index yestype shortopts longopts argname check_arg help)\<lparr>m_notype := notype, m_is_bracket_no := True\<rparr>"

definition hidden_row :: "OPT \<Rightarrow> int \<Rightarrow> string \<Rightarrow> string \<Rightarrow> string \<Rightarrow> check_arg \<Rightarrow> string \<Rightarrow> predescriptor" where
  "hidden_row index type shortopts longopts argname check_arg help =
     (option_row index type shortopts longopts argname check_arg help)\<lparr>m_is_hidden := True\<rparr>"

definition text_row :: "string \<Rightarrow> predescriptor" where
  "text_row arbitrary_text = option_row OPT_SECTION 0 [] [] [] Check_None arbitrary_text"

definition section_row :: "string \<Rightarrow> predescriptor" where
  "section_row section_header_name = text_row ([NL, CHR '' ''] @ section_header_name)"

definition hidden_text_row :: "string \<Rightarrow> predescriptor" where
  "hidden_text_row arbitrary_text = (text_row [])\<lparr>m_is_hidden := True\<rparr>"

definition IsHidden :: "predescriptor \<Rightarrow> bool" where
  "IsHidden p = m_is_hidden p"

definition IsBracketNo :: "predescriptor \<Rightarrow> bool" where
  "IsBracketNo p = m_is_bracket_no p"

definition HasLongAliases :: "predescriptor \<Rightarrow> bool" where
  "HasLongAliases p \<longleftrightarrow> CHR '','' \<in> set (m_longopts p)"

text \<open>A descriptor of the library.\<close>

record descriptor =
  u_index :: OPT
  u_type :: int
  u_shortopt :: string
  u_longopt :: string
  u_check_arg :: check_arg
  u_help :: "string option"

definition TAB :: char where
  "TAB = CHR 0x09"

definition formatted_help :: "predescriptor \<Rightarrow> string option" where
  "formatted_help p =
     (if IsHidden p then None
      else
        (let short = (m_shortopts p \<noteq> []); long = (m_longopts p \<noteq> [])
         in if (short \<or> long) \<and> m_help p \<noteq> [] then
              Some (''  '' @ [TAB]
                @ (if short then ''-'' @ join (split (m_shortopts p) (CHR '','')) '', -'' else [])
                @ (if short \<and> long then '', '' else [])
                @ (if long
                   then ''--'' @ join (map (\<lambda>opt. if m_argname p \<noteq> [] then opt @ ''='' @ m_argname p else opt)
                                      (split (m_longopts p) (CHR '',''))) '', --''
                   else [])
                @ ''      '' @ [TAB] @ m_help p)
            else Some (m_help p)))"

definition to_descriptor :: "predescriptor \<Rightarrow> descriptor" where
  "to_descriptor p =
     \<lparr>u_index = m_index p, u_type = m_type p, u_shortopt = m_shortopts p,
      u_longopt = drop (if IsBracketNo p then 4 else 0)
                    (if HasLongAliases p then takeWhile (\<lambda>c. c \<noteq> CHR '','') (m_longopts p) else m_longopts p),
      u_check_arg = m_check_arg p, u_help = formatted_help p\<rparr>"

definition alias_entry :: "predescriptor \<Rightarrow> int \<Rightarrow> string \<Rightarrow> descriptor" where
  "alias_entry p type longopt =
     \<lparr>u_index = m_index p, u_type = type, u_shortopt = [], u_longopt = longopt, u_check_arg = m_check_arg p, u_help = None\<rparr>"

definition no_entries :: "predescriptor \<Rightarrow> string \<Rightarrow> descriptor list" where
  "no_entries p longopt = [alias_entry p (m_notype p) (''no-'' @ longopt), alias_entry p (m_notype p) (''no'' @ longopt)]"

definition PushAliasDescriptors :: "predescriptor \<Rightarrow> descriptor list" where
  "PushAliasDescriptors p =
     concat (map (\<lambda>it.
         let long_alias = (if IsBracketNo p then drop 4 it else it)
         in (if IsBracketNo p then no_entries p long_alias else []) @ [alias_entry p (m_type p) long_alias])
       (tl (split (m_longopts p) (CHR '',''))))"

definition PushBracketNoDescriptors :: "predescriptor \<Rightarrow> descriptor list" where
  "PushBracketNoDescriptors p = no_entries p (drop 4 (hd (split (m_longopts p) (CHR '',''))))"

text \<open>The constructor of \<open>ArgParse\<close>: the list of descriptors, without the entry that ends it.\<close>

definition dynamic_usage :: "predescriptor list \<Rightarrow> descriptor list" where
  "dynamic_usage raw_options =
     map to_descriptor raw_options
     @ concat (map PushAliasDescriptors (filter HasLongAliases raw_options))
     @ concat (map PushBracketNoDescriptors (filter IsBracketNo raw_options))"

subsection \<open>The table\<close>

abbreviation SQ :: char where
  "SQ \<equiv> CHR 0x27"

definition f_args_doc :: string where
  "f_args_doc = ''PATTERN [FILES OR DIRECTORIES]''"

definition f_doc_head :: string where
  "f_doc_head = NL # ''ucg: the UniversalCodeGrep code search tool.''"

definition f_doc_tail :: string where
  "f_doc_tail = ''Exit status is 0 if any matches were found, 1 if no matches, 2 or greater on error.''"

definition f_raw_options :: "string \<Rightarrow> predescriptor list" where
  "f_raw_options bug_address = [
     hidden_row OPT_UNKNOWN 0 [] [] [] Check_Unknown [],
     text_row (''Usage: ucg [OPTION...] '' @ f_args_doc),
     text_row f_doc_head,
     section_row ''Searching:'',
     bracket_no_row OPT_HANDLE_CASE SMART_CASE NO_SMART_CASE [] ''[no]smart-case'' [] Check_None
       ''Ignore case if PATTERN is all lowercase (default: enabled).'',
     plain_row OPT_HANDLE_CASE IGNORE ''i'' ''ignore-case'' Check_None ''Ignore case distinctions in PATTERN.'',
     plain_row OPT_WORDREGEX 0 ''w'' ''word-regexp'' Check_None ''PATTERN must match a complete word.'',
     plain_row OPT_LITERAL 0 ''Q'' ''literal'' Check_None ''Treat all characters in PATTERN as literal.'',
     section_row ''Search Output:'',
     plain_row OPT_PREFIX_FILE ENABLE ''H'' ''with-filename'' Check_None ''Prefix the result with the file name.'',
     plain_row OPT_PREFIX_FILE DISABLE ''h'' ''no-with-filename'' Check_None
       ''Prefix the file name on a separate line before matches (default).'',
     plain_row OPT_LINE_NUMBER ENABLE ''n'' ''line-number'' Check_None ''Print the line number of each match (default).'',
     plain_row OPT_LINE_NUMBER DISABLE [] ''no-line-number'' Check_None (''Don'' @ [SQ] @ ''t print the line number.''),
     plain_row OPT_COLUMN ENABLE [] ''column'' Check_None ''Print column of first match after line number.'',
     plain_row OPT_COLUMN DISABLE [] ''nocolumn'' Check_None (''Don'' @ [SQ] @ ''t print column of first match (default).''),
     section_row ''File presentation:'',
     plain_row OPT_COLOR ENABLE [] ''color,colour'' Check_None ''Render the output with ANSI color codes.'',
     plain_row OPT_COLOR DISABLE [] ''nocolor,nocolour'' Check_None ''Render the output without ANSI color codes.'',
     plain_row OPT_NULLSEP ENABLE [] ''null'' Check_None
       (''Print a zero character '' @ [SQ, CHR 0x5C, CHR ''0'', SQ] @ '' instead of a colon '' @ [SQ] @ '':'' @ [SQ] @ '' after a file name.''),
     section_row ''File/directory inclusion/exclusion:'',
     bracket_no_row OPT_IGNORE_DIR ENABLE DISABLE [] ''[no]ignore-dir,[no]ignore-directory'' ''NAME'' Check_NonEmpty
       ''[Do not] exclude directories with NAME.'',
     option_row OPT_INCLUDE 0 [] ''include'' ''GLOB'' Check_NonEmpty ''Only files matching GLOB will be searched.'',
     option_row OPT_EXCLUDE 0 [] ''exclude,ignore'' ''GLOB'' Check_NonEmpty ''Files matching GLOB will be ignored.'',
     option_row OPT_IGNORE_FILE 0 [] ''ignore-file'' ''FILTER:FILTERARGS'' Check_NonEmpty
       ''Files matching FILTER:FILTERARGS (e.g. ext:txt,cpp) will be ignored.'',
     plain_row OPT_RECURSE_SUBDIRS ENABLE ''r,R'' ''recurse'' Check_None ''Recurse into subdirectories (default: on).'',
     plain_row OPT_RECURSE_SUBDIRS DISABLE [] ''no-recurse'' Check_None ''Do not recurse into subdirectories.'',
     bracket_no_row OPT_FOLLOW ENABLE DISABLE [] ''[no]follow'' [] Check_None ''[Do not] follow symlinks (default: nofollow).'',
     plain_row OPT_ONLY_KNOWN_TYPES ENABLE ''k'' ''known-types'' Check_None ''Only search in files of recognized types (default: on).'',
     option_row OPT_TYPE ENABLE [] ''type'' ''[no]TYPE'' Check_NonEmpty
       ''Include only [exclude all] TYPE files.  Types may also be specified as --[no]TYPE.'',
     section_row ''File type specification:'',
     option_row OPT_TYPE_SET 0 [] ''type-set'' ''TYPE:FILTER:FILTERARGS'' Check_NonEmpty
       ''Files FILTERed with the given FILTERARGS are treated as belonging to type TYPE.  Any existing definition of type TYPE is replaced.'',
     option_row OPT_TYPE_ADD 0 [] ''type-add'' ''TYPE:FILTER:FILTERARGS'' Check_NonEmpty
       ''Files FILTERed with the given FILTERARGS are treated as belonging to type TYPE.  Any existing definition of type TYPE is appended to.'',
     option_row OPT_TYPE_DEL 0 [] ''type-del'' ''TYPE'' Check_NonEmpty ''Remove any existing definition of type TYPE.'',
     section_row ''Performance tuning:'',
     option_row OPT_PERF_DIRJOBS 0 [] ''dirjobs'' ''NUM_JOBS'' Check_IntegerGreater0
       ''Number of directory traversal jobs (std::thread<>s) to use.'',
     option_row OPT_PERF_SCANJOBS 0 ''j'' ''jobs'' ''NUM_JOBS'' Check_IntegerGreater0 ''Number of scanner jobs (std::thread<>s) to use.'',
     section_row ''Miscellaneous:'',
     plain_row OPT_NOENV 0 [] ''noenv'' Check_None ''Ignore .ucgrc configuration files.'',
     section_row ''Informational options:'',
     plain_row OPT_HELP 0 ''?'' ''help'' Check_None ''Give this help list'',
     plain_row OPT_HELP_TYPES 0 [] ''help-types,list-file-types'' Check_None ''Print list of supported file types.'',
     plain_row OPT_USAGE 0 [] ''usage'' Check_None ''Give a short usage message'',
     plain_row OPT_VERSION 0 ''V'' ''version'' Check_None ''Print program version'',
     hidden_text_row ''Hidden Options:'',
     hidden_row OPT_TEST_LOG_ALL 0 [] ''test-log-all'' [] Check_None ''Enable all logging output.'',
     hidden_row OPT_TEST_NOENV_USER 0 [] ''test-noenv-user'' [] Check_None (''Don'' @ [SQ] @ ''t search for or use $HOME/.ucgrc.''),
     hidden_row OPT_TEST_USE_MMAP 0 [] ''test-use-mmap'' [] Check_None ''Use mmap() to access files being searched.'',
     text_row ([NL] @ ''Mandatory or optional arguments to long options are also mandatory or optional for any corresponding short options.'' @ [NL]),
     text_row (f_doc_tail @ [NL]),
     text_row (''Report bugs to '' @ bug_address @ ''.'')]"

end
