(* ===== verification/OptionParser.thy ===== *)
theory OptionParser
  imports OptionTable
begin

text \<open>
  The option parser \<open>ArgParse\<close> calls, \<open>Parser::workhorse\<close> of the library in
  \<open>third_party/optionparser-1.7/src/optionparser.h\<close>, as it is called: options and other arguments may be mixed,
  long options have two dashes and can be abbreviated to two or more characters. The list of descriptors stands
  for the array up to the entry that ends it. Messages and the buffers are not modelled.
\<close>

subsection \<open>Finding the descriptor\<close>

definition ends_name :: "string \<Rightarrow> bool" where
  "ends_name rest \<longleftrightarrow> (case rest of [] \<Rightarrow> True | c # _ \<Rightarrow> c = CHR ''='')"

fun common :: "string \<Rightarrow> string \<Rightarrow> nat" where
  "common (a # as) (b # bs) = (if a = b then Suc (common as bs) else 0)"
| "common _ _ = 0"

definition streq :: "string \<Rightarrow> string \<Rightarrow> bool" where
  "streq st1 st2 \<longleftrightarrow> common st1 st2 = length st1 \<and> ends_name (drop (length st1) st2)"

definition streqabbr :: "string \<Rightarrow> string \<Rightarrow> nat \<Rightarrow> bool" where
  "streqabbr st1 st2 min_len \<longleftrightarrow>
     (common st1 st2 = length st1 \<or> 0 < min_len \<and> min_len \<le> common st1 st2) \<and> ends_name (drop (common st1 st2) st2)"

definition dummy_entry :: "descriptor list \<Rightarrow> descriptor option" where
  "dummy_entry usage = find (\<lambda>d. u_shortopt d = [] \<and> u_longopt d = []) usage"

text \<open>An abbreviation is accepted when exactly one entry of the array matches it; unknown options get the dummy entry.\<close>

definition find_long :: "descriptor list \<Rightarrow> string \<Rightarrow> descriptor option" where
  "find_long usage longopt_name =
     (case find (\<lambda>d. streq (u_longopt d) longopt_name) usage of
        Some d \<Rightarrow> Some d
      | None \<Rightarrow>
          (case filter (\<lambda>d. streqabbr (u_longopt d) longopt_name 2) usage of
             [d] \<Rightarrow> Some d
           | _ \<Rightarrow> dummy_entry usage))"

definition find_short :: "descriptor list \<Rightarrow> char \<Rightarrow> descriptor option" where
  "find_short usage c =
     (case find (\<lambda>d. c \<in> set (u_shortopt d)) usage of Some d \<Rightarrow> Some d | None \<Rightarrow> dummy_entry usage)"

subsection \<open>Options\<close>

text \<open>An option of the command line; \<open>oc_arg\<close> is a null pointer unless the checker has taken the argument.\<close>

record option_occ =
  oc_index :: OPT
  oc_type :: int
  oc_arg :: "string option"

definition occurrence :: "descriptor \<Rightarrow> string option \<Rightarrow> option_occ" where
  "occurrence d arg = \<lparr>oc_index = u_index d, oc_type = u_type d, oc_arg = arg\<rparr>"

text \<open>Checking one: a fatal error, no descriptor, or the option and whether it takes the argument.\<close>

datatype checked = Fatal | Skipped | Stored option_occ bool

definition check_option :: "descriptor option \<Rightarrow> string \<Rightarrow> string option \<Rightarrow> checked" where
  "check_option d name optarg =
     (case d of
        None \<Rightarrow> Skipped
      | Some d \<Rightarrow>
          (case run_check (u_check_arg d) (Some name) optarg of
             ARG_ILLEGAL \<Rightarrow> Fatal
           | ARG_OK \<Rightarrow> Stored (occurrence d optarg) True
           | ARG_NONE \<Rightarrow> Stored (occurrence d None) False))"

text \<open>A group of short options, with the argument after it: the options, and whether they take that argument.\<close>

fun short_group :: "descriptor list \<Rightarrow> string \<Rightarrow> string option \<Rightarrow> (option_occ list \<times> bool) option" where
  "short_group usage [] next_arg = Some ([], False)"
| "short_group usage (c # cs) next_arg =
     (case check_option (find_short usage c) (c # cs) (if cs = [] then next_arg else Some cs) of
        Fatal \<Rightarrow> None
      | Stored oc takes_arg \<Rightarrow>
          if takes_arg then Some ([oc], cs = [])
          else map_option (\<lambda>(ocs, t). (oc # ocs, t)) (short_group usage cs next_arg)
      | Skipped \<Rightarrow> short_group usage cs next_arg)"

definition first_arg :: "string list \<Rightarrow> string option" where
  "first_arg args = (case args of [] \<Rightarrow> None | a # _ \<Rightarrow> Some a)"

text \<open>The result: the options and the other arguments, each in their order; \<open>None\<close> is an error.\<close>

definition with_options :: "option_occ list \<Rightarrow> (option_occ list \<times> string list) option \<Rightarrow> (option_occ list \<times> string list) option" where
  "with_options ocs = map_option (\<lambda>(os, nonops). (ocs @ os, nonops))"

function workhorse :: "descriptor list \<Rightarrow> string list \<Rightarrow> (option_occ list \<times> string list) option" where
  "workhorse usage [] = Some ([], [])"
| "workhorse usage (param # args) =
     (if param = [] \<or> hd param \<noteq> CHR ''-'' \<or> length param = 1 then
        map_option (\<lambda>(os, nonops). (os, param # nonops)) (workhorse usage args)
      else if param = ''--'' then Some ([], args)
      else if param ! 1 = CHR ''-'' then
        (let longopt_name = drop 2 param;
             attached = (CHR ''='' \<in> set longopt_name);
             optarg = (if attached then Some (tl (dropWhile (\<lambda>c. c \<noteq> CHR ''='') longopt_name)) else first_arg args)
         in case check_option (find_long usage longopt_name) param optarg of
              Fatal \<Rightarrow> None
            | Skipped \<Rightarrow> workhorse usage args
            | Stored oc takes_arg \<Rightarrow>
                with_options [oc] (workhorse usage (if takes_arg \<and> \<not> attached then tl args else args)))
      else
        (case short_group usage (tl param) (first_arg args) of
           None \<Rightarrow> None
         | Some (ocs, takes_arg) \<Rightarrow> with_options ocs (workhorse usage (if takes_arg then tl args else args))))"
  by pat_completeness auto

termination workhorse
  by (relation "measure (\<lambda>(usage, args). length args)") auto

declare workhorse.simps(2) [simp del]

subsection \<open>What comes out has been checked\<close>

definition from_table :: "descriptor list \<Rightarrow> option_occ \<Rightarrow> bool" where
  "from_table usage oc \<longleftrightarrow>
     (\<exists>d \<in> set usage. \<exists>name optarg. oc_index oc = u_index d \<and> oc_type oc = u_type d
        \<and> (run_check (u_check_arg d) name optarg = ARG_OK \<and> oc_arg oc = optarg
           \<or> run_check (u_check_arg d) name optarg = ARG_NONE \<and> oc_arg oc = None))"

lemma find_in_list: "find P xs = Some d \<Longrightarrow> d \<in> set xs"
  by (induction xs) (auto split: if_splits)

lemma filter_single: "filter P xs = [e] \<Longrightarrow> e \<in> set xs"
  using filter_is_subset[of P xs] by simp

lemma dummy_table: "dummy_entry usage = Some d \<Longrightarrow> d \<in> set usage"
  unfolding dummy_entry_def by (rule find_in_list)

lemma find_short_table: "find_short usage c = Some d \<Longrightarrow> d \<in> set usage"
  using find_in_list dummy_table by (fastforce simp: find_short_def split: option.splits)

lemma find_long_table: "find_long usage n = Some d \<Longrightarrow> d \<in> set usage"
proof (cases "find (\<lambda>d. streq (u_longopt d) n) usage")
  case None
  assume "find_long usage n = Some d"
  then show ?thesis
    using None filter_single[of "\<lambda>d. streqabbr (u_longopt d) n 2" usage] dummy_table[of usage d]
    by (auto simp: find_long_def split: list.splits)
next
  case (Some e)
  assume "find_long usage n = Some d"
  then show ?thesis using Some find_in_list[OF Some] by (simp add: find_long_def)
qed

lemma check_option_Stored:
  assumes "check_option d name optarg = Stored oc t" and "\<And>e. d = Some e \<Longrightarrow> e \<in> set usage"
  shows "from_table usage oc"
proof -
  obtain e where e: "d = Some e" using assms(1) by (cases d) (auto simp: check_option_def)
  have "e \<in> set usage" by (rule assms(2)[OF e])
  moreover have "oc_index oc = u_index e \<and> oc_type oc = u_type e
      \<and> (run_check (u_check_arg e) (Some name) optarg = ARG_OK \<and> oc_arg oc = optarg
         \<or> run_check (u_check_arg e) (Some name) optarg = ARG_NONE \<and> oc_arg oc = None)"
    using assms(1) e by (auto simp: check_option_def occurrence_def split: arg_status.splits)
  ultimately show ?thesis unfolding from_table_def by blast
qed

lemma short_group_table: "short_group usage cs next_arg = Some (ocs, t) \<Longrightarrow> oc \<in> set ocs \<Longrightarrow> from_table usage oc"
proof (induction usage cs next_arg arbitrary: ocs t rule: short_group.induct)
  case (2 usage c cs next_arg)
  show ?case
  proof (cases "check_option (find_short usage c) (c # cs) (if cs = [] then next_arg else Some cs)")
    case (Stored oc' b)
    have oc': "from_table usage oc'" by (rule check_option_Stored[OF Stored]) (rule find_short_table)
    show ?thesis
    proof (cases b)
      case True
      then show ?thesis using 2(3,4) Stored oc' by auto
    next
      case False
      then obtain ocs' where "short_group usage cs next_arg = Some (ocs', t)" "ocs = oc' # ocs'" using 2(3) Stored by auto
      then show ?thesis using 2(2)[OF Stored False] 2(4) oc' by auto
    qed
  qed (use 2 in auto)
qed simp

lemma workhorse_table: "workhorse usage args = Some (os, nonops) \<Longrightarrow> oc \<in> set os \<Longrightarrow> from_table usage oc"
proof (induction args arbitrary: os nonops rule: length_induct)
  case (1 xs)
  show ?case
  proof (cases xs)
    case Nil
    then show ?thesis using 1(2,3) by simp
  next
    case (Cons param args)
    have IH: "from_table usage oc" if "workhorse usage ys = Some (os', ns)" "oc \<in> set os'" "length ys \<le> length args" for ys os' ns
      using 1(1)[rule_format, of ys os' ns] that Cons by simp
    note w = 1(2)[unfolded Cons workhorse.simps(2)] and oc = 1(3)
    consider (nonop) "param = [] \<or> hd param \<noteq> CHR ''-'' \<or> length param = 1"
      | (dashes) "\<not> (param = [] \<or> hd param \<noteq> CHR ''-'' \<or> length param = 1)" "param = ''--''"
      | (long) "\<not> (param = [] \<or> hd param \<noteq> CHR ''-'' \<or> length param = 1)" "param \<noteq> ''--''" "param ! 1 = CHR ''-''"
      | (short) "\<not> (param = [] \<or> hd param \<noteq> CHR ''-'' \<or> length param = 1)" "param \<noteq> ''--''" "param ! 1 \<noteq> CHR ''-''" by blast
    then show ?thesis
    proof cases
      case nonop
      then obtain ns where "workhorse usage args = Some (os, ns)" using w by auto
      then show ?thesis using IH oc by blast
    next
      case dashes
      then show ?thesis using w oc by simp
    next
      case long
      define name where "name = drop 2 param"
      define att where "att \<longleftrightarrow> CHR ''='' \<in> set name"
      define optarg where "optarg = (if att then Some (tl (dropWhile (\<lambda>c. c \<noteq> CHR ''='') name)) else first_arg args)"
      have w': "(case check_option (find_long usage name) param optarg of Fatal \<Rightarrow> None | Skipped \<Rightarrow> workhorse usage args
          | Stored oc t \<Rightarrow> with_options [oc] (workhorse usage (if t \<and> \<not> att then tl args else args))) = Some (os, nonops)"
        using w long unfolding Let_def name_def att_def optarg_def by simp
      show ?thesis
      proof (cases "check_option (find_long usage name) param optarg")
        case Skipped
        then show ?thesis using w' IH oc by simp
      next
        case (Stored oc' t)
        then obtain os' where os': "workhorse usage (if t \<and> \<not> att then tl args else args) = Some (os', nonops)" "os = oc' # os'"
          using w' by (auto simp: with_options_def)
        have "from_table usage oc'" by (rule check_option_Stored[OF Stored]) (rule find_long_table)
        then show ?thesis using IH[OF os'(1)] os'(2) oc by auto
      qed (use w' in simp)
    next
      case short
      then obtain ocs t where g: "short_group usage (tl param) (first_arg args) = Some (ocs, t)"
        using w by (auto split: option.splits)
      then obtain os' where os': "workhorse usage (if t then tl args else args) = Some (os', nonops)" "os = ocs @ os'"
        using w short by (auto simp: with_options_def)
      then show ?thesis using IH[OF os'(1)] short_group_table[OF g] oc by auto
    qed
  qed
qed

end
