(* ===== verification/Options.thy ===== *)
theory Options
  imports OptionParser ConfigFiles
begin

text \<open>
  \<open>ArgParse::Parse\<close> of \<open>src/ArgParse.cpp\<close>: the command line and the configuration files become the settings
  of the run, the public data members of \<open>ArgParse\<close> in \<open>src/ArgParse.h\<close>. The pass over type options is the
  theory \<open>TypeArgs\<close>, the option parser of the library the theory \<open>OptionParser\<close>.
\<close>

subsection \<open>Settings\<close>

record arg_parse =
  a_test_noenv_user :: bool
  a_smart_case :: bool
  a_pattern :: string
  a_ignore_case :: bool
  a_word_regexp :: bool
  a_pattern_is_literal :: bool
  a_line_number :: bool
  a_column :: bool
  a_paths :: "string list"
  a_excludes :: "string set"
  a_jobs :: int
  a_dirjobs :: int
  a_color :: bool
  a_prefix_file :: bool
  a_nullsep :: bool
  a_recurse :: bool
  a_follow_symlinks :: bool
  a_use_mmap :: bool

definition ArgParse_init :: arg_parse where
  "ArgParse_init =
     \<lparr>a_test_noenv_user = False, a_smart_case = True, a_pattern = [], a_ignore_case = False, a_word_regexp = False,
      a_pattern_is_literal = False, a_line_number = True, a_column = False, a_paths = [], a_excludes = {}, a_jobs = 0,
      a_dirjobs = 0, a_color = True, a_prefix_file = False, a_nullsep = False, a_recurse = True,
      a_follow_symlinks = False, a_use_mmap = False\<rparr>"

text \<open>How \<open>Parse\<close> ends: with settings and the type manager, by \<open>exit\<close>, or with an exception.\<close>

datatype parse_error = ArgError ArgParseException | ConfigFailed config_error | NumberOutOfRange

datatype parse_outcome = Parsed arg_parse type_manager | Exit int | Throw parse_error

definition STATUS_EX_USAGE :: int where
  "STATUS_EX_USAGE = 255"

definition f_default_dirjobs :: int where
  "f_default_dirjobs = 4"

subsection \<open>The argument vector\<close>

definition before_double_dash :: "string list \<Rightarrow> string list" where
  "before_double_dash argv = takeWhile (\<lambda>s. s \<noteq> ''--'') argv"

definition combined_argv :: "string list \<Rightarrow> string list \<times> string list \<Rightarrow> string list" where
  "combined_argv argv configs =
     (case configs of (user_argv, project_argv) \<Rightarrow> hd argv # user_argv @ project_argv @ tl argv)"

subsection \<open>The options\<close>

text \<open>\<open>options[i]\<close>: the options with index \<open>i\<close> in their order; the type of the last one, 0 if there is none.\<close>

definition given :: "OPT \<Rightarrow> option_occ list \<Rightarrow> option_occ list" where
  "given i os = filter (\<lambda>opt. oc_index opt = i) os"

definition last_type :: "OPT \<Rightarrow> option_occ list \<Rightarrow> int" where
  "last_type i os = (if given i os = [] then 0 else oc_type (last (given i os)))"

definition enabled :: "OPT \<Rightarrow> option_occ list \<Rightarrow> bool \<Rightarrow> bool" where
  "enabled i os otherwise = (if given i os \<noteq> [] then last_type i os = ENABLE else otherwise)"

definition opt_arg :: "option_occ \<Rightarrow> string" where
  "opt_arg opt = (case oc_arg opt of None \<Rightarrow> [] | Some a \<Rightarrow> a)"

definition case_step :: "option_occ \<Rightarrow> arg_parse \<Rightarrow> arg_parse" where
  "case_step opt a =
     (if oc_type opt = IGNORE then a\<lparr>a_ignore_case := True, a_smart_case := False\<rparr>
      else if oc_type opt = SMART_CASE then a\<lparr>a_smart_case := True, a_ignore_case := False\<rparr>
      else if oc_type opt = NO_SMART_CASE then a\<lparr>a_smart_case := False\<rparr>
      else a)"

definition exclude_step :: "option_occ \<Rightarrow> arg_parse \<Rightarrow> arg_parse" where
  "exclude_step opt a =
     (if oc_type opt = ENABLE then a\<lparr>a_excludes := insert (opt_arg opt) (a_excludes a)\<rparr>
      else a\<lparr>a_excludes := Set.remove (opt_arg opt) (a_excludes a)\<rparr>)"

text \<open>The \<open>--type\<close> options; \<open>None\<close> is the exit for an unknown type.\<close>

fun type_options :: "option_occ list \<Rightarrow> type_manager \<Rightarrow> type_manager option" where
  "type_options [] tm = Some tm"
| "type_options (opt # os) tm =
     (case (if take 2 (opt_arg opt) = ''no'' then TM_notype (drop 2 (opt_arg opt)) tm else TM_type (opt_arg opt) tm) of
        (is_known, tm') \<Rightarrow> if is_known then type_options os tm' else None)"

text \<open>The number of threads: the first such option, else 0. \<open>None\<close> is an exception of \<open>std::stoi\<close>.\<close>

definition jobs_option :: "OPT \<Rightarrow> option_occ list \<Rightarrow> int option" where
  "jobs_option i os = (case given i os of [] \<Rightarrow> Some 0 | opt # _ \<Rightarrow> stoi (opt_arg opt))"

definition isupper :: "char \<Rightarrow> bool" where
  "isupper c \<longleftrightarrow> CHR ''A'' \<le> c \<and> c \<le> CHR ''Z''"

text \<open>The settings that depend only on the options, in the order of the code, up to the number of threads.\<close>

definition apply_flags :: "bool \<Rightarrow> option_occ list \<Rightarrow> arg_parse \<Rightarrow> arg_parse" where
  "apply_flags isatty os a =
     (let a = a\<lparr>a_use_mmap := (last_type OPT_TEST_USE_MMAP os = ENABLE)\<rparr>;
          a = fold case_step (given OPT_HANDLE_CASE os) a;
          a = a\<lparr>a_word_regexp := (given OPT_WORDREGEX os \<noteq> []), a_pattern_is_literal := (given OPT_LITERAL os \<noteq> [])\<rparr>;
          a = (if \<not> isatty then a\<lparr>a_prefix_file := True, a_color := False\<rparr> else a);
          a = a\<lparr>a_color := enabled OPT_COLOR os (a_color a)\<rparr>;
          a = a\<lparr>a_prefix_file := enabled OPT_PREFIX_FILE os (a_prefix_file a)\<rparr>;
          a = a\<lparr>a_line_number := enabled OPT_LINE_NUMBER os (a_line_number a)\<rparr>;
          a = a\<lparr>a_column := (last_type OPT_COLUMN os = ENABLE)\<rparr>;
          a = (if a_column a then a\<lparr>a_line_number := True\<rparr> else a);
          a = a\<lparr>a_recurse := enabled OPT_RECURSE_SUBDIRS os (a_recurse a)\<rparr>;
          a = a\<lparr>a_follow_symlinks := (last_type OPT_FOLLOW os = ENABLE)\<rparr>
      in fold exclude_step (given OPT_IGNORE_DIR os) a)"

text \<open>The defaults that are set last.\<close>

definition apply_defaults :: "int \<Rightarrow> arg_parse \<Rightarrow> arg_parse" where
  "apply_defaults hardware_concurrency a =
     (let a = (if a_jobs a = 0 then a\<lparr>a_jobs := (if hardware_concurrency = 0 then 1 else hardware_concurrency)\<rparr> else a);
          a = (if a_dirjobs a = 0 then a\<lparr>a_dirjobs := f_default_dirjobs\<rparr> else a);
          a = (if a_paths a = [] then a\<lparr>a_paths := [''.'']\<rparr> else a)
      in if a_smart_case a \<and> \<not> a_ignore_case a \<and> (\<forall>c \<in> set (a_pattern a). \<not> isupper c)
         then a\<lparr>a_ignore_case := True\<rparr> else a)"

definition apply_options ::
    "bool \<Rightarrow> int \<Rightarrow> option_occ list \<Rightarrow> string list \<Rightarrow> arg_parse \<Rightarrow> type_manager \<Rightarrow> parse_outcome" where
  "apply_options isatty hardware_concurrency os nonops a tm =
     (if given OPT_HELP os \<noteq> [] \<or> given OPT_VERSION os \<noteq> [] \<or> given OPT_HELP_TYPES os \<noteq> [] then Exit 0
      else if nonops = [] then Exit STATUS_EX_USAGE
      else
        (let a = apply_flags isatty os (a\<lparr>a_pattern := hd nonops, a_paths := a_paths a @ tl nonops\<rparr>)
         in case type_options (given OPT_TYPE os) tm of
              None \<Rightarrow> Exit STATUS_EX_USAGE
            | Some tm' \<Rightarrow>
                (case jobs_option OPT_PERF_DIRJOBS os of
                   None \<Rightarrow> Throw NumberOutOfRange
                 | Some dirjobs \<Rightarrow>
                     (case jobs_option OPT_PERF_SCANJOBS os of
                        None \<Rightarrow> Throw NumberOutOfRange
                      | Some jobs \<Rightarrow>
                          Parsed (apply_defaults hardware_concurrency (a\<lparr>a_dirjobs := dirjobs, a_jobs := jobs\<rparr>)) tm'))))"

text \<open>\<open>Parse\<close> on the arguments of the program, its name first.\<close>

record parse_env =
  pe_alloc :: "nat \<Rightarrow> nat \<Rightarrow> nat option"
  pe_os :: os
  pe_environment :: environment
  pe_isatty :: bool
  pe_hardware_concurrency :: int
  pe_bug_address :: string

definition command_line ::
    "parse_env \<Rightarrow> string list \<Rightarrow> type_manager \<Rightarrow> parse_outcome + (option_occ list \<times> string list \<times> type_manager)" where
  "command_line env argv tm =
     (let noenv = (''--noenv'' \<in> set (before_double_dash argv));
          noenv_user = (''--test-noenv-user'' \<in> set (before_double_dash argv))
      in case (if noenv then Inr ([], [])
               else FindAndParseConfigFiles (pe_alloc env) (pe_os env) (pe_environment env) noenv_user) of
           Inl e \<Rightarrow> Inl (Throw (ConfigFailed e))
         | Inr configs \<Rightarrow>
             (case HandleTYPELogic (combined_argv argv configs) tm of
                Inl e \<Rightarrow> Inl (Throw (ArgError e))
              | Inr (args, tm) \<Rightarrow>
                  (case workhorse (dynamic_usage (f_raw_options (pe_bug_address env))) (tl args) of
                     None \<Rightarrow> Inl (Exit STATUS_EX_USAGE)
                   | Some (os, nonops) \<Rightarrow> Inr (os, nonops, tm))))"

definition Parse :: "parse_env \<Rightarrow> string list \<Rightarrow> type_manager \<Rightarrow> parse_outcome" where
  "Parse env argv tm =
     (case command_line env argv tm of
        Inl r \<Rightarrow> r
      | Inr (os, nonops, tm) \<Rightarrow>
          apply_options (pe_isatty env) (pe_hardware_concurrency env) os nonops
            (ArgParse_init\<lparr>a_test_noenv_user := (''--test-noenv-user'' \<in> set (before_double_dash argv))\<rparr>) tm)"

text \<open>What \<open>--help-types\<close> prints.\<close>

definition PrintHelpTypes :: "type_manager \<Rightarrow> string" where
  "PrintHelpTypes tm = ''ucg recognizes the following file types:'' @ [NL, NL] @ PrintTypesForHelp tm @ [NL]"

subsection \<open>The table\<close>

lemma usage_names:
  "map (\<lambda>d. (u_index d, u_type d, u_shortopt d, u_longopt d, u_check_arg d)) (dynamic_usage (f_raw_options bug))
   = map (\<lambda>d. (u_index d, u_type d, u_shortopt d, u_longopt d, u_check_arg d)) (dynamic_usage (f_raw_options []))"
  by (simp add: dynamic_usage_def f_raw_options_def to_descriptor_def text_row_def option_row_def
      HasLongAliases_def IsBracketNo_def plain_row_def bracket_no_row_def hidden_row_def section_row_def hidden_text_row_def)

subsection \<open>What the flags come to\<close>

text \<open>\<open>--ignore-case\<close> after the last \<open>--smart-case\<close>; \<open>--smart-case\<close> last, or no such option.\<close>

definition ignoring :: "int list \<Rightarrow> bool" where
  "ignoring types \<longleftrightarrow> IGNORE \<in> set (takeWhile (\<lambda>t. t \<noteq> SMART_CASE) (rev types))"

definition smart :: "int list \<Rightarrow> bool" where
  "smart types \<longleftrightarrow> types = [] \<or> last types = SMART_CASE"

lemma fold_case_step:
  assumes "\<not> a_ignore_case a" and "a_smart_case a"
  shows "\<forall>opt \<in> set os. oc_type opt \<in> {IGNORE, SMART_CASE, NO_SMART_CASE} \<Longrightarrow>
    fold case_step os a = a\<lparr>a_ignore_case := ignoring (map oc_type os), a_smart_case := smart (map oc_type os)\<rparr>"
proof (induction os rule: rev_induct)
  case Nil
  then show ?case using assms by (simp add: ignoring_def smart_def)
next
  case (snoc opt os)
  then show ?case by (auto simp: case_step_def ignoring_def smart_def option_types)
qed

lemma fold_exclude_step:
  "fold exclude_step os a = a\<lparr>a_excludes := {n. if \<exists>opt \<in> set os. opt_arg opt = n
      then oc_type (last (filter (\<lambda>opt. opt_arg opt = n) os)) = ENABLE else n \<in> a_excludes a}\<rparr>"
proof (induction os rule: rev_induct)
  case Nil
  then show ?case by simp
next
  case (snoc opt os)
  then show ?case by (auto simp: exclude_step_def intro!: arg_cong[where f="\<lambda>x. a\<lparr>a_excludes := x\<rparr>"])
qed

text \<open>The types that options of the case group and the argument checks of the thread options have in the table.\<close>

lemma table_facts:
  "u \<in> set (dynamic_usage (f_raw_options bug)) \<Longrightarrow> u_index u = OPT_HANDLE_CASE \<Longrightarrow> u_type u \<in> {IGNORE, SMART_CASE, NO_SMART_CASE}"
  "u \<in> set (dynamic_usage (f_raw_options bug)) \<Longrightarrow> u_index u \<in> {OPT_PERF_DIRJOBS, OPT_PERF_SCANJOBS} \<Longrightarrow> u_check_arg u = Check_IntegerGreater0"
  "u \<in> set (dynamic_usage (f_raw_options bug)) \<Longrightarrow> u_index u = OPT_TEST_USE_MMAP \<Longrightarrow> u_type u \<noteq> ENABLE"
proof -
  define view where "view = (\<lambda>d :: descriptor. (u_index d, u_type d, u_shortopt d, u_longopt d, u_check_arg d))"
  have v: "view ` set (dynamic_usage (f_raw_options bug)) = view ` set (dynamic_usage (f_raw_options []))"
    using usage_names[of bug, folded view_def] by (metis list.set_map)
  have l: "list_all (\<lambda>(i, t, so, lo, c). (i = OPT_HANDLE_CASE \<longrightarrow> t \<in> {IGNORE, SMART_CASE, NO_SMART_CASE})
      \<and> (i \<in> {OPT_PERF_DIRJOBS, OPT_PERF_SCANJOBS} \<longrightarrow> c = Check_IntegerGreater0)
      \<and> (i = OPT_TEST_USE_MMAP \<longrightarrow> t \<noteq> ENABLE))
    (map (\<lambda>d. (u_index d, u_type d, u_shortopt d, u_longopt d, u_check_arg d)) (dynamic_usage (f_raw_options [])))" by code_simp
  assume "u \<in> set (dynamic_usage (f_raw_options bug))"
  then have "view u \<in> view ` set (dynamic_usage (f_raw_options []))" using v by blast
  with l[folded view_def] have "(\<lambda>(i, t, so, lo, c). (i = OPT_HANDLE_CASE \<longrightarrow> t \<in> {IGNORE, SMART_CASE, NO_SMART_CASE})
      \<and> (i \<in> {OPT_PERF_DIRJOBS, OPT_PERF_SCANJOBS} \<longrightarrow> c = Check_IntegerGreater0)
      \<and> (i = OPT_TEST_USE_MMAP \<longrightarrow> t \<noteq> ENABLE)) (view u)"
    by (auto simp: list_all_iff)
  then show "u_index u = OPT_HANDLE_CASE \<Longrightarrow> u_type u \<in> {IGNORE, SMART_CASE, NO_SMART_CASE}"
    "u_index u \<in> {OPT_PERF_DIRJOBS, OPT_PERF_SCANJOBS} \<Longrightarrow> u_check_arg u = Check_IntegerGreater0"
    "u_index u = OPT_TEST_USE_MMAP \<Longrightarrow> u_type u \<noteq> ENABLE"
    by (auto simp: view_def)
qed

lemma apply_flags_spec:
  assumes "\<not> a_ignore_case a" and "a_smart_case a" and "a_excludes a = {}"
    and "\<forall>opt \<in> set (given OPT_HANDLE_CASE os). oc_type opt \<in> {IGNORE, SMART_CASE, NO_SMART_CASE}"
  shows "a_ignore_case (apply_flags isatty os a) = ignoring (map oc_type (given OPT_HANDLE_CASE os))"
    and "a_smart_case (apply_flags isatty os a) = smart (map oc_type (given OPT_HANDLE_CASE os))"
    and "a_word_regexp (apply_flags isatty os a) = (given OPT_WORDREGEX os \<noteq> [])"
    and "a_pattern_is_literal (apply_flags isatty os a) = (given OPT_LITERAL os \<noteq> [])"
    and "a_color (apply_flags isatty os a) = enabled OPT_COLOR os (isatty \<and> a_color a)"
    and "a_prefix_file (apply_flags isatty os a) = enabled OPT_PREFIX_FILE os (\<not> isatty \<or> a_prefix_file a)"
    and "a_column (apply_flags isatty os a) = (last_type OPT_COLUMN os = ENABLE)"
    and "a_line_number (apply_flags isatty os a) = (last_type OPT_COLUMN os = ENABLE \<or> enabled OPT_LINE_NUMBER os (a_line_number a))"
    and "a_recurse (apply_flags isatty os a) = enabled OPT_RECURSE_SUBDIRS os (a_recurse a)"
    and "a_follow_symlinks (apply_flags isatty os a) = (last_type OPT_FOLLOW os = ENABLE)"
    and "a_use_mmap (apply_flags isatty os a) = (last_type OPT_TEST_USE_MMAP os = ENABLE)"
    and "a_nullsep (apply_flags isatty os a) = a_nullsep a"
    and "a_pattern (apply_flags isatty os a) = a_pattern a" and "a_paths (apply_flags isatty os a) = a_paths a"
    and "a_excludes (apply_flags isatty os a) = {n. (\<exists>opt \<in> set (given OPT_IGNORE_DIR os). opt_arg opt = n)
        \<and> oc_type (last (filter (\<lambda>opt. opt_arg opt = n) (given OPT_IGNORE_DIR os))) = ENABLE}"
  using assms(3,4)
  by (auto simp: apply_flags_def Let_def fold_case_step[OF assms(1,2)] fold_case_step[where a = "a\<lparr>a_use_mmap := x\<rparr>" for x] assms(1,2)
      fold_exclude_step)

lemma apply_defaults_fields:
  "a_pattern (apply_defaults hw a) = a_pattern a" "a_word_regexp (apply_defaults hw a) = a_word_regexp a"
  "a_pattern_is_literal (apply_defaults hw a) = a_pattern_is_literal a" "a_color (apply_defaults hw a) = a_color a"
  "a_prefix_file (apply_defaults hw a) = a_prefix_file a" "a_column (apply_defaults hw a) = a_column a"
  "a_line_number (apply_defaults hw a) = a_line_number a" "a_recurse (apply_defaults hw a) = a_recurse a"
  "a_follow_symlinks (apply_defaults hw a) = a_follow_symlinks a" "a_excludes (apply_defaults hw a) = a_excludes a"
  "a_nullsep (apply_defaults hw a) = a_nullsep a" "a_use_mmap (apply_defaults hw a) = a_use_mmap a"
  "a_jobs (apply_defaults hw a) = (if a_jobs a = 0 then if hw = 0 then 1 else hw else a_jobs a)"
  "a_dirjobs (apply_defaults hw a) = (if a_dirjobs a = 0 then f_default_dirjobs else a_dirjobs a)"
  "a_paths (apply_defaults hw a) = (if a_paths a = [] then [''.''] else a_paths a)"
  "a_ignore_case (apply_defaults hw a) \<longleftrightarrow> a_ignore_case a \<or> a_smart_case a \<and> (\<forall>c \<in> set (a_pattern a). \<not> isupper c)"
  unfolding apply_defaults_def Let_def by auto

lemma command_line_table:
  assumes "command_line env argv tm = Inr (os, nonops, tm1)" and "oc \<in> set os"
  shows "from_table (dynamic_usage (f_raw_options (pe_bug_address env))) oc"
  using assms workhorse_table unfolding command_line_def
  by (fastforce simp: Let_def split: sum.splits option.splits prod.splits if_splits)

lemma case_types:
  assumes "command_line env argv tm = Inr (os, nonops, tm1)"
  shows "\<forall>opt \<in> set (given OPT_HANDLE_CASE os). oc_type opt \<in> {IGNORE, SMART_CASE, NO_SMART_CASE}"
proof
  fix opt
  assume "opt \<in> set (given OPT_HANDLE_CASE os)"
  then have "from_table (dynamic_usage (f_raw_options (pe_bug_address env))) opt" "oc_index opt = OPT_HANDLE_CASE"
    using command_line_table[OF assms] by (auto simp: given_def)
  then obtain u where "u \<in> set (dynamic_usage (f_raw_options (pe_bug_address env)))" "u_index u = OPT_HANDLE_CASE" "oc_type opt = u_type u"
    by (auto simp: from_table_def)
  then show "oc_type opt \<in> {IGNORE, SMART_CASE, NO_SMART_CASE}" using table_facts(1) by metis
qed

lemma never_memory_mapped:
  assumes "command_line env argv tm = Inr (os, nonops, tm1)"
  shows "last_type OPT_TEST_USE_MMAP os \<noteq> ENABLE"
proof (cases "given OPT_TEST_USE_MMAP os")
  case Nil
  then show ?thesis by (simp add: last_type_def ENABLE_def)
next
  case (Cons opt rest)
  let ?l = "last (given OPT_TEST_USE_MMAP os)"
  have "?l \<in> set (given OPT_TEST_USE_MMAP os)" using Cons by simp
  then have "from_table (dynamic_usage (f_raw_options (pe_bug_address env))) ?l" "oc_index ?l = OPT_TEST_USE_MMAP"
    using command_line_table[OF assms] by (auto simp: given_def)
  then obtain u where "u \<in> set (dynamic_usage (f_raw_options (pe_bug_address env)))" "u_index u = OPT_TEST_USE_MMAP" "oc_type ?l = u_type u"
    by (auto simp: from_table_def)
  then show ?thesis using table_facts(3) Cons by (metis last_type_def list.distinct(1))
qed

text \<open>The argument of a thread option has passed its checker.\<close>

lemma jobs_checked:
  assumes "command_line env argv tm = Inr (os, nonops, tm1)" and "i \<in> {OPT_PERF_DIRJOBS, OPT_PERF_SCANJOBS}" and "opt \<in> set (given i os)"
  shows "\<exists>v. stol (opt_arg opt) = Some v \<and> 0 < v"
proof -
  have "from_table (dynamic_usage (f_raw_options (pe_bug_address env))) opt" "oc_index opt = i"
    using command_line_table[OF assms(1)] assms(3) by (auto simp: given_def)
  then obtain u name optarg where u: "u \<in> set (dynamic_usage (f_raw_options (pe_bug_address env)))" "u_index u = i"
    "run_check (u_check_arg u) name optarg = ARG_OK \<and> oc_arg opt = optarg \<or> run_check (u_check_arg u) name optarg = ARG_NONE \<and> oc_arg opt = None"
    unfolding from_table_def by metis
  have "u_check_arg u = Check_IntegerGreater0" using table_facts(2) u(1,2) assms(2) by metis
  then show ?thesis
    using u(3) by (auto simp: Arg_IntegerGreater_def opt_arg_def split: option.splits if_splits)
qed

text \<open>Where the options of an accepted command line come from.\<close>

lemma command_line_parts:
  assumes "command_line env argv tm = Inr (os, nonops, tm1)"
  obtains user project args where
    "if ''--noenv'' \<in> set (before_double_dash argv) then user = [] \<and> project = []
     else FindAndParseConfigFiles (pe_alloc env) (pe_os env) (pe_environment env)
            (''--test-noenv-user'' \<in> set (before_double_dash argv)) = Inr (user, project)"
    and "HandleTYPELogic (hd argv # user @ project @ tl argv) tm = Inr (args, tm1)"
    and "workhorse (dynamic_usage (f_raw_options (pe_bug_address env))) (tl args) = Some (os, nonops)"
proof -
  let ?noenv = "''--noenv'' \<in> set (before_double_dash argv)"
  let ?configs = "if ?noenv then Inr ([], [])
    else FindAndParseConfigFiles (pe_alloc env) (pe_os env) (pe_environment env) (''--test-noenv-user'' \<in> set (before_double_dash argv))"
  note c = assms[unfolded command_line_def Let_def]
  obtain user project where u: "?configs = Inr (user, project)" using c by (auto split: sum.splits)
  obtain args tm2 where h: "HandleTYPELogic (hd argv # user @ project @ tl argv) tm = Inr (args, tm2)"
    using c unfolding u by (auto simp: combined_argv_def simp del: HandleTYPELogic.simps split: sum.splits)
  have w: "workhorse (dynamic_usage (f_raw_options (pe_bug_address env))) (tl args) = Some (os, nonops)" "tm2 = tm1"
    using c unfolding u by (auto simp: combined_argv_def h simp del: HandleTYPELogic.simps split: option.splits)
  show thesis by (rule that[of user project args]) (use u h w in \<open>simp_all split: if_splits\<close>)
qed

lemma stoi_stol: "stoi s = Some n \<Longrightarrow> stol s = Some n"
  by (auto simp: stoi_def stol_def in_range_def split: option.splits if_splits)

lemma jobs_option_range:
  assumes "command_line env argv tm = Inr (os, nonops, tm1)" and "i \<in> {OPT_PERF_DIRJOBS, OPT_PERF_SCANJOBS}"
    and "jobs_option i os = Some n"
  shows "0 \<le> n \<and> n < 2 ^ 31 \<and> (given i os \<noteq> [] \<longrightarrow> 0 < n)"
proof (cases "given i os")
  case (Cons opt rest)
  then have s: "stoi (opt_arg opt) = Some n" using assms(3) by (simp add: jobs_option_def)
  then have "n < 2 ^ 31" by (auto simp: stoi_def in_range_def split: option.splits if_splits)
  moreover have "0 < n" using jobs_checked[OF assms(1,2), of opt] Cons stoi_stol[OF s] by auto
  ultimately show ?thesis by simp
qed (use assms(3) in \<open>simp add: jobs_option_def\<close>)

lemma Parse_Parsed:
  assumes "Parse env argv tm = Parsed a tm'"
  obtains os nonops tm1 dj j where "command_line env argv tm = Inr (os, nonops, tm1)" and "nonops \<noteq> []"
    and "jobs_option OPT_PERF_DIRJOBS os = Some dj" and "jobs_option OPT_PERF_SCANJOBS os = Some j"
    and "a = apply_defaults (pe_hardware_concurrency env) ((apply_flags (pe_isatty env) os
           (ArgParse_init\<lparr>a_test_noenv_user := (''--test-noenv-user'' \<in> set (before_double_dash argv)), a_pattern := hd nonops, a_paths := tl nonops\<rparr>))
           \<lparr>a_dirjobs := dj, a_jobs := j\<rparr>)"
proof -
  obtain os nonops tm1 where c: "command_line env argv tm = Inr (os, nonops, tm1)"
    "apply_options (pe_isatty env) (pe_hardware_concurrency env) os nonops
            (ArgParse_init\<lparr>a_test_noenv_user := (''--test-noenv-user'' \<in> set (before_double_dash argv))\<rparr>) tm1 = Parsed a tm'"
  proof (cases "command_line env argv tm")
    case (Inl r)
    then show ?thesis using assms that by (auto simp: Parse_def command_line_def Let_def split: sum.splits option.splits prod.splits if_splits)
  next
    case (Inr r)
    then show ?thesis using assms that by (cases r) (auto simp: Parse_def)
  qed
  from c(2) show thesis
    unfolding apply_options_def Let_def
    by (auto split: if_splits option.splits intro!: that[OF c(1)] simp: ArgParse_init_def)
qed

subsection \<open>Names in the table\<close>

definition long_names :: "descriptor list \<Rightarrow> string list" where
  "long_names usage = filter (\<lambda>n. n \<noteq> []) (map u_longopt usage)"

lemma long_names_bug: "long_names (dynamic_usage (f_raw_options bug)) = long_names (dynamic_usage (f_raw_options []))"
  using arg_cong[OF usage_names[of bug], of "map (\<lambda>(i, t, so, lo, c). lo)"] by (simp add: long_names_def comp_def)

lemma long_names_facts:
  "distinct (long_names (dynamic_usage (f_raw_options bug)))"
  "\<forall>n \<in> set (long_names (dynamic_usage (f_raw_options bug))). CHR ''='' \<notin> set n"
proof -
  have "distinct (long_names (dynamic_usage (f_raw_options [])))
      \<and> list_all (\<lambda>n. CHR ''='' \<notin> set n) (long_names (dynamic_usage (f_raw_options [])))" by code_simp
  then show "distinct (long_names (dynamic_usage (f_raw_options bug)))"
    "\<forall>n \<in> set (long_names (dynamic_usage (f_raw_options bug))). CHR ''='' \<notin> set n"
    unfolding long_names_bug[of bug] by (simp_all add: list_all_iff)
qed

lemma common_same: "common n (n @ v) = length n"
  by (induction n) auto

lemma common_le: "common a b \<le> length a" "common a b \<le> length b" "take (common a b) a = take (common a b) b"
  by (induction a b rule: common.induct) auto

lemma streq_iff:
  assumes "CHR ''='' \<notin> set m" and "CHR ''='' \<notin> set n" and "v = [] \<or> hd v = CHR ''=''"
  shows "streq m (n @ v) \<longleftrightarrow> m = n"
proof
  assume s: "streq m (n @ v)"
  then have c: "common m (n @ v) = length m" by (simp add: streq_def)
  with common_le(2,3)[of m "n @ v"] have m: "m = take (length m) (n @ v)" "length m \<le> length (n @ v)" by simp_all
  have e: "ends_name (drop (length m) (n @ v))" using s by (simp add: streq_def)
  show "m = n"
  proof (cases "length m < length n")
    case True
    then obtain c cs where d: "drop (length m) n = c # cs" by (metis Cons_nth_drop_Suc)
    then have "c = CHR ''=''" using e True by (simp add: ends_name_def)
    moreover have "c \<in> set n" using d by (metis in_set_dropD list.set_intros(1))
    ultimately show ?thesis using assms(2) by simp
  next
    case False
    then have m': "m = n @ take (length m - length n) v" using m by simp
    show ?thesis
    proof (cases "take (length m - length n) v")
      case Nil
      show ?thesis using m' unfolding Nil append_Nil2 .
    next
      case (Cons c cs)
      then have "c = CHR ''=''" using assms(3) by (cases v) (auto simp: take_Cons' split: if_splits)
      moreover have "c \<in> set (n @ take (length m - length n) v)" unfolding Cons by simp
      ultimately show ?thesis using m' assms(1) by metis
    qed
  qed
next
  assume "m = n"
  then show "streq m (n @ v)" using assms(3) common_same[of n v] by (cases v) (auto simp: streq_def ends_name_def)
qed

lemma find_distinct:
  assumes "x \<in> set xs" and "P x" and "\<And>y. y \<in> set xs \<Longrightarrow> P y \<Longrightarrow> f y = f x" and "distinct (filter Q (map f xs))" and "Q (f x)"
  shows "find P xs = Some x"
  using assms
proof (induction xs)
  case (Cons y ys)
  show ?case
  proof (cases "P y")
    case True
    then have e: "f y = f x" using Cons.prems(3) by simp
    have "x \<notin> set ys"
    proof
      assume "x \<in> set ys"
      then have "f x \<in> set (filter Q (map f ys))" using Cons.prems(5) by auto
      then show False using Cons.prems(4,5) e by simp
    qed
    then show ?thesis using True Cons.prems(1) by simp
  next
    case False
    then have x: "x \<in> set ys" using Cons.prems(1,2) by auto
    have "distinct (filter Q (map f ys))" using Cons.prems(4) by (cases "Q (f y)") simp_all
    then have "find P ys = Some x" using Cons.IH[OF x Cons.prems(2)] Cons.prems(3,5) by simp
    then show ?thesis using False by simp
  qed
qed simp

subsection \<open>An example\<close>

definition sample_argv :: "string list" where
  "sample_argv = [''ucg'', ''--noenv'', ''--jobs=4'', ''-j8'', ''--null'', ''--column'', ''--ignore-dir=out'', ''main'', ''src'']"

definition sample_tm :: type_manager where
  "sample_tm = \<lparr>m_first_type_has_been_seen = False, m_builtin_and_user_type_map = [(''hh'', [''.h''])],
     m_active_type_map = [(''hh'', [''.h''])], m_removed_type_filters = [],
     m_fast_include_extensions = [], m_include_extensions = [], m_included_literal_filenames = [], m_exclude_globs = [],
     m_include_exclude_globs = [], m_included_first_line_regexes = []\<rparr>"

definition sample_parse_env :: parse_env where
  "sample_parse_env = \<lparr>pe_alloc = (\<lambda>_ _. Some 0), pe_os = rc_os, pe_environment = rc_env, pe_isatty = True,
     pe_hardware_concurrency = 8, pe_bug_address = []\<rparr>"

definition sample_occs :: "option_occ list" where
  "sample_occs =
     [\<lparr>oc_index = OPT_NOENV, oc_type = 0, oc_arg = None\<rparr>,
      \<lparr>oc_index = OPT_PERF_SCANJOBS, oc_type = 0, oc_arg = Some ''4''\<rparr>,
      \<lparr>oc_index = OPT_PERF_SCANJOBS, oc_type = 0, oc_arg = Some ''8''\<rparr>,
      \<lparr>oc_index = OPT_NULLSEP, oc_type = 1, oc_arg = None\<rparr>,
      \<lparr>oc_index = OPT_COLUMN, oc_type = 1, oc_arg = None\<rparr>,
      \<lparr>oc_index = OPT_IGNORE_DIR, oc_type = 1, oc_arg = Some ''out''\<rparr>]"

lemma sample_command_line:
  "command_line sample_parse_env sample_argv sample_tm = Inr (sample_occs, [''main'', ''src''], sample_tm)"
  by code_simp

lemma sample_noenv: "''--noenv'' \<in> set (before_double_dash sample_argv)" by code_simp

definition sample_settings :: arg_parse where
  "sample_settings = ArgParse_init
     \<lparr>a_pattern := ''main'', a_ignore_case := True, a_column := True, a_paths := [''src''], a_excludes := {''out''},
      a_jobs := 4, a_dirjobs := 4\<rparr>"

lemma sample_Parse: "Parse sample_parse_env sample_argv sample_tm = Parsed sample_settings sample_tm"
  unfolding Parse_def sample_command_line by code_simp

definition sample_many_os :: "option_occ list" where
  "sample_many_os =
     [\<lparr>oc_index = OPT_NOENV, oc_type = 0, oc_arg = None\<rparr>,
      \<lparr>oc_index = OPT_PERF_SCANJOBS, oc_type = 0, oc_arg = Some ''3000000000''\<rparr>]"

lemma sample_many_command_line:
  "command_line sample_parse_env [''ucg'', ''--noenv'', ''--jobs=3000000000'', ''main''] sample_tm
   = Inr (sample_many_os, [''main''], sample_tm)"
  by code_simp

subsection \<open>Properties\<close>

text \<open>
  C37. The table of options is unambiguous: every long option in it, with an argument attached or not, is found
  under its full name, although names may be abbreviated and the entries for aliases and \<open>--no\<close> forms are
  generated from the table.
\<close>

theorem long_option_selects_its_entry:
  assumes "d \<in> set (dynamic_usage (f_raw_options bug))" and "u_longopt d \<noteq> []" and "v = [] \<or> hd v = CHR ''=''"
  shows "find_long (dynamic_usage (f_raw_options bug)) (u_longopt d @ v) = Some d"
proof -
  let ?u = "dynamic_usage (f_raw_options bug)"
  have n: "CHR ''='' \<notin> set (u_longopt e)" if "e \<in> set ?u" for e
    using long_names_facts(2)[of bug] that by (cases "u_longopt e = []") (auto simp: long_names_def)
  have "find (\<lambda>e. streq (u_longopt e) (u_longopt d @ v)) ?u = Some d"
  proof (rule find_distinct[where f = u_longopt and Q = "\<lambda>n. n \<noteq> []", OF assms(1)])
    show "streq (u_longopt d) (u_longopt d @ v)" using streq_iff[OF n[OF assms(1)] n[OF assms(1)] assms(3)] by simp
    show "u_longopt e = u_longopt d" if "e \<in> set ?u" "streq (u_longopt e) (u_longopt d @ v)" for e
      using streq_iff[OF n[OF that(1)] n[OF assms(1)] assms(3)] that(2) by simp
    show "distinct (filter (\<lambda>n. n \<noteq> []) (map u_longopt ?u))" using long_names_facts(1)[of bug] by (simp add: long_names_def)
  qed (use assms(2) in simp)
  then show ?thesis by (simp add: find_long_def)
qed

lemma long_option_selects_its_entry_witness:
  "map_option u_index (find_long (dynamic_usage (f_raw_options [])) (''jobs'' @ ''=4'')) = Some OPT_PERF_SCANJOBS"
proof -
  have "list_ex (\<lambda>d. u_longopt d = ''jobs'' \<and> u_index d = OPT_PERF_SCANJOBS) (dynamic_usage (f_raw_options []))" by code_simp
  then obtain d where "d \<in> set (dynamic_usage (f_raw_options []))" "u_longopt d = ''jobs''" "u_index d = OPT_PERF_SCANJOBS"
    by (auto simp: list_ex_iff)
  then show ?thesis using long_option_selects_its_entry[of d "[]" "''=4''"] by simp
qed

lemma settings_by_options:
  assumes "Parse env argv tm = Parsed a tm'" and "command_line env argv tm = Inr (os, nonops, tm1)"
  shows "a_pattern a = hd nonops \<and> a_paths a = (if tl nonops = [] then [''.''] else tl nonops)
    \<and> (a_ignore_case a \<longleftrightarrow> ignoring (map oc_type (given OPT_HANDLE_CASE os))
        \<or> smart (map oc_type (given OPT_HANDLE_CASE os)) \<and> (\<forall>c \<in> set (hd nonops). \<not> isupper c))
    \<and> a_word_regexp a = (given OPT_WORDREGEX os \<noteq> []) \<and> a_pattern_is_literal a = (given OPT_LITERAL os \<noteq> [])
    \<and> a_color a = enabled OPT_COLOR os (pe_isatty env) \<and> a_prefix_file a = enabled OPT_PREFIX_FILE os (\<not> pe_isatty env)
    \<and> a_column a = enabled OPT_COLUMN os False \<and> a_line_number a = (a_column a \<or> enabled OPT_LINE_NUMBER os True)
    \<and> a_recurse a = enabled OPT_RECURSE_SUBDIRS os True \<and> a_follow_symlinks a = enabled OPT_FOLLOW os False
    \<and> a_excludes a = {n. (\<exists>opt \<in> set (given OPT_IGNORE_DIR os). opt_arg opt = n)
          \<and> oc_type (last (filter (\<lambda>opt. opt_arg opt = n) (given OPT_IGNORE_DIR os))) = ENABLE}
    \<and> \<not> a_nullsep a"
proof -
  obtain dj j where p: "a = apply_defaults (pe_hardware_concurrency env) ((apply_flags (pe_isatty env) os
           (ArgParse_init\<lparr>a_test_noenv_user := (''--test-noenv-user'' \<in> set (before_double_dash argv)), a_pattern := hd nonops, a_paths := tl nonops\<rparr>))
           \<lparr>a_dirjobs := dj, a_jobs := j\<rparr>)"
    by (rule Parse_Parsed[OF assms(1)]) (use assms(2) in auto)
  have e: "(last_type i os = ENABLE) = enabled i os False" for i by (simp add: enabled_def last_type_def ENABLE_def)
  show ?thesis
    unfolding p apply_defaults_fields
    by (auto simp: ArgParse_init_def apply_flags_spec[OF _ _ _ case_types[OF assms(2)]] e)
qed

text \<open>The number of threads a thread option gives.\<close>

definition thread_setting :: "OPT \<Rightarrow> option_occ list \<Rightarrow> int \<Rightarrow> int \<Rightarrow> bool" where
  "thread_setting i os otherwise n \<longleftrightarrow>
     (case given i os of [] \<Rightarrow> n = otherwise | opt # _ \<Rightarrow> stoi (opt_arg opt) = Some n)"

lemma threads_by_options:
  assumes "Parse env argv tm = Parsed a tm'" and "command_line env argv tm = Inr (os, nonops, tm1)"
  shows "thread_setting OPT_PERF_SCANJOBS os (if pe_hardware_concurrency env = 0 then 1 else pe_hardware_concurrency env) (a_jobs a)"
    and "thread_setting OPT_PERF_DIRJOBS os f_default_dirjobs (a_dirjobs a)"
proof -
  obtain dj j where c: "jobs_option OPT_PERF_DIRJOBS os = Some dj" "jobs_option OPT_PERF_SCANJOBS os = Some j"
    and p: "a = apply_defaults (pe_hardware_concurrency env) ((apply_flags (pe_isatty env) os
           (ArgParse_init\<lparr>a_test_noenv_user := (''--test-noenv-user'' \<in> set (before_double_dash argv)), a_pattern := hd nonops, a_paths := tl nonops\<rparr>))
           \<lparr>a_dirjobs := dj, a_jobs := j\<rparr>)"
    by (rule Parse_Parsed[OF assms(1)]) (use assms(2) in auto)
  note r = jobs_option_range[OF assms(2) _ c(1)] jobs_option_range[OF assms(2) _ c(2)]
  show "thread_setting OPT_PERF_SCANJOBS os (if pe_hardware_concurrency env = 0 then 1 else pe_hardware_concurrency env) (a_jobs a)"
    using c(2) r(2) unfolding p apply_defaults_fields thread_setting_def jobs_option_def
    by (cases "given OPT_PERF_SCANJOBS os") simp_all
  show "thread_setting OPT_PERF_DIRJOBS os f_default_dirjobs (a_dirjobs a)"
    using c(1) r(1) unfolding p apply_defaults_fields thread_setting_def jobs_option_def
    by (cases "given OPT_PERF_DIRJOBS os") simp_all
qed

text \<open>
  C11. The settings of an accepted command line are those of the options of the user's configuration file, the project's
  configuration file and the command line, in this order (of the command line alone after \<open>--noenv\<close>). For color, file names, columns,
  line numbers (printed with columns in any case), recursion, symbolic links and each directory name to exclude, the last
  option counts, and without one the default holds, which for color and file names depends on the terminal.
  \<open>--word-regexp\<close> and \<open>--literal\<close> cannot be taken back. Case is ignored if \<open>--ignore-case\<close> comes after the last
  \<open>--smart-case\<close>, even when \<open>--no-smart-case\<close> follows it, and, if \<open>--smart-case\<close> is the last option on case or
  there is none, when the pattern has no upper case letter. Of the options \<open>--jobs\<close> the first counts, and so of \<open>--dirjobs\<close>.
  The pattern is the first argument that is not an option, the others are the paths. \<open>--null\<close> is ignored.
\<close>

theorem settings_follow_last_option:
  assumes "Parse env argv tm = Parsed a tm'"
  shows "\<exists>user project args os nonops tm1.
      (if ''--noenv'' \<in> set (before_double_dash argv) then user = [] \<and> project = []
       else FindAndParseConfigFiles (pe_alloc env) (pe_os env) (pe_environment env)
              (''--test-noenv-user'' \<in> set (before_double_dash argv)) = Inr (user, project))
    \<and> HandleTYPELogic (hd argv # user @ project @ tl argv) tm = Inr (args, tm1)
    \<and> workhorse (dynamic_usage (f_raw_options (pe_bug_address env))) (tl args) = Some (os, nonops)
    \<and> a_pattern a = hd nonops \<and> a_paths a = (if tl nonops = [] then [''.''] else tl nonops)
    \<and> (a_ignore_case a \<longleftrightarrow> ignoring (map oc_type (given OPT_HANDLE_CASE os))
        \<or> smart (map oc_type (given OPT_HANDLE_CASE os)) \<and> (\<forall>c \<in> set (hd nonops). \<not> isupper c))
    \<and> a_word_regexp a = (given OPT_WORDREGEX os \<noteq> []) \<and> a_pattern_is_literal a = (given OPT_LITERAL os \<noteq> [])
    \<and> a_color a = enabled OPT_COLOR os (pe_isatty env) \<and> a_prefix_file a = enabled OPT_PREFIX_FILE os (\<not> pe_isatty env)
    \<and> a_column a = enabled OPT_COLUMN os False \<and> a_line_number a = (a_column a \<or> enabled OPT_LINE_NUMBER os True)
    \<and> a_recurse a = enabled OPT_RECURSE_SUBDIRS os True \<and> a_follow_symlinks a = enabled OPT_FOLLOW os False
    \<and> a_excludes a = {n. (\<exists>opt \<in> set (given OPT_IGNORE_DIR os). opt_arg opt = n)
          \<and> oc_type (last (filter (\<lambda>opt. opt_arg opt = n) (given OPT_IGNORE_DIR os))) = ENABLE}
    \<and> thread_setting OPT_PERF_SCANJOBS os (if pe_hardware_concurrency env = 0 then 1 else pe_hardware_concurrency env) (a_jobs a)
    \<and> thread_setting OPT_PERF_DIRJOBS os f_default_dirjobs (a_dirjobs a) \<and> \<not> a_nullsep a"
proof -
  obtain os nonops tm1 where c: "command_line env argv tm = Inr (os, nonops, tm1)" by (rule Parse_Parsed[OF assms])
  obtain user project args where parts: "if ''--noenv'' \<in> set (before_double_dash argv) then user = [] \<and> project = []
       else FindAndParseConfigFiles (pe_alloc env) (pe_os env) (pe_environment env)
              (''--test-noenv-user'' \<in> set (before_double_dash argv)) = Inr (user, project)"
    "HandleTYPELogic (hd argv # user @ project @ tl argv) tm = Inr (args, tm1)"
    "workhorse (dynamic_usage (f_raw_options (pe_bug_address env))) (tl args) = Some (os, nonops)"
    by (rule command_line_parts[OF c])
  show ?thesis
    by (intro exI[of _ user] exI[of _ project] exI[of _ args] exI[of _ os] exI[of _ nonops] exI[of _ tm1] conjI parts
        threads_by_options[OF assms c])
      (use settings_by_options[OF assms c] in blast)+
qed

lemma settings_follow_last_option_witness:
  "a_paths sample_settings = [''src''] \<and> a_ignore_case sample_settings
   \<and> a_column sample_settings = enabled OPT_COLUMN sample_occs False \<and> a_color sample_settings \<and> a_jobs sample_settings = 4"
proof -
  obtain user project args os nonops tm1 where p: "user = []" "project = []"
    "HandleTYPELogic (hd sample_argv # user @ project @ tl sample_argv) sample_tm = Inr (args, tm1)"
    "workhorse (dynamic_usage (f_raw_options (pe_bug_address sample_parse_env))) (tl args) = Some (os, nonops)"
    and s: "a_paths sample_settings = (if tl nonops = [] then [''.''] else tl nonops)"
    "a_ignore_case sample_settings \<longleftrightarrow> ignoring (map oc_type (given OPT_HANDLE_CASE os))
        \<or> smart (map oc_type (given OPT_HANDLE_CASE os)) \<and> (\<forall>c \<in> set (hd nonops). \<not> isupper c)"
    "a_color sample_settings = enabled OPT_COLOR os (pe_isatty sample_parse_env)"
    "a_column sample_settings = enabled OPT_COLUMN os False"
    "thread_setting OPT_PERF_SCANJOBS os (if pe_hardware_concurrency sample_parse_env = 0 then 1
       else pe_hardware_concurrency sample_parse_env) (a_jobs sample_settings)"
    using settings_follow_last_option[OF sample_Parse, unfolded if_P[OF sample_noenv]]
    by (elim exE conjE) (rule that; assumption)
  have "Inr (os, nonops, tm1) = command_line sample_parse_env sample_argv sample_tm"
    unfolding command_line_def Let_def combined_argv_def using p sample_noenv
    by (simp del: HandleTYPELogic.simps workhorse.simps)
  then have "os = sample_occs" "nonops = [''main'', ''src'']" unfolding sample_command_line by simp_all
  moreover have "stoi ''4'' = Some 4" by code_simp
  ultimately show ?thesis using s
    by (simp add: enabled_def given_def sample_occs_def sample_parse_env_def smart_def isupper_def thread_setting_def opt_arg_def)
qed

lemma settings_parts:
  assumes "Parse env argv tm = Parsed a tm'" and "0 \<le> pe_hardware_concurrency env"
  shows "1 \<le> a_jobs a" and "1 \<le> a_dirjobs a" and "a_paths a \<noteq> []" and "a_column a \<Longrightarrow> a_line_number a"
    and "\<not> a_nullsep a" and "\<not> a_use_mmap a"
proof -
  obtain os nonops tm1 dj j where c: "command_line env argv tm = Inr (os, nonops, tm1)"
    and j: "jobs_option OPT_PERF_DIRJOBS os = Some dj" "jobs_option OPT_PERF_SCANJOBS os = Some j"
    and a: "a = apply_defaults (pe_hardware_concurrency env) ((apply_flags (pe_isatty env) os
           (ArgParse_init\<lparr>a_test_noenv_user := (''--test-noenv-user'' \<in> set (before_double_dash argv)), a_pattern := hd nonops, a_paths := tl nonops\<rparr>))
           \<lparr>a_dirjobs := dj, a_jobs := j\<rparr>)"
    by (rule Parse_Parsed[OF assms(1)]) auto
  have hw: "pe_hardware_concurrency env \<noteq> 0 \<Longrightarrow> 1 \<le> pe_hardware_concurrency env" using assms(2) by simp
  have "0 \<le> dj" "0 \<le> j" using jobs_option_range[OF c _ j(1)] jobs_option_range[OF c _ j(2)] by simp_all
  then have "1 \<le> a_jobs a \<and> 1 \<le> a_dirjobs a \<and> a_paths a \<noteq> [] \<and> (a_column a \<longrightarrow> a_line_number a) \<and> \<not> a_nullsep a \<and> \<not> a_use_mmap a"
    unfolding a apply_defaults_fields
    by (auto simp: ArgParse_init_def apply_flags_spec[OF _ _ _ case_types[OF c]] never_memory_mapped[OF c] f_default_dirjobs_def
        intro: hw)
  then show "1 \<le> a_jobs a" "1 \<le> a_dirjobs a" "a_paths a \<noteq> []" "a_column a \<Longrightarrow> a_line_number a" "\<not> a_nullsep a" "\<not> a_use_mmap a"
    by simp_all
qed

text \<open>
  C23. Settings are well formed: at least one thread of each kind, a path to search, and line numbers whenever
  columns are printed. The zero byte separator and memory mapping are never switched on, although there are
  options for them.
\<close>

theorem parsed_settings_well_formed:
  assumes "Parse env argv tm = Parsed a tm'" and "0 \<le> pe_hardware_concurrency env"
  shows "1 \<le> a_jobs a \<and> 1 \<le> a_dirjobs a \<and> a_paths a \<noteq> [] \<and> (a_column a \<longrightarrow> a_line_number a)
    \<and> \<not> a_nullsep a \<and> \<not> a_use_mmap a"
  using settings_parts[OF assms] by blast

lemma parsed_settings_well_formed_witness:
  "1 \<le> a_dirjobs sample_settings \<and> a_line_number sample_settings \<and> \<not> a_nullsep sample_settings"
  using parsed_settings_well_formed[OF sample_Parse] by (simp add: sample_parse_env_def sample_settings_def)

text \<open>
  Of several options for the number of threads the first one counts, so one in a configuration file cannot
  be overridden on the command line.
\<close>

theorem first_thread_option_wins:
  assumes "Parse env argv tm = Parsed a tm'" and "command_line env argv tm = Inr (os, nonops, tm1)"
    and "given OPT_PERF_SCANJOBS os = opt # rest"
  shows "stoi (opt_arg opt) = Some (a_jobs a)"
proof -
  obtain dj j where p: "jobs_option OPT_PERF_SCANJOBS os = Some j"
    "a = apply_defaults (pe_hardware_concurrency env) ((apply_flags (pe_isatty env) os
           (ArgParse_init\<lparr>a_test_noenv_user := (''--test-noenv-user'' \<in> set (before_double_dash argv)), a_pattern := hd nonops, a_paths := tl nonops\<rparr>))
           \<lparr>a_dirjobs := dj, a_jobs := j\<rparr>)"
    by (rule Parse_Parsed[OF assms(1)]) (use assms(2) in auto)
  have "0 < j" using jobs_option_range[OF assms(2) _ p(1)] assms(3) by simp
  then show ?thesis using p(1) assms(3) unfolding p(2) apply_defaults_fields by (simp add: jobs_option_def)
qed

lemma first_thread_option_wins_witness: "stoi ''4'' = Some (a_jobs sample_settings)"
  using first_thread_option_wins[OF sample_Parse sample_command_line]
  by (simp add: given_def sample_occs_def opt_arg_def)

text \<open>
  C38. A number of threads from 2^31 on and below 2^63 passes the check of the options \<open>--jobs\<close> and \<open>--dirjobs\<close>, and then makes
  \<open>std::stoi\<close> throw \<open>std::out_of_range\<close>, if it is in the first such option, there is a pattern, the types selected
  are known and no option asks for help, the version or the types. (The check rejects greater numbers.)
\<close>

theorem large_thread_count_throws:
  assumes "command_line env argv tm = Inr (os, nonops, tm1)"
    and "i \<in> {OPT_PERF_DIRJOBS, OPT_PERF_SCANJOBS}" and "given i os = opt # rest"
    and "fst (scan_number (opt_arg opt)) = Some n" and "2 ^ 31 \<le> n" and "n < 2 ^ 63"
    and "given OPT_HELP os = []" and "given OPT_VERSION os = []" and "given OPT_HELP_TYPES os = []" and "nonops \<noteq> []"
    and "type_options (given OPT_TYPE os) tm1 = Some tm2"
  shows "Arg_IntegerGreater 0 name (Some (opt_arg opt)) = ARG_OK \<and> Parse env argv tm = Throw NumberOutOfRange"
proof -
  have "stol (opt_arg opt) = Some n" "stoi (opt_arg opt) = None"
    using assms(4-6) by (auto simp: stol_def stoi_def in_range_def)
  then have c: "Arg_IntegerGreater 0 name (Some (opt_arg opt)) = ARG_OK" and j: "jobs_option i os = None"
    using assms(3,5) by (simp_all add: Arg_IntegerGreater_def jobs_option_def)
  have "jobs_option OPT_PERF_DIRJOBS os = None \<or> jobs_option OPT_PERF_SCANJOBS os = None" using assms(2) j by auto
  then have "Parse env argv tm = Throw NumberOutOfRange"
    using assms(1,7-11) by (auto simp: Parse_def apply_options_def Let_def split: option.splits)
  with c show ?thesis by simp
qed

lemma large_thread_count_throws_witness:
  "Arg_IntegerGreater 0 (Some ''--jobs=3000000000'') (Some ''3000000000'') = ARG_OK
   \<and> Parse sample_parse_env [''ucg'', ''--noenv'', ''--jobs=3000000000'', ''main''] sample_tm = Throw NumberOutOfRange"
proof -
  have n: "fst (scan_number ''3000000000'') = Some 3000000000" by code_simp
  let ?opt = "\<lparr>oc_index = OPT_PERF_SCANJOBS, oc_type = 0, oc_arg = Some ''3000000000''\<rparr>"
  have g: "given OPT_PERF_SCANJOBS sample_many_os = [?opt]" "given OPT_HELP sample_many_os = []"
    "given OPT_VERSION sample_many_os = []" "given OPT_HELP_TYPES sample_many_os = []" "given OPT_TYPE sample_many_os = []"
    by (simp_all add: given_def sample_many_os_def)
  show ?thesis
    using large_thread_count_throws[OF sample_many_command_line, where i = OPT_PERF_SCANJOBS and opt = ?opt and rest = "[]"
        and n = 3000000000 and ?tm2.0 = sample_tm and name = "Some ''--jobs=3000000000''"] n g
    by (simp add: opt_arg_def)
qed

end
