(* ===== verification/Platform.thy ===== *)
theory Platform
  imports LineCount LiteralSearch OptionTable
begin

unbundle bit_operations_syntax

text \<open>
  What the program asks the machine: the processor's features (\<open>src/libext/cpuidex.cpp\<close>), by which the resolvers
  of \<open>src/FileScanner.cpp\<close> choose the versions of functions to run, the sets of features a function is made
  for (\<open>src/libext/multiversioning.hpp\<close>), and the width of the terminal (\<open>src/libext/Terminal.cpp\<close>).
\<close>

subsection \<open>CPUID\<close>

text \<open>
  The processor: what the instructions \<open>cpuid\<close> (\<open>None\<close> if it does not have the leaf) and \<open>xgetbv\<close> give. The
  static variables of \<open>cpuidex.cpp\<close> keep the answer to the former. The constants are those of \<open>cpuid.h\<close>.
\<close>

record processor =
  cpuid :: "32 word \<Rightarrow> (32 word \<times> 32 word \<times> 32 word \<times> 32 word) option"
  xgetbv :: "32 word \<Rightarrow> 32 word"

record cpu_info =
  eax :: "32 word"
  ebx :: "32 word"
  ecx :: "32 word"
  edx :: "32 word"
  CPUID_info_valid :: bool

definition cpu_info_init :: cpu_info where
  "cpu_info_init = \<lparr>eax = 0, ebx = 0, ecx = 0, edx = 0, CPUID_info_valid = False\<rparr>"

definition bit_SSE2 :: "32 word" where "bit_SSE2 = 0x04000000"
definition bit_SSE4_2 :: "32 word" where "bit_SSE4_2 = 0x00100000"
definition bit_POPCNT :: "32 word" where "bit_POPCNT = 0x00800000"
definition bit_OSXSAVE :: "32 word" where "bit_OSXSAVE = 0x08000000"
definition bit_AVX :: "32 word" where "bit_AVX = 0x10000000"

definition GetCPUIDInfo :: "processor \<Rightarrow> cpu_info \<Rightarrow> cpu_info" where
  "GetCPUIDInfo p s =
     (if \<not> CPUID_info_valid s
      then (case cpuid p 1 of
              None \<Rightarrow> s
            | Some (a, b, c, d) \<Rightarrow> s\<lparr>eax := a, ebx := b, ecx := c, edx := d\<rparr>)\<lparr>CPUID_info_valid := True\<rparr>
      else s)"

definition sys_has_sse2 :: "processor \<Rightarrow> cpu_info \<Rightarrow> bool \<times> cpu_info" where
  "sys_has_sse2 p s = (let s = GetCPUIDInfo p s in (edx s AND bit_SSE2 \<noteq> 0, s))"

definition sys_has_sse4_2 :: "processor \<Rightarrow> cpu_info \<Rightarrow> bool \<times> cpu_info" where
  "sys_has_sse4_2 p s = (let s = GetCPUIDInfo p s in (ecx s AND bit_SSE4_2 \<noteq> 0, s))"

definition sys_has_popcnt :: "processor \<Rightarrow> cpu_info \<Rightarrow> bool \<times> cpu_info" where
  "sys_has_popcnt p s = (let s = GetCPUIDInfo p s in (ecx s AND bit_POPCNT \<noteq> 0, s))"

definition sys_has_avx :: "processor \<Rightarrow> cpu_info \<Rightarrow> bool \<times> cpu_info" where
  "sys_has_avx p s =
     (let s = GetCPUIDInfo p s
      in (if ecx s AND bit_AVX \<noteq> 0
          then (if ecx s AND bit_OSXSAVE \<noteq> 0 then xgetbv p 0 AND 0x6 = 0x6 else False)
          else False, s))"

subsection \<open>The resolvers\<close>

datatype count_version = Count_sse4_2_popcnt | Count_sse4_2_no_popcnt | Count_sse2 | Count_default

text \<open>The three vectorised versions are one source, compiled with different instruction sets.\<close>

fun count_code :: "count_version \<Rightarrow> memory \<Rightarrow> nat \<Rightarrow> nat \<Rightarrow> nat" where
  "count_code Count_default = CountLinesSinceLastMatch_default"
| "count_code _ = CountLinesSinceLastMatch_sse"

definition resolve_count :: "processor \<Rightarrow> cpu_info \<Rightarrow> count_version \<times> cpu_info" where
  "resolve_count p s =
     (let (sse4_2, s) = sys_has_sse4_2 p s;
          (both, s) = (if sse4_2 then sys_has_popcnt p s else (False, s))
      in if both then (Count_sse4_2_popcnt, s)
         else (let (sse4_2, s) = sys_has_sse4_2 p s;
                   (no_popcnt, s) = (if sse4_2 then (let (popcnt, s) = sys_has_popcnt p s in (\<not> popcnt, s)) else (False, s))
               in if no_popcnt then (Count_sse4_2_no_popcnt, s)
                  else (let (sse2, s) = sys_has_sse2 p s in (if sse2 then Count_sse2 else Count_default, s))))"

text \<open>The pointer to the counting function is set when the program is loaded, the one for literals by every scanner.\<close>

definition resolved :: "processor \<Rightarrow> count_version \<times> bool" where
  "resolved p =
     (let (version, s) = resolve_count p cpu_info_init;
          (sse4_2, s) = sys_has_sse4_2 p s
      in (version, sse4_2))"

text \<open>Once asked, the processor's answer stays; it is the same whatever was asked before.\<close>

abbreviation asked :: "processor \<Rightarrow> cpu_info" where
  "asked p \<equiv> GetCPUIDInfo p cpu_info_init"

definition known :: "processor \<Rightarrow> cpu_info \<Rightarrow> bool" where
  "known p s \<longleftrightarrow> s = cpu_info_init \<or> s = asked p"

lemma asked_valid: "CPUID_info_valid (asked p)"
  by (simp add: GetCPUIDInfo_def cpu_info_init_def)

lemma GetCPUIDInfo_known: "known p s \<Longrightarrow> GetCPUIDInfo p s = asked p"
  using asked_valid[of p] by (auto simp: known_def) (simp add: GetCPUIDInfo_def[of p "asked p"])

lemma known_asked [simp]: "known p (asked p)" and known_init [simp]: "known p cpu_info_init"
  by (simp_all add: known_def)

definition has_sse2 :: "processor \<Rightarrow> bool" where "has_sse2 p \<longleftrightarrow> edx (asked p) AND bit_SSE2 \<noteq> 0"
definition has_sse4_2 :: "processor \<Rightarrow> bool" where "has_sse4_2 p \<longleftrightarrow> ecx (asked p) AND bit_SSE4_2 \<noteq> 0"
definition has_popcnt :: "processor \<Rightarrow> bool" where "has_popcnt p \<longleftrightarrow> ecx (asked p) AND bit_POPCNT \<noteq> 0"

lemma sys_has_known [simp]:
  assumes "known p s"
  shows "sys_has_sse2 p s = (has_sse2 p, asked p)" and "sys_has_sse4_2 p s = (has_sse4_2 p, asked p)"
    and "sys_has_popcnt p s = (has_popcnt p, asked p)"
  using GetCPUIDInfo_known[OF assms]
  by (simp_all add: sys_has_sse2_def sys_has_sse4_2_def sys_has_popcnt_def has_sse2_def has_sse4_2_def has_popcnt_def Let_def)

text \<open>A version is chosen only if the processor reports the instructions it is compiled for.\<close>

lemma resolve_count_known:
  assumes "known p s"
  shows "resolve_count p s =
    (if has_sse4_2 p then (if has_popcnt p then Count_sse4_2_popcnt else Count_sse4_2_no_popcnt)
     else if has_sse2 p then Count_sse2 else Count_default, asked p)"
  using assms by (simp add: resolve_count_def Let_def)

lemma resolved_known:
  "resolved p =
    (if has_sse4_2 p then (if has_popcnt p then Count_sse4_2_popcnt else Count_sse4_2_no_popcnt)
     else if has_sse2 p then Count_sse2 else Count_default, has_sse4_2 p)"
  by (simp add: resolved_def Let_def resolve_count_known)

lemma count_version_code:
  "count_code (fst (resolved p)) = resolve_CountLinesSinceLastMatch (has_sse4_2 p) (has_popcnt p) (has_sse2 p)"
  by (simp add: resolved_known resolve_CountLinesSinceLastMatch_def)

interpretation resolved_counter: line_counter "count_code (fst (resolved p))" for p
  unfolding count_version_code by (rule lc.line_counter_axioms)

text \<open>A processor without the leaf has none of the features.\<close>

lemma no_leaf: "cpuid p 1 = None \<Longrightarrow> resolved p = (Count_default, False)"
  unfolding resolved_known has_sse4_2_def has_popcnt_def has_sse2_def GetCPUIDInfo_def cpu_info_init_def by simp

subsection \<open>Sets of features\<close>

definition ISA_DEFAULT :: "64 word" where "ISA_DEFAULT = 0x1000000000000001"
definition ISA_SSE4_2 :: "64 word" where "ISA_SSE4_2 = 0x1000000000000010"

definition isa_union :: "64 word \<Rightarrow> 64 word \<Rightarrow> 64 word" where
  "isa_union left right = left OR right"

definition ISAIsSubsetOf :: "64 word \<Rightarrow> 64 word \<Rightarrow> bool" where
  "ISAIsSubsetOf outer inner \<longleftrightarrow> outer AND inner = inner"

lemma ISAIsSubsetOf_bits: "ISAIsSubsetOf outer inner \<longleftrightarrow> (\<forall>n. bit inner n \<longrightarrow> bit outer n)"
  using bit_imp_le_length[of inner] by (auto simp: ISAIsSubsetOf_def bit_eq_iff bit_and_iff)

lemma ISAIsSubsetOf_trans: "ISAIsSubsetOf a b \<Longrightarrow> ISAIsSubsetOf b c \<Longrightarrow> ISAIsSubsetOf a c"
  by (simp add: ISAIsSubsetOf_bits)

lemma ISAIsSubsetOf_union: "ISAIsSubsetOf a (isa_union b c) \<longleftrightarrow> ISAIsSubsetOf a b \<and> ISAIsSubsetOf a c"
  by (auto simp: ISAIsSubsetOf_bits isa_union_def bit_or_iff)

text \<open>
  \<open>MV_USE\<close> with SSE4.2 names one of the two versions of \<open>memmem_short_pattern\<close>; with the union of both sets
  it would name both.
\<close>

lemma one_memmem_version: "ISAIsSubsetOf ISA_SSE4_2 ISA_SSE4_2 \<and> \<not> ISAIsSubsetOf ISA_SSE4_2 ISA_DEFAULT"
  by (simp add: ISAIsSubsetOf_def ISA_SSE4_2_def ISA_DEFAULT_def)

lemma both_memmem_versions:
  "ISAIsSubsetOf (isa_union ISA_DEFAULT ISA_SSE4_2) ISA_SSE4_2 \<and> ISAIsSubsetOf (isa_union ISA_DEFAULT ISA_SSE4_2) ISA_DEFAULT"
  by (simp add: ISAIsSubsetOf_def isa_union_def ISA_SSE4_2_def ISA_DEFAULT_def)

subsection \<open>The width of the terminal\<close>

text \<open>
  \<open>atoi\<close> as the C library of GNU has it: the number saturated to a \<open>long\<close>, then cut to an \<open>int\<close>. The arguments
  of \<open>GetColumns\<close> are the answer of \<open>ioctl\<close> and the variable \<open>COLUMNS\<close>.
\<close>

definition atoi :: "string \<Rightarrow> int" where
  "atoi s = (case fst (scan_number s) of
               None \<Rightarrow> 0
             | Some n \<Rightarrow> signed_take_bit 31 (max (- (2 ^ 63)) (min (2 ^ 63 - 1) n)))"

definition GetColumns :: "16 word option \<Rightarrow> string option \<Rightarrow> 16 word" where
  "GetColumns winsize COLUMNS =
     (let columns = (case winsize of
                       Some ws_col \<Rightarrow> uint ws_col
                     | None \<Rightarrow> (case COLUMNS of Some colstr \<Rightarrow> atoi colstr | None \<Rightarrow> 0));
          columns = (if columns = 0 then 80 else columns)
      in word_of_int columns)"

lemma GetColumns_terminal: "GetColumns (Some w) e = (if w = 0 then 80 else w)"
  by (simp add: GetColumns_def Let_def uint_0_iff)

lemma GetColumns_nothing: "GetColumns None None = 80"
  by (simp add: GetColumns_def)

text \<open>The test for zero comes before the number is cut to 16 bits.\<close>

lemma GetColumns_zero: "GetColumns None (Some ''65536'') = 0"
  by code_simp

end
