(* ===== verification/Search.thy ===== *)
theory Search
  imports DirTraversal FileScanning
begin

unbundle bit_operations_syntax

text \<open>
  The program at work: the threads of the globber, the scanner threads and the output thread, joined by the
  queue of files and the queue of match lists, on one heap of \<open>FileID\<close>s. The steps are those of the
  theories DirTree, ScanRun and MatchOutput; what is shown is that every file the specification of the
  traversal finds is scanned and reported under its path, whatever the threads do in between.
\<close>

subsection \<open>What a globber thread leaves of the files\<close>

text \<open>The traversal finds things out about the directory it reads, and about no other file.\<close>

definition keeps :: "nat \<Rightarrow> heap \<Rightarrow> heap \<Rightarrow> bool" where
  "keeps d h h' \<longleftrightarrow> length h \<le> length h' \<and> (\<forall>k<length h. k \<noteq> d \<longrightarrow> readiness (h' ! k) = readiness (h ! k))"

lemma keeps_refl: "keeps d h h"
  by (simp add: keeps_def)

lemma keeps_trans: "keeps d h h1 \<Longrightarrow> keeps d h1 h2 \<Longrightarrow> keeps d h h2"
  by (simp add: keeps_def)

lemma keeps_update: "keeps i h (update_id i g h)"
  by (simp add: keeps_def nth_update_id)

lemma keeps_append: "keeps d h (h @ [f])"
  by (simp add: keeps_def nth_append)

lemma keeps_new: "keeps (length h) (h @ [f]) h2 \<Longrightarrow> keeps d h h2"
  by (simp add: keeps_def nth_append)

lemma keeps_frame: "heap_ok h' \<Longrightarrow> map frame h' = map frame h \<Longrightarrow> keeps d h h'"
  using undisturbed_frame[of h' h "length h"] by (simp add: undisturbed_def keeps_def)

lemma ensure_stat_keeps:
  assumes "ensure_stat s b i h = Some h1"
  shows "keeps i h h1"
proof -
  have "keeps i h h0" if "LazyLoadStatInfo s i h = Some h0" for h0
    using that by (auto simp: LazyLoadStatInfo_def Let_def keeps_update split: option.splits)
  moreover have "keeps i h0 (set_valid i v h0)" for h0 v by (simp add: set_valid_def keeps_update)
  ultimately show ?thesis
    using assms keeps_refl keeps_trans by (fastforce simp: ensure_stat_def split: if_splits)
qed

lemma getters_keep:
  "GetDev s i h = Some (d, h1) \<Longrightarrow> keeps i h h1"
  "GetUniqueFileIdentifier s i h = Some (u, h1) \<Longrightarrow> keeps i h h1"
  using ensure_stat_keeps by (auto simp: GetDev_def GetUniqueFileIdentifier_def)

lemma OpenDir_keeps:
  assumes ok: "heap_ok h" and i: "i < length h" and o: "OpenDir s i h = (es, h1)"
  shows "keeps i h h1"
proof -
  have "keeps i h (ResolvePath i h)"
    by (rule keeps_frame) (use GetPath_ResolvePath(2)[OF ok i] in simp_all)
  then have "keeps i h (update_id i g (ResolvePath i h))" for g by (rule keeps_trans[OF _ keeps_update])
  with o show ?thesis
    by (auto simp: OpenDir_def GetTempDirFileDesc_def Let_def keeps_refl keeps_update split: if_splits)
qed

lemma process_keeps:
  "process_file dt dse de sb (st, local, sh) = Some (st', local', sh') \<Longrightarrow> keeps dse (m_heap sh) (m_heap sh')"
  "process_dir dt dse de sb (st, local, sh) = Some (st', local', sh') \<Longrightarrow> keeps dse (m_heap sh) (m_heap sh')"
proof -
  have new: "keeps dse (m_heap sh) (h @ [f])" if "GetDev s dse (m_heap sh) = Some (dev, h)" for s dev h f
    by (rule keeps_trans[OF getters_keep(1)[OF that] keeps_append])
  show "process_file dt dse de sb (st, local, sh) = Some (st', local', sh') \<Longrightarrow> keeps dse (m_heap sh) (m_heap sh')"
    using new by (auto simp: process_file_def Let_def make_shared_def keeps_refl split: if_splits option.splits prod.splits)
  have "keeps dse (m_heap sh) h2"
    if "GetDev s dse (m_heap sh) = Some (dev, h)" "GetUniqueFileIdentifier s (length h) (h @ [f]) = Some (u, h2)" for s dev h f u h2
    by (rule keeps_trans[OF getters_keep(1)[OF that(1)] keeps_new[OF getters_keep(2)[OF that(2)]]])
  with new show "process_dir dt dse de sb (st, local, sh) = Some (st', local', sh') \<Longrightarrow> keeps dse (m_heap sh) (m_heap sh')"
    by (auto simp: process_dir_def Let_def make_shared_def HasDirBeenVisited_def keeps_refl
        split: if_splits option.splits prod.splits bool.splits)
qed

lemma ProcessDirent_keeps:
  assumes "ProcessDirent dt dse de (st, local, sh) = Some (st', local', sh')"
  shows "keeps dse (m_heap sh) (m_heap sh')"
  using assms process_keeps[of dt dse de] keeps_refl
  by (auto simp: ProcessDirent_def Let_def split: if_splits option.splits prod.splits)

lemma ReaddirLoop_keeps:
  assumes w: "heap_ok (m_heap sh)" and cl: "\<not> m_closed (m_dir_queue sh)"
    and ids: "set (m_underlying_queue (m_dir_queue sh)) \<subseteq> {..<length (m_heap sh)}"
    and step: "ReaddirLoop dt w sh = Some (w', sh')"
  obtains d where "keeps d (m_heap sh) (m_heap sh')" and "d \<in> set (m_underlying_queue (m_dir_queue sh)) \<union> set (dir_of w)"
proof (cases w)
  case (Pulling st)
  obtain status v q where p: "pull_front (m_dir_queue sh) = Inr ((status, v), q)"
    using step Pulling by (cases "pull_front (m_dir_queue sh)") (auto simp: ReaddirLoop_def)
  from pull_front_open[OF cl p] obtain d xs where q: "m_underlying_queue (m_dir_queue sh) = d # xs" "v = Some d" by blast
  obtain es h1 where o: "OpenDir (m_os dt) d (m_heap sh) = (es, h1)" by fastforce
  then have "m_heap sh' = h1" using step Pulling p q(2) by (auto simp: ReaddirLoop_def split: option.splits)
  moreover have "keeps d (m_heap sh) h1" by (rule OpenDir_keeps[OF w _ o]) (use ids q(1) in auto)
  ultimately show thesis using that[of d] q(1) by simp
next
  case (Reading st d todo local)
  then show thesis
  proof (cases todo)
    case Nil
    then show thesis using that[of d] step Reading keeps_update by (auto simp: ReaddirLoop_def CloseDir_def)
  next
    case (Cons de des)
    then obtain st' local' where "ProcessDirent dt d de (st, local, sh) = Some (st', local', sh')"
      using step Reading by (auto simp: ReaddirLoop_def)
    from ProcessDirent_keeps[OF this] show thesis using that[of d] Reading by simp
  qed
qed (use step in \<open>simp add: ReaddirLoop_def\<close>)

text \<open>Files that can be scanned stay so.\<close>

lemma keeps_to_scan:
  assumes k: "keeps d h h'" and e: "evolves X h h'" and "i \<noteq> d" and t: "to_scan s h i content"
  shows "to_scan s h' i content"
proof -
  have f: "fresh_file i h" using t by (simp add: to_scan_def)
  then have i: "i < length h" by (simp add: fresh_file_def)
  have r: "readiness (h' ! i) = readiness (h ! i)" using k i assms(3) by (simp add: keeps_def)
  have "names (h' ! i) = names (h ! i)" using e i by (simp add: evolves_def same_file_def)
  with f r evolvesD(3)[OF e i] have "fresh_file i h'" by (auto simp: fresh_file_def readiness_def names_def)
  moreover have o: "opened s i h' = opened s i h"
    using r evolves_path[OF e i] by (simp add: opened_def readiness_def)
  moreover have "readable s i h' c = readable s i h c" for c
    using r by (simp add: readable_def sized_def o readiness_def)
  ultimately show ?thesis using t by (cases content) (simp_all add: to_scan_def)
qed

subsection \<open>The files a traversal delivers\<close>

text \<open>
  What the file system has to say of a path with content \<open>Some c\<close>, or of one that cannot be opened: it opens,
  its size is the length of the content and one call of \<open>read\<close> delivers all of it.
\<close>

definition file_flags :: "32 word" where
  "file_flags = FAM_RDONLY OR (FCF_NOCTTY OR FCF_NOATIME)"

definition fits :: "string option \<Rightarrow> stat_buf \<Rightarrow> bool" where
  "fits content sb \<longleftrightarrow> (case content of None \<Rightarrow> True | Some c \<Rightarrow> fitting c (st_size sb) (st_blksize sb))"

definition serves :: "os \<Rightarrow> string \<Rightarrow> string option \<Rightarrow> bool" where
  "serves s p content \<longleftrightarrow>
     (let fd = sys_open s p file_flags in
      case content of
        None \<Rightarrow> fd = -1
      | Some c \<Rightarrow> fd \<ge> 0 \<and> (\<exists>sb. sys_fstat s fd = Some sb \<and> fits content sb)
          \<and> sys_read s fd = (if c = [] then [] else [c]) \<and> length c < 2 ^ 63)"

text \<open>Every path found is served, and what \<open>fstatat\<close> says of an entry agrees with its content.\<close>

definition honest :: "dir_tree \<Rightarrow> string set \<Rightarrow> string set \<Rightarrow> (string \<Rightarrow> string option) \<Rightarrow> bool" where
  "honest dt roots files content \<longleftrightarrow>
     (\<forall>p. DirTraversal.found dt roots files p \<longrightarrow> serves (m_os dt) p (content p))
     \<and> (\<forall>p des de sb. reached dt roots p \<longrightarrow> entries dt p = Some des \<longrightarrow> de \<in> set des \<longrightarrow> wanted_file dt p de \<longrightarrow>
          sys_fstatat (m_os dt) (sys_open (m_os dt) p dir_open_flags) (dirent_get_name de) (m_follow_symlinks dt) = Some sb \<longrightarrow>
          fits (content (entry_path p (dirent_get_name de))) sb)"

lemma ready_file:
  assumes "i < length h" and "m_at_dir (h ! i) \<noteq> None" and fl: "m_open_flags (h ! i) = file_flags"
    and "m_file_descriptor (h ! i) < 0" and "m_valid_bits (h ! i) AND V_FILE_DESC = 0"
    and sv: "serves s (path_of i h) content"
    and st: "m_valid_bits (h ! i) AND V_STATINFO \<noteq> 0 \<Longrightarrow>
      \<exists>sb. fits content sb \<and> m_size (h ! i) = st_size sb \<and> m_block_size (h ! i) = st_blksize sb"
  shows "to_scan s h i content"
proof -
  have "file_flags \<noteq> 0" by (simp add: file_flags_def FAM_RDONLY_def FCF_NOCTTY_def FCF_NOATIME_def)
  then have f: "fresh_file i h" using assms(1-5) by (simp add: fresh_file_def)
  have o: "opened s i h = sys_open s (path_of i h) file_flags" by (simp add: opened_def fl)
  show ?thesis
  proof (cases content)
    case None
    then show ?thesis using f o sv by (simp add: to_scan_def serves_def)
  next
    case (Some c)
    then have c: "opened s i h \<ge> 0" "\<exists>sb. sys_fstat s (opened s i h) = Some sb \<and> fitting c (st_size sb) (st_blksize sb)"
      "sys_read s (opened s i h) = (if c = [] then [] else [c])" "length c < 2 ^ 63"
      using sv by (simp_all add: serves_def o fits_def Let_def)
    have "fitting c (m_size (h ! i)) (m_block_size (h ! i))" if "m_valid_bits (h ! i) AND V_STATINFO \<noteq> 0"
      using st[OF that] Some by (auto simp: fits_def)
    with c have "readable s i h c" unfolding readable_def sized_def by metis
    with f Some show ?thesis by (simp add: to_scan_def)
  qed
qed

lemma relative_ready:
  fixes h :: heap
  assumes "serves s (path_of (length h) (h @ [f])) content"
    and f: "f = FileID_relative j name sb FT_REG d ino FAM_RDONLY (FCF_NOCTTY OR FCF_NOATIME)"
    and st: "\<And>b. sb = Some b \<Longrightarrow> fits content b"
  shows "to_scan s (h @ [f]) (length h) content"
proof (rule ready_file)
  have fl: "FAM_RDONLY \<noteq> FAM_UNINITIALIZED" "FCF_NOCTTY OR FCF_NOATIME \<noteq> FCF_UNINITIALIZED"
    by (simp_all add: FAM_RDONLY_def FAM_UNINITIALIZED_def FCF_NOCTTY_def FCF_NOATIME_def FCF_UNINITIALIZED_def)
  show "m_at_dir ((h @ [f]) ! length h) \<noteq> None" "m_open_flags ((h @ [f]) ! length h) = file_flags"
    "m_file_descriptor ((h @ [f]) ! length h) < 0"
    using fl by (simp_all add: f FileID_relative_def impl_full_def impl_init_def impl_SetDevIno_def SetStatInfo_def
        file_flags_def Let_def split: option.split)
  have v: "m_valid_bits f AND V_FILE_DESC = 0" "m_valid_bits f AND V_STATINFO \<noteq> 0 \<longleftrightarrow> sb \<noteq> None"
    by (simp_all add: f FileID_relative_def Let_def bit.conj_disj_distrib2 valid_defs)
  then show "m_valid_bits ((h @ [f]) ! length h) AND V_FILE_DESC = 0" by simp
  assume "m_valid_bits ((h @ [f]) ! length h) AND V_STATINFO \<noteq> 0"
  then obtain b where "sb = Some b" using v by auto
  with st show "\<exists>sb. fits content sb \<and> m_size ((h @ [f]) ! length h) = st_size sb \<and> m_block_size ((h @ [f]) ! length h) = st_blksize sb"
    by (intro exI[of _ b]) (simp add: f FileID_relative_def impl_full_def impl_init_def impl_SetDevIno_def SetStatInfo_def Let_def)
qed (use assms(1) in simp_all)

lemma ProcessDirent_file:
  assumes w: "world (m_heap sh)" and d: "0 < dse" "dse < length (m_heap sh)"
    and p: "p = path_of dse (m_heap sh)"
    and fd: "m_temp_dir_file_descriptor (m_heap sh ! dse) = sys_open (m_os dt) p dir_open_flags"
    and junk: "quiet_junk dt" and wanted: "wanted_file dt p de"
    and sv: "serves (m_os dt) (entry_path p (dirent_get_name de)) content"
    and st: "\<And>sb. sys_fstatat (m_os dt) (sys_open (m_os dt) p dir_open_flags) (dirent_get_name de) (m_follow_symlinks dt) = Some sb
      \<Longrightarrow> fits content sb"
    and step: "ProcessDirent dt dse de (st0, local, sh) = Some (st', local', sh')"
  shows "local' = local @ [length (m_heap sh)]" and "to_scan (m_os dt) (m_heap sh') (length (m_heap sh)) content"
proof -
  have nd: "\<not> is_dot_dir (dirent_get_name de)" "entry_type dt p de = Some S_IFREG" "m_file_basename_filter dt (dirent_get_name de)"
    using wanted by (simp_all add: wanted_file_def)
  obtain sb st1 where pf: "ProcessDirent dt dse de (st0, local, sh) = process_file dt dse de sb (st1, local, sh)"
    "\<forall>b. sb = Some b \<longrightarrow> sys_fstatat (m_os dt) (sys_open (m_os dt) p dir_open_flags) (dirent_get_name de) (m_follow_symlinks dt) = Some b"
    using ProcessDirent_branches(2)[OF fd junk nd(1,2)] by blast
  obtain dev h where h: "GetDev (m_os dt) dse (m_heap sh) = Some (dev, h)" "evolves {} (m_heap sh) h" "length h = length (m_heap sh)"
    by (rule GetDev_evolves[OF w d])
  define f where "f = FileID_relative dse (dirent_get_name de) sb FT_REG dev (d_ino de) FAM_RDONLY (FCF_NOCTTY OR FCF_NOATIME)"
  have r: "local' = local @ [length h]" "m_heap sh' = h @ [f]"
    using step h(1) nd(3) by (auto simp: pf(1) process_file_def Let_def make_shared_def f_def)
  then show "local' = local @ [length (m_heap sh)]" using h(3) by simp
  have "dse < length h" using d(2) h(3) by simp
  from new_file_evolves(2)[OF evolvesD(1)[OF h(2)] this]
  have "path_of (length h) (h @ [f]) = entry_path p (dirent_get_name de)"
    using evolves_path[OF h(2) d(2)] p by (simp add: f_def)
  then have "to_scan (m_os dt) (h @ [f]) (length h) content"
    using sv st pf(2) by (intro relative_ready[OF _ f_def]) simp_all
  then show "to_scan (m_os dt) (m_heap sh') (length (m_heap sh)) content" using r(2) h(3) by simp
qed

text \<open>The files the threads of the globber have, the queue holds and the scanners have taken.\<close>

definition files_of :: "worker list \<Rightarrow> shared \<Rightarrow> nat list" where
  "files_of ws sh = concat (map local_of ws) @ m_underlying_queue (m_out_queue sh) @ taken sh"

text \<open>
  A step of one globber thread: the files are those there were and \<open>M\<close> new ones ready to be scanned, the
  directories those there were and \<open>N\<close> new ones, and of the old files only a directory is touched.
\<close>

definition globber_effect ::
    "dir_tree \<Rightarrow> (string \<Rightarrow> string option) \<Rightarrow> worker list \<Rightarrow> shared \<Rightarrow> worker list \<Rightarrow> shared \<Rightarrow> nat list \<Rightarrow> nat set \<Rightarrow> bool" where
  "globber_effect dt content ws sh ws' sh' M N \<longleftrightarrow>
     taken sh' = taken sh \<and> mset (files_of ws' sh') = mset (files_of ws sh) + mset M
     \<and> dir_ids ws' sh' \<subseteq> dir_ids ws sh \<union> N \<and> set M \<union> N \<subseteq> {length (m_heap sh)..} \<and> distinct M \<and> set M \<inter> N = {}
     \<and> (\<exists>d X. keeps d (m_heap sh) (m_heap sh') \<and> evolves X (m_heap sh) (m_heap sh') \<and> d \<in> dir_ids ws sh)
     \<and> (\<forall>i \<in> set M. to_scan (m_os dt) (m_heap sh') i (content (path_of i (m_heap sh'))))"

lemma globber_step:
  assumes junk: "quiet_junk dt" and hon: "honest dt roots files content"
    and inv: "traversal_inv dt roots files (a @ w0 # b) sh"
    and step: "ReaddirLoop dt w0 sh = Some (w, sh')"
  obtains M N where "globber_effect dt content (a @ w0 # b) sh (a @ w # b) sh' M N"
proof -
  note iv = inv[unfolded traversal_inv_def]
  let ?h = "m_heap sh"
  have wo: "world ?h" and cl: "\<not> m_closed (m_dir_queue sh)" "\<not> m_closed (m_out_queue sh)" using iv by blast+
  have ids: "set (m_underlying_queue (m_dir_queue sh)) \<subseteq> {..<length ?h}" using iv by (auto simp: dir_ids_def)
  obtain d where k: "keeps d ?h (m_heap sh')" "d \<in> set (m_underlying_queue (m_dir_queue sh)) \<union> set (dir_of w0)"
    by (rule ReaddirLoop_keeps[OF worldD(1)[OF wo] cl(1) ids step])
  then have kd: "d \<in> dir_ids (a @ w0 # b) sh" by (auto simp: dir_ids_def)
  show thesis
  proof (cases w0)
    case (Pulling st)
    obtain e xs h1 where q: "m_underlying_queue (m_dir_queue sh) = e # xs" and ev: "evolves {e} ?h h1"
      and none: "entries dt (path_of e ?h) = None \<longrightarrow>
        w = Pulling st \<and> sh' = sh\<lparr>m_dir_queue := m_dir_queue sh\<lparr>m_underlying_queue := xs\<rparr>, m_heap := h1,
          finished_dirs := finished_dirs sh @ [e]\<rparr>"
      and some: "\<forall>es. entries dt (path_of e ?h) = Some es \<longrightarrow>
        w = Reading st e es [] \<and> sh' = sh\<lparr>m_dir_queue := m_dir_queue sh\<lparr>m_underlying_queue := xs\<rparr>, m_heap := h1\<rparr>"
      using pull_step[OF inv[unfolded Pulling] step[unfolded Pulling]] by metis
    have s: "taken sh' = taken sh \<and> m_out_queue sh' = m_out_queue sh \<and> local_of w = [] \<and> m_heap sh' = h1
        \<and> dir_ids (a @ w # b) sh' \<subseteq> dir_ids (a @ w0 # b) sh"
    proof (cases "entries dt (path_of e ?h)")
      case None
      with none q show ?thesis by (auto simp: dir_ids_def)
    next
      case (Some es)
      with some q show ?thesis by (auto simp: dir_ids_def)
    qed
    show thesis
      by (rule that[of "[]" "{}"]) (use s k kd ev in \<open>auto simp: globber_effect_def files_of_def Pulling intro!: exI[of _ d]\<close>)
  next
    case (Reading st e todo local)
    show thesis
    proof (cases todo)
      case Nil
      have s: "w = Pulling st" "sh' = sh\<lparr>m_out_queue := m_out_queue sh\<lparr>m_underlying_queue := m_underlying_queue (m_out_queue sh) @ local\<rparr>,
          m_heap := CloseDir e ?h, finished_dirs := finished_dirs sh @ [e]\<rparr>"
        using step by (auto simp: Reading Nil ReaddirLoop_def push_back_open[OF cl(2)])
      have ev: "evolves {e} ?h (m_heap sh')" using CloseDir_evolves[OF wo] s(2) by simp
      have m: "mset (files_of (a @ w # b) sh') = mset (files_of (a @ w0 # b) sh)"
        by (simp add: files_of_def s Reading)
      have di: "dir_ids (a @ w # b) sh' \<subseteq> dir_ids (a @ w0 # b) sh" by (auto simp: dir_ids_def s Reading)
      show thesis
        by (rule that[of "[]" "{}"]) (use s(2) m di k(1) kd ev in \<open>auto simp: globber_effect_def intro!: exI[of _ d]\<close>)
    next
      case (Cons de des)
      let ?p = "path_of e ?h" and ?n = "dirent_get_name de"
      obtain st' local' seen where e: "0 < e" "e < length ?h" and w: "w = Reading st' e des local'"
        and eff: "entry_effect dt ?p de local sh local' sh'" and reach: "reached dt roots ?p"
        and en: "entries dt ?p = Some (seen @ de # des)"
        and fd: "m_temp_dir_file_descriptor (?h ! e) = sys_open (m_os dt) ?p dir_open_flags"
        using entry_step[OF junk inv[unfolded Reading Cons] step[unfolded Reading Cons]] by metis
      note ef = eff[unfolded entry_effect_def]
      have ev: "evolves {} ?h (m_heap sh')" using ef by blast
      have den: "de \<in> set (seen @ de # des)" by simp
      have pd: "ProcessDirent dt e de (st, local, sh) = Some (st', local', sh')"
        using step w by (auto simp: Reading Cons ReaddirLoop_def)
      have m: "mset (files_of (a @ w # b) sh') + mset local = mset (files_of (a @ w0 # b) sh) + mset local'"
        using ef by (simp add: files_of_def w Reading)
      show thesis
      proof (cases "wanted_file dt ?p de")
        case True
        then have nw: "\<not> wanted_dir dt ?p de" by (auto simp: wanted_file_def wanted_dir_def)
        have fnd: "DirTraversal.found dt roots files (entry_path ?p ?n)" using DirTraversal.inside[OF reach en den True] .
        have sv: "serves (m_os dt) (entry_path ?p ?n) (content (entry_path ?p ?n))" using hon fnd unfolding honest_def by blast
        have ft: "fits (content (entry_path ?p ?n)) sb"
          if "sys_fstatat (m_os dt) (sys_open (m_os dt) ?p dir_open_flags) ?n (m_follow_symlinks dt) = Some sb" for sb
          using hon reach en den True that unfolding honest_def by blast
        note new = ProcessDirent_file[OF wo e refl fd junk True sv ft pd]
        have "path_of (length ?h) (m_heap sh') = entry_path ?p ?n" using ef True new(1) by auto
        then have t: "to_scan (m_os dt) (m_heap sh') (length ?h) (content (path_of (length ?h) (m_heap sh')))" using new(2) by simp
        have dq: "m_dir_queue sh' = m_dir_queue sh" using ef nw by auto
        then have di: "dir_ids (a @ w # b) sh' = dir_ids (a @ w0 # b) sh" using ef by (simp add: dir_ids_def w Reading)
        show thesis
          by (rule that[of "[length ?h]" "{}"])
            (use ef di m new(1) t k(1) kd ev in \<open>auto simp: globber_effect_def intro!: exI[of _ d]\<close>)
      next
        case False
        then have l: "local' = local" using ef by simp
        define N where "N = set (m_underlying_queue (m_dir_queue sh')) - set (m_underlying_queue (m_dir_queue sh))"
        have N: "N \<subseteq> {length ?h..}" using ef unfolding N_def push_back_open[OF cl(1)] by auto
        have di: "dir_ids (a @ w # b) sh' \<subseteq> dir_ids (a @ w0 # b) sh \<union> N" using ef by (auto simp: dir_ids_def w Reading N_def)
        show thesis
          by (rule that[of "[]" N]) (use ef di m l N k(1) kd ev in \<open>auto simp: globber_effect_def intro!: exI[of _ d]\<close>)
      qed
    qed
  qed (use step in \<open>simp add: ReaddirLoop_def\<close>)
qed

subsection \<open>The threads of the program\<close>

text \<open>
  \<open>s_printed\<close> is a history: the match lists the output thread has taken, in their order. A queue that has
  elements gives them whether it is closed or not; closing is what ends the threads that wait, so it is
  left to the end of the program.
\<close>

record search =
  s_workers :: "worker list"
  s_shared :: shared
  s_scanners :: "scan_worker list"
  s_matches :: "match_list sync_queue"
  s_output :: output_state
  s_printed :: "match_list list"

text \<open>The scanner threads with what they share with the others, and the state after a step of theirs.\<close>

definition pool_of :: "search \<Rightarrow> pool" where
  "pool_of s = \<lparr>p_in = m_out_queue (s_shared s), p_heap = m_heap (s_shared s), p_out = s_matches s, p_workers = s_scanners s\<rparr>"

definition with_pool :: "pool \<Rightarrow> search \<Rightarrow> search" where
  "with_pool p s =
     (let q = m_underlying_queue (m_out_queue (s_shared s)); gone = length q - length (m_underlying_queue (p_in p))
      in s\<lparr>s_shared := (s_shared s)\<lparr>m_heap := p_heap p, m_out_queue := p_in p, taken := taken (s_shared s) @ take gone q\<rparr>,
           s_scanners := p_workers p, s_matches := p_out p\<rparr>)"

inductive search_step ::
    "dir_tree \<Rightarrow> (nat \<Rightarrow> nat \<Rightarrow> nat option) \<Rightarrow> scan_fun \<Rightarrow> output_context \<Rightarrow> search \<Rightarrow> search \<Rightarrow> bool"
    for dt alloc scan ctx where
  globber: "t < length (s_workers s) \<Longrightarrow> ReaddirLoop dt (s_workers s ! t) (s_shared s) = Some (w, sh') \<Longrightarrow>
    search_step dt alloc scan ctx s (s\<lparr>s_workers := (s_workers s)[t := w], s_shared := sh'\<rparr>)"
| scanner: "pool_step alloc (m_os dt) scan (pool_of s) p \<Longrightarrow> search_step dt alloc scan ctx s (with_pool p s)"
| printer: "pull_front (s_matches s) = Inr ((success, Some ml), q) \<Longrightarrow>
    search_step dt alloc scan ctx s
      (s\<lparr>s_matches := q, s_output := output_one ctx ml (s_output s), s_printed := s_printed s @ [ml]\<rparr>)"

inductive_cases search_step_elim: "search_step dt alloc scan ctx s s'"

abbreviation s_heap :: "search \<Rightarrow> heap" where
  "s_heap s \<equiv> m_heap (s_shared s)"

abbreviation s_files :: "search \<Rightarrow> nat list" where
  "s_files s \<equiv> files_of (s_workers s) (s_shared s)"

text \<open>The files not dealt with yet.\<close>

definition pending :: "search \<Rightarrow> nat list" where
  "pending s = concat (map local_of (s_workers s)) @ waiting (pool_of s)"

text \<open>
  What holds at any time: the traversal is as it should be; no thread has failed; the files are all
  different, none of them is a directory of the traversal, and those not dealt with can be scanned; every
  other one has had the outcome it should have, and those with matches are in the queue or printed.
\<close>

definition scanners_ok :: "scan_worker list \<Rightarrow> bool" where
  "scanners_ok ws \<longleftrightarrow> (\<forall>w \<in> set ws. array_ok (w_storage w) \<and> m_match_list (w_ml w) = [] \<and> w_error w = None)"

definition accounted ::
    "(string \<Rightarrow> match_line list \<Rightarrow> bool) \<Rightarrow> (string \<Rightarrow> string option) \<Rightarrow> heap \<Rightarrow> nat multiset \<Rightarrow> match_list multiset \<Rightarrow> bool" where
  "accounted good content h fin out \<longleftrightarrow>
     (\<exists>ms. (\<forall>i \<in># fin. outcome good (content (path_of i h)) (ms i)) \<and> out = reports h ms fin)"

definition search_inv ::
    "dir_tree \<Rightarrow> string set \<Rightarrow> string set \<Rightarrow> (string \<Rightarrow> string option) \<Rightarrow> (string \<Rightarrow> match_line list \<Rightarrow> bool) \<Rightarrow>
     output_context \<Rightarrow> search \<Rightarrow> bool" where
  "search_inv dt roots files content good ctx s \<longleftrightarrow>
     traversal_inv dt roots files (s_workers s) (s_shared s)
     \<and> scanners_ok (s_scanners s) \<and> s_scanners s \<noteq> [] \<and> \<not> m_closed (s_matches s)
     \<and> distinct (s_files s) \<and> set (s_files s) \<inter> dir_ids (s_workers s) (s_shared s) = {}
     \<and> (\<forall>i \<in> set (pending s). to_scan (m_os dt) (s_heap s) i (content (path_of i (s_heap s))))
     \<and> (\<exists>fin. mset (s_files s) = mset (pending s) + fin
          \<and> accounted good content (s_heap s) fin (mset (s_printed s) + mset (m_underlying_queue (s_matches s))))
     \<and> s_output s = fold (output_one ctx) (s_printed s)
          \<lparr> first_matchlist_printed = False, cout = [], m_total_matched_lines = 0 \<rparr>"

lemma search_invD:
  assumes "search_inv dt roots files content good ctx s"
  shows "traversal_inv dt roots files (s_workers s) (s_shared s)" "scanners_ok (s_scanners s)" "s_scanners s \<noteq> []"
    "\<not> m_closed (s_matches s)" "distinct (s_files s)" "set (s_files s) \<inter> dir_ids (s_workers s) (s_shared s) = {}"
    "\<And>i. i \<in> set (pending s) \<Longrightarrow> to_scan (m_os dt) (s_heap s) i (content (path_of i (s_heap s)))"
    "\<exists>fin. mset (s_files s) = mset (pending s) + fin
       \<and> accounted good content (s_heap s) fin (mset (s_printed s) + mset (m_underlying_queue (s_matches s)))"
    "s_output s = fold (output_one ctx) (s_printed s) \<lparr> first_matchlist_printed = False, cout = [], m_total_matched_lines = 0 \<rparr>"
  using assms unfolding search_inv_def by blast+

text \<open>The files are among those of the traversal.\<close>

lemma files_of_ids: "set (files_of ws sh) = file_ids ws sh"
  by (auto simp: files_of_def file_ids_def delivered_def)

lemma s_files_bound:
  assumes "search_inv dt roots files content good ctx s"
  shows "i \<in> set (s_files s) \<Longrightarrow> i < length (s_heap s)"
  using search_invD(1)[OF assms] unfolding files_of_ids traversal_inv_def by blast

lemma accounted_paths:
  assumes "accounted good content h fin out" and p: "\<And>i. i \<in># fin \<Longrightarrow> path_of i h' = path_of i h"
  shows "accounted good content h' fin out"
proof -
  have "reports h' ms fin = reports h ms fin" for ms
    using p by (auto simp: reports_def report_def intro!: arg_cong[where f = sum_mset] image_mset_cong)
  with assms show ?thesis unfolding accounted_def by (metis (no_types, lifting))
qed

subsection \<open>The steps keep it\<close>

lemma search_globber:
  assumes junk: "quiet_junk dt" and hon: "honest dt roots files content"
    and inv: "search_inv dt roots files content good ctx s" and t: "t < length (s_workers s)"
    and step: "ReaddirLoop dt (s_workers s ! t) (s_shared s) = Some (w, sh')"
  shows "search_inv dt roots files content good ctx (s\<lparr>s_workers := (s_workers s)[t := w], s_shared := sh'\<rparr>)"
proof -
  let ?s' = "s\<lparr>s_workers := (s_workers s)[t := w], s_shared := sh'\<rparr>"
  let ?a = "take t (s_workers s)" and ?b = "drop (Suc t) (s_workers s)" and ?h = "s_heap s" and ?h' = "m_heap sh'"
  note sv = search_invD[OF inv]
  have e: "s_workers s = ?a @ s_workers s ! t # ?b" "(s_workers s)[t := w] = ?a @ w # ?b"
    using t by (simp_all add: id_take_nth_drop upd_conv_take_nth_drop)
  have i0: "traversal_inv dt roots files (?a @ s_workers s ! t # ?b) (s_shared s)" using sv(1) e(1) by simp
  obtain M N where "globber_effect dt content (?a @ s_workers s ! t # ?b) (s_shared s) (?a @ w # ?b) sh' M N"
    by (rule globber_step[OF junk hon i0 step])
  then have ge: "globber_effect dt content (s_workers s) (s_shared s) (s_workers ?s') sh' M N" using e by simp
  note g = ge[unfolded globber_effect_def]
  obtain d X where d: "keeps d ?h ?h'" "evolves X ?h ?h'" "d \<in> dir_ids (s_workers s) (s_shared s)" using g by blast
  have "traverse_step dt (s_workers s, s_shared s) (s_workers ?s', sh')" using worker[OF t step] by simp
  from traverse_step_inv[OF junk this sv(1)] have inv': "traversal_inv dt roots files (s_workers ?s') (s_shared ?s')" by simp
  have tk: "taken sh' = taken (s_shared s)" and M: "distinct M" "set M \<inter> N = {}" "set M \<union> N \<subseteq> {length ?h..}"
    and m: "mset (s_files ?s') = mset (s_files s) + mset M"
    and di: "dir_ids (s_workers ?s') sh' \<subseteq> dir_ids (s_workers s) (s_shared s) \<union> N"
    and new: "\<And>i. i \<in> set M \<Longrightarrow> to_scan (m_os dt) ?h' i (content (path_of i ?h'))"
    using g by simp_all
  have old: "i \<in> set (s_files s) \<Longrightarrow> i < length ?h" for i by (rule s_files_bound[OF inv])
  have dl: "dir_ids (s_workers s) (s_shared s) \<subseteq> {..<length ?h}" using sv(1) unfolding traversal_inv_def by auto
  have m': "mset (s_files ?s') = mset (s_files s @ M)" using m by simp
  have sets: "set (s_files ?s') = set (s_files s) \<union> set M" using arg_cong[OF m', of set_mset] by simp
  have "distinct (s_files s @ M)" using sv(5) M(1,3) old by fastforce
  then have dis: "distinct (s_files ?s')" using m' mset_eq_imp_distinct_iff by metis
  have sub: "set (pending s) \<subseteq> set (s_files s)" using sv(8) by (metis mset_subset_eq_add_left set_mset_mono set_mset_mset)
  have disj: "set (s_files ?s') \<inter> dir_ids (s_workers ?s') (s_shared ?s') = {}"
    using sv(6) di M(2,3) old dl unfolding sets by fastforce
  have pm: "mset (pending ?s') = mset (pending s) + mset M"
    using m tk by (simp add: pending_def files_of_def waiting_def pool_of_def)
  have ps: "set (pending ?s') = set (pending s) \<union> set M" using arg_cong[OF pm, of set_mset] by simp
  have scan: "to_scan (m_os dt) ?h' i (content (path_of i ?h'))" if "i \<in> set (pending ?s')" for i
  proof (cases "i \<in> set M")
    case False
    then have p: "i \<in> set (pending s)" using that ps by blast
    then have i: "i \<in> set (s_files s)" using sub by blast
    then have "i \<noteq> d" using d(3) sv(6) by blast
    from keeps_to_scan[OF d(1,2) this sv(7)[OF p]] evolves_path[OF d(2) old[OF i]] show ?thesis by simp
  qed (rule new)
  obtain fin where fin: "mset (s_files s) = mset (pending s) + fin"
    "accounted good content ?h fin (mset (s_printed s) + mset (m_underlying_queue (s_matches s)))" using sv(8) by blast
  have "i \<in># fin \<Longrightarrow> i < length ?h" for i using old arg_cong[OF fin(1), of set_mset] by auto
  then have same: "i \<in># fin \<Longrightarrow> path_of i ?h' = path_of i ?h" for i using evolves_path[OF d(2)] by blast
  have ac: "accounted good content ?h' fin (mset (s_printed s) + mset (m_underlying_queue (s_matches s)))"
    by (rule accounted_paths[OF fin(2) same])
  have mf: "mset (s_files ?s') = mset (pending ?s') + fin" using m fin(1) pm by simp
  show ?thesis unfolding search_inv_def
    using inv' sv(2-4,9) dis disj scan mf ac by (intro conjI exI[of _ fin]) simp_all
qed

lemma search_printer:
  assumes inv: "search_inv dt roots files content good ctx s"
    and pull: "pull_front (s_matches s) = Inr ((success, Some ml), q)"
  shows "search_inv dt roots files content good ctx
    (s\<lparr>s_matches := q, s_output := output_one ctx ml (s_output s), s_printed := s_printed s @ [ml]\<rparr>)"
proof -
  note sv = search_invD[OF inv]
  from pull_front_open[OF sv(4) pull] obtain xs where
    q: "m_underlying_queue (s_matches s) = ml # xs" "q = s_matches s\<lparr>m_underlying_queue := xs\<rparr>" by auto
  let ?s' = "s\<lparr>s_matches := q, s_output := output_one ctx ml (s_output s), s_printed := s_printed s @ [ml]\<rparr>"
  have p: "pending ?s' = pending s" by (simp add: pending_def waiting_def pool_of_def)
  have m: "mset (s_printed ?s') + mset (m_underlying_queue (s_matches ?s')) = mset (s_printed s) + mset (m_underlying_queue (s_matches s))"
    by (simp add: q)
  show ?thesis unfolding search_inv_def p m using sv(1-7,9) sv(8) q(2) by (intro conjI) simp_all
qed

text \<open>Dealing with a file does not disturb the traversal.\<close>

lemma traversal_undisturbed:
  assumes inv: "traversal_inv dt roots files ws sh" and u: "undisturbed i (m_heap sh) h'" and i: "i \<notin> dir_ids ws sh"
  shows "traversal_inv dt roots files ws (sh\<lparr>m_heap := h'\<rparr>)"
proof -
  note iv = inv[unfolded traversal_inv_def]
  let ?h = "m_heap sh" and ?sh = "sh\<lparr>m_heap := h'\<rparr>"
  have len: "length h' = length ?h" and ok: "heap_ok h'"
    and same: "\<And>k. k < length ?h \<Longrightarrow> names (h' ! k) = names (?h ! k)
        \<and> m_temp_dir_file_descriptor (h' ! k) = m_temp_dir_file_descriptor (?h ! k)
        \<and> (k \<noteq> i \<longrightarrow> readiness (h' ! k) = readiness (?h ! k))"
    using u by (simp_all add: undisturbed_def)
  have w: "world ?h" using iv by blast
  have w': "world h'" unfolding world_def
  proof (intro conjI allI impI)
    show "h' \<noteq> []" using len worldD(2)[OF w] by auto
    fix k assume k: "k < length h'" "0 < k"
    then show "m_at_dir (h' ! k) \<noteq> None" using worldD(3)[OF w, of k] same[of k] len by (simp add: names_def)
  qed (rule ok)
  have ids: "dir_ids ws ?sh = dir_ids ws sh" "file_ids ws ?sh = file_ids ws sh"
    by (simp_all add: dir_ids_def file_ids_def delivered_def)
  have lt: "dir_ids ws sh \<subseteq> {..<length ?h}" "file_ids ws sh \<subseteq> {..<length ?h}" using iv by auto
  have p: "path_of k h' = path_of k ?h" if "k < length ?h" for k by (rule undisturbed_path[OF u that])
  have paths: "paths h' (dir_ids ws sh) = paths ?h (dir_ids ws sh)" "paths h' (file_ids ws sh) = paths ?h (file_ids ws sh)"
    unfolding paths_def by (rule image_cong[OF refl], rule p, use lt(1) in blast, rule image_cong[OF refl], rule p, use lt(2) in blast)
  have un: "unopened h' k = unopened ?h k" if "k \<in> dir_ids ws sh" for k
  proof -
    have "k < length ?h" "k \<noteq> i" using that i lt(1) by auto
    then show ?thesis using same[of k] by (simp add: unopened_def readiness_def)
  qed
  have dq: "set (m_underlying_queue (m_dir_queue sh)) \<subseteq> dir_ids ws sh" "set (finished_dirs sh) \<subseteq> dir_ids ws sh"
    by (auto simp: dir_ids_def)
  have wok: "worker_ok dt h' D F v = worker_ok dt ?h D F v" if v: "v \<in> set ws" for v D F
  proof (cases v)
    case (Reading st d todo local)
    then have "d \<in> dir_ids ws sh" using v by (force simp: dir_ids_def)
    then have "d < length ?h" using lt(1) by auto
    then show ?thesis using same[of d] p[of d] by (simp add: worker_ok_def Reading)
  qed (simp_all add: worker_ok_def)
  have fok: "finished_ok dt h' D F d = finished_ok dt ?h D F d" if "d \<in> set (finished_dirs sh)" for d D F
  proof -
    have "d < length ?h" using that dq(2) lt(1) by auto
    then show ?thesis using p[of d] by (simp add: finished_ok_def)
  qed
  have un_q: "\<forall>k \<in> set (m_underlying_queue (m_dir_queue sh)). unopened h' k" using iv un dq(1) by blast
  have wok': "\<forall>v \<in> set ws. worker_ok dt h' (paths ?h (dir_ids ws sh)) (paths ?h (file_ids ws sh)) v"
    using iv wok by blast
  have fok': "\<forall>d \<in> set (finished_dirs sh). finished_ok dt h' (paths ?h (dir_ids ws sh)) (paths ?h (file_ids ws sh)) d"
    using iv fok by blast
  show ?thesis unfolding traversal_inv_def ids
    using iv w' un_q wok' fok' paths len by simp
qed

text \<open>What a scanner's step does, besides what \<open>pool_inv\<close> says.\<close>

context content_scanner begin

lemma pool_step_heap:
  assumes st: "pool_step alloc s scan p p'" and inv: "pool_inv good s content p0 p" and al: "\<forall>a n. alloc a n \<noteq> None"
  obtains (pull) t i q where "p' = take_file t i q p" and "pull_front (p_in p) = Inr ((success, Some i), q)"
      and "t < length (p_workers p)" and "w_file (p_workers p ! t) = None"
    | (deal) t i st where "p' = finish_file t None st p" and "undisturbed i (p_heap p) (p_heap p')"
      and "t < length (p_workers p)" and "w_file (p_workers p ! t) = Some i"
      and "length (m_underlying_queue (p_out p')) \<le> Suc (length (m_underlying_queue (p_out p)))"
  using st
proof (cases rule: pool_step_elim[consumes 1, case_names pull deal])
  case (pull t i q)
  then show thesis using that(1) by blast
next
  case (deal t i x st)
  have iw: "i \<in> set (waiting p)" using held_nth[OF deal(2,3)] by (simp add: waiting_def)
  have th: "t_heap (worker_thread p (p_workers p ! t)) = p_heap p" by (simp add: worker_thread_def)
  have sc: "to_scan s (t_heap (worker_thread p (p_workers p ! t))) i (content i)"
    using inv iw th by (simp add: pool_inv_def)
  obtain st' ms where b: "run_body alloc s scan i (worker_thread p (p_workers p ! t)) = Some (None, st')"
    "undisturbed i (t_heap (worker_thread p (p_workers p ! t))) (t_heap st')"
    "t_pushed st' = t_pushed (worker_thread p (p_workers p ! t)) @ report (t_heap (worker_thread p (p_workers p ! t))) i ms"
    by (rule run_body_spec[OF worker_thread_ok[OF inv nth_mem[OF deal(2)]] sc al])
  then have x: "x = None" "st' = st" using deal(4) by simp_all
  have "length (t_pushed st) \<le> Suc (length (m_underlying_queue (p_out p)))"
    using b(3) x(2) by (simp add: worker_thread_def report_def)
  with b(2) x deal(1-3) th show thesis by (intro that(2)[of t st i]) (simp_all add: finish_file_def)
qed

end

lemma accounted_add:
  assumes "accounted good content h fin out" and "\<forall>i \<in># fin'. outcome good (content (path_of i h)) (ms' i)"
    and d: "set_mset fin \<inter> set_mset fin' = {}"
  shows "accounted good content h (fin + fin') (out + reports h ms' fin')"
proof -
  obtain ms where ms: "\<forall>i \<in># fin. outcome good (content (path_of i h)) (ms i)" "out = reports h ms fin"
    using assms(1) by (auto simp: accounted_def)
  define m where "m = (\<lambda>i. if i \<in># fin' then ms' i else ms i)"
  have f: "i \<in># fin \<Longrightarrow> m i = ms i" "i \<in># fin' \<Longrightarrow> m i = ms' i" for i using d by (auto simp: m_def)
  have "reports h m fin = reports h ms fin" "reports h m fin' = reports h ms' fin'"
    unfolding reports_def by (rule arg_cong[where f = sum_mset], rule image_mset_cong, simp add: f)+
  then have "out + reports h ms' fin' = reports h m (fin + fin')" using ms(2) by (simp add: reports_def)
  moreover have "\<forall>i \<in># fin + fin'. outcome good (content (path_of i h)) (m i)" using ms(1) assms(2) f by auto
  ultimately show ?thesis unfolding accounted_def by blast
qed

lemma pool_of_with [simp]: "pool_of (with_pool p s) = p"
  by (cases p) (simp add: pool_of_def with_pool_def Let_def)

lemma with_pool_sel [simp]:
  "s_workers (with_pool p s) = s_workers s" "s_scanners (with_pool p s) = p_workers p" "s_matches (with_pool p s) = p_out p"
  "s_output (with_pool p s) = s_output s" "s_printed (with_pool p s) = s_printed s" "s_heap (with_pool p s) = p_heap p"
  by (simp_all add: with_pool_def Let_def)

lemma with_pool_pull:
  assumes "m_underlying_queue (m_out_queue (s_shared s)) = i # m_underlying_queue q" and "p = take_file t i q (pool_of s)"
  shows "s_shared (with_pool p s) = (s_shared s)\<lparr>m_out_queue := q, taken := taken (s_shared s) @ [i]\<rparr>"
  using assms by (cases "s_shared s") (simp add: with_pool_def pool_of_def take_file_def Let_def)

lemma with_pool_deal:
  assumes "p = finish_file t x st (pool_of s)"
  shows "s_shared (with_pool p s) = (s_shared s)\<lparr>m_heap := p_heap p\<rparr>"
  using assms by (cases "s_shared s") (simp add: with_pool_def pool_of_def finish_file_def Let_def)

text \<open>The pool as the theory ScanRun has it.\<close>

abbreviation contents :: "(string \<Rightarrow> string option) \<Rightarrow> heap \<Rightarrow> nat \<Rightarrow> string option" where
  "contents content h \<equiv> \<lambda>i. content (path_of i h)"

lemma search_pending:
  assumes "search_inv dt roots files content good ctx s"
  shows "distinct (pending s)" "set (pending s) \<subseteq> set (s_files s)" "set (waiting (pool_of s)) \<subseteq> set (pending s)"
proof -
  note sv = search_invD[OF assms]
  obtain fin where "mset (s_files s) = mset (pending s) + fin" using sv(8) by blast
  moreover obtain xs where "fin = mset xs" by (metis ex_mset)
  ultimately have e: "mset (s_files s) = mset (pending s @ xs)" by simp
  then have "distinct (pending s @ xs)" using sv(5) mset_eq_imp_distinct_iff by blast
  then show "distinct (pending s)" by simp
  show "set (pending s) \<subseteq> set (s_files s)" using arg_cong[OF e, of set_mset] by auto
  show "set (waiting (pool_of s)) \<subseteq> set (pending s)" by (auto simp: pending_def)
qed

lemma search_pool_ready:
  assumes inv: "search_inv dt roots files content good ctx s"
  shows "pool_ready (m_os dt) (contents content (s_heap s)) (pool_of s)"
proof -
  note sv = search_invD[OF inv] and p = search_pending[OF inv]
  have "heap_ok (s_heap s)" using sv(1) unfolding traversal_inv_def world_def by blast
  moreover have "distinct (waiting (pool_of s))" using p(1) by (simp add: pending_def)
  moreover have "\<forall>i \<in> set (waiting (pool_of s)). to_scan (m_os dt) (s_heap s) i (content (path_of i (s_heap s)))"
    using sv(7) p(3) by blast
  ultimately show ?thesis using sv(2-4) by (simp add: pool_ready_def scanners_ok_def pool_of_def)
qed

context content_scanner begin

lemma search_scanner:
  assumes al: "\<forall>a n. alloc a n \<noteq> None" and inv: "search_inv dt roots files content good ctx s"
    and step: "pool_step alloc (m_os dt) scan (pool_of s) p"
  shows "search_inv dt roots files content good ctx (with_pool p s)"
proof -
  let ?s' = "with_pool p s" and ?h = "s_heap s" and ?h' = "p_heap p" and ?c = "contents content (s_heap s)"
  note sv = search_invD[OF inv] and pd = search_pending[OF inv]
  have ready: "pool_ready (m_os dt) ?c (pool_of s)" by (rule search_pool_ready[OF inv])
  note i0 = pool_ready_inv[OF ready, of good]
  have dw: "distinct (waiting (pool_of s))" using ready by (simp add: pool_ready_def)
  have i1: "pool_inv good (m_os dt) ?c (pool_of s) p" using pool_step_inv[OF step i0 dw al] by blast
  note pv = i1[unfolded pool_inv_def]
  have h0: "p_heap (pool_of s) = ?h" by (simp add: pool_of_def)
  have old: "i \<in> set (s_files s) \<Longrightarrow> i < length ?h" for i by (rule s_files_bound[OF inv])
  have cases: "mset (s_files ?s') = mset (s_files s)
      \<and> traversal_inv dt roots files (s_workers s) (s_shared ?s') \<and> dir_ids (s_workers s) (s_shared ?s') = dir_ids (s_workers s) (s_shared s)
      \<and> (\<exists>i. i \<notin> set (concat (map local_of (s_workers s))) \<and> undisturbed i ?h ?h')"
  proof (cases rule: pool_step_heap[OF step i0 al])
    case (1 t i q)
    then have pf: "pull_front (m_out_queue (s_shared s)) = Inr ((success, Some i), q)" by (simp add: pool_of_def)
    have "\<not> m_closed (m_out_queue (s_shared s))" using sv(1) unfolding traversal_inv_def by blast
    from pull_front_open[OF this pf] have q: "m_underlying_queue (m_out_queue (s_shared s)) = i # m_underlying_queue q" by auto
    note sh = with_pool_pull[OF q 1(1)]
    have "heap_ok ?h" using sv(1) unfolding traversal_inv_def world_def by blast
    moreover have "?h' = ?h" by (simp add: 1(1) take_file_def h0)
    moreover have "i \<in> set (waiting (pool_of s))" by (simp add: waiting_def pool_of_def q)
    then have "i \<notin> set (concat (map local_of (s_workers s)))" using pd(1) by (auto simp: pending_def)
    ultimately show ?thesis
      using consumer_inv[OF sv(1) pf] q undisturbed_frame[of ?h ?h i]
      by (auto simp: sh files_of_def dir_ids_def)
  next
    case (2 t i st)
    have iw: "i \<in> set (waiting (pool_of s))" using held_nth[OF 2(3,4)] by (simp add: waiting_def)
    then have "i \<notin> set (concat (map local_of (s_workers s)))" "i \<notin> dir_ids (s_workers s) (s_shared s)"
      using pd sv(6) by (auto simp: pending_def)
    moreover have "undisturbed i ?h ?h'" using 2(2) h0 by simp
    ultimately show ?thesis
      using traversal_undisturbed[OF sv(1), of i ?h'] by (auto simp: with_pool_deal[OF 2(1)] files_of_def dir_ids_def)
  qed
  then obtain i where i: "i \<notin> set (concat (map local_of (s_workers s)))" "undisturbed i ?h ?h'" by blast
  have path: "k < length ?h \<Longrightarrow> path_of k ?h' = path_of k ?h" for k by (rule undisturbed_path[OF i(2)])
  have mf: "mset (s_files ?s') = mset (s_files s)" using cases by simp
  then have sf: "set (s_files ?s') = set (s_files s)" "distinct (s_files ?s')"
    using sv(5) by (metis set_mset_mset, metis mset_eq_imp_distinct_iff)
  obtain fin ms where new: "mset (waiting (pool_of s)) = mset (waiting p) + fin" "\<forall>i \<in># fin. outcome good (?c i) (ms i)"
    "mset (m_underlying_queue (p_out p)) = mset (m_underlying_queue (s_matches s)) + reports ?h ms fin"
    using pv h0 by (auto simp: pool_of_def)
  obtain fin0 where fin0: "mset (s_files s) = mset (pending s) + fin0"
    "accounted good content ?h fin0 (mset (s_printed s) + mset (m_underlying_queue (s_matches s)))" using sv(8) by blast
  have pm: "mset (pending s) = mset (pending ?s') + fin" using new(1) by (simp add: pending_def)
  have fp: "set_mset fin \<subseteq> set (pending s)" "set (pending ?s') \<subseteq> set (pending s)" using arg_cong[OF pm, of set_mset] by auto
  obtain xs where "fin0 = mset xs" by (metis ex_mset)
  with fin0(1) have "mset (s_files s) = mset (pending s @ xs)" by simp
  then have "distinct (pending s @ xs)" using sv(5) mset_eq_imp_distinct_iff by blast
  then have disj: "set_mset fin0 \<inter> set_mset fin = {}" using fp(1) \<open>fin0 = mset xs\<close> by auto
  have "accounted good content ?h (fin0 + fin) (mset (s_printed s) + mset (m_underlying_queue (s_matches s)) + reports ?h ms fin)"
    by (rule accounted_add[OF fin0(2) new(2) disj])
  then have ac0: "accounted good content ?h (fin0 + fin) (mset (s_printed s) + mset (m_underlying_queue (p_out p)))"
    by (simp add: new(3) add.assoc)
  have mfin: "mset (s_files ?s') = mset (pending ?s') + (fin0 + fin)" using mf fin0(1) pm by simp
  have "k \<in># fin0 + fin \<Longrightarrow> k \<in> set (s_files s)" for k using arg_cong[OF mfin, of set_mset] sf(1) by auto
  then have same: "k \<in># fin0 + fin \<Longrightarrow> path_of k ?h' = path_of k ?h" for k using path old by blast
  have ac: "accounted good content ?h' (fin0 + fin) (mset (s_printed s) + mset (m_underlying_queue (p_out p)))"
    by (rule accounted_paths[OF ac0 same])
  have scan: "to_scan (m_os dt) ?h' k (content (path_of k ?h'))" if k: "k \<in> set (pending ?s')" for k
  proof -
    have kp: "k \<in> set (pending s)" using k fp(2) by blast
    then have e: "path_of k ?h' = path_of k ?h" using pd(2) path old by blast
    consider "k \<in> set (waiting p)" | "k \<in> set (concat (map local_of (s_workers s)))" using k by (auto simp: pending_def)
    then show ?thesis
    proof cases
      case 1
      then have "to_scan (m_os dt) ?h' k (?c k)" using pv by blast
      then show ?thesis by (simp add: e)
    next
      case 2
      then have "k \<noteq> i" using i(1) by blast
      from undisturbed_to_scan[OF i(2) this sv(7)[OF kp]] show ?thesis by (simp add: e)
    qed
  qed
  have wk: "scanners_ok (p_workers p)" "p_workers p \<noteq> []" "\<not> m_closed (p_out p)"
    using pv sv(3) by (auto simp: scanners_ok_def pool_of_def)
  show ?thesis unfolding search_inv_def with_pool_sel
    using cases sv(6,9) wk sf scan mfin ac by (intro conjI exI[of _ "fin0 + fin"]) simp_all
qed

lemma search_step_inv:
  assumes "quiet_junk dt" and "honest dt roots files content" and "\<forall>a n. alloc a n \<noteq> None"
    and inv: "search_inv dt roots files content good ctx s" and step: "search_step dt alloc scan ctx s s'"
  shows "search_inv dt roots files content good ctx s'"
  using step
proof (cases rule: search_step_elim[consumes 1, case_names globber scanner printer])
  case (globber t w sh')
  then show ?thesis using search_globber[OF assms(1,2) inv] by simp
next
  case (scanner p)
  then show ?thesis using search_scanner[OF assms(3) inv] by simp
next
  case (printer ml q)
  then show ?thesis using search_printer[OF inv] by simp
qed

lemma search_steps_inv:
  assumes "quiet_junk dt" and "honest dt roots files content" and "\<forall>a n. alloc a n \<noteq> None"
    and "search_inv dt roots files content good ctx s" and "(search_step dt alloc scan ctx)\<^sup>*\<^sup>* s s'"
  shows "search_inv dt roots files content good ctx s'"
  using assms(5,4) search_step_inv[OF assms(1-3)] by (induction rule: rtranclp_induct) blast+

end

subsection \<open>The start\<close>

text \<open>What \<open>stat\<close> says of the files of the command line agrees with their content.\<close>

definition honest_paths :: "dir_tree \<Rightarrow> string list \<Rightarrow> (string \<Rightarrow> string option) \<Rightarrow> bool" where
  "honest_paths dt ps content \<longleftrightarrow>
     honest dt (named S_IFDIR dt ps) (named S_IFREG dt ps) content
     \<and> (\<forall>p \<in> set ps. \<forall>sb. sys_fstatat (m_os dt) (root_descriptor dt) (clean_up_path p) True = Some sb \<longrightarrow> st_mode sb = S_IFREG
          \<longrightarrow> fits (content (clean_up_path p)) sb)"

definition new_scanner :: "memory \<Rightarrow> scan_worker" where
  "new_scanner mem = \<lparr>w_file = None, w_storage = ResizableArray_init, w_memory = mem, w_ml = MatchList_init, w_error = None\<rparr>"

text \<open>The threads when all of them have been started, with \<open>jobs\<close> scanners.\<close>

definition threads_started :: "nat \<Rightarrow> memory \<Rightarrow> worker list \<times> shared \<Rightarrow> search" where
  "threads_started jobs mem = (\<lambda>(ws, sh).
     \<lparr>s_workers = ws, s_shared = sh, s_scanners = replicate jobs (new_scanner mem), s_matches = sync_queue_init,
      s_output = \<lparr>first_matchlist_printed = False, cout = [], m_total_matched_lines = 0\<rparr>, s_printed = []\<rparr>)"

definition start_search :: "dir_tree \<Rightarrow> string list \<Rightarrow> nat \<Rightarrow> nat \<Rightarrow> memory \<Rightarrow> search option" where
  "start_search dt ps dirjobs jobs mem = map_option (threads_started jobs mem) (Scandir dt ps dirjobs sync_queue_init)"

text \<open>The heap after one path of the command line.\<close>

lemma scan_path_heap:
  assumes r: "m_temp_dir_file_descriptor (m_heap sh ! 0) = root_descriptor dt" and len: "0 < length (m_heap sh)"
    and sp: "scan_path dt p sh = Some sh'"
  obtains f where "m_heap sh' = m_heap sh @ [f]" and "m_at_dir f = Some 0" and "m_basename f = clean_up_path p"
    and "m_path f = m_path (start_file p)" and "m_file_descriptor f = -987" and "m_valid_bits f = V_UUID OR V_STATINFO OR V_TYPE"
    and "taken sh' = taken sh" and "finished_dirs sh' = finished_dirs sh"
    and "m_dir_queue sh' = m_dir_queue sh \<or> m_dir_queue sh' = snd (push_back (length (m_heap sh)) (m_dir_queue sh))"
    and "m_out_queue sh' = m_out_queue sh
      \<or> (\<exists>sb. sys_fstatat (m_os dt) (root_descriptor dt) (clean_up_path p) True = Some sb \<and> st_mode sb = S_IFREG
            \<and> m_dir_queue sh' = m_dir_queue sh \<and> m_out_queue sh' = snd (push_back (length (m_heap sh)) (m_out_queue sh))
            \<and> m_open_flags f = file_flags \<and> m_size f = st_size sb \<and> m_block_size f = st_blksize sb)"
proof -
  let ?h = "m_heap sh" and ?i = "length (m_heap sh)" and ?f = "start_file p"
  have st: "FStatAt (m_os dt) 0 (clean_up_path p) True (?h @ [?f]) = sys_fstatat (m_os dt) (root_descriptor dt) (clean_up_path p) True"
    using len r by (simp add: FStatAt_def nth_append)
  define f1 where "f1 = (case sys_fstatat (m_os dt) (root_descriptor dt) (clean_up_path p) True of
      Some sb \<Rightarrow> SetStatInfo sb ?f | None \<Rightarrow> ?f\<lparr>m_file_type := FT_STAT_FAILED\<rparr>)"
  define f2 where "f2 = f1\<lparr>m_valid_bits := V_UUID OR V_STATINFO OR V_TYPE\<rparr>"
  have v: "m_valid_bits f1 = 0" by (simp add: f1_def SetStatInfo_def start_file_fields split: option.split)
  have "LazyLoadStatInfo (m_os dt) ?i (?h @ [?f]) = Some (?h @ [f1])"
    using start_file_fields by (simp add: LazyLoadStatInfo_def Let_def st f1_def update_id_def split: option.split)
  then have t: "GetFileType (m_os dt) ?i (?h @ [?f]) = Some (m_file_type f1, ?h @ [f2])"
    using start_file_fields by (simp add: GetFileType_def ensure_stat_def set_valid_def update_id_def f2_def v)
  define g where "g = (if m_file_type f1 = FT_REG then SetFileDescriptorMode FAM_RDONLY (FCF_NOATIME OR FCF_NOCTTY) f2
      else if m_file_type f1 = FT_DIR then SetFileDescriptorMode FAM_RDONLY dir_flags f2 else f2)"
  have sh': "sh' = (if m_file_type f1 = FT_REG then sh\<lparr>m_heap := ?h @ [g], m_out_queue := snd (push_back ?i (m_out_queue sh))\<rparr>
      else if m_file_type f1 = FT_DIR then sh\<lparr>m_heap := ?h @ [g], m_dir_queue := snd (push_back ?i (m_dir_queue sh))\<rparr>
      else sh\<lparr>m_heap := ?h @ [g]\<rparr>)"
    using sp t by (auto simp: scan_path_def make_shared_def g_def update_id_def)
  have gf: "m_at_dir g = Some 0" "m_basename g = clean_up_path p" "m_path g = m_path ?f" "m_file_descriptor g = -987"
    "m_valid_bits g = V_UUID OR V_STATINFO OR V_TYPE"
    using start_file_fields
    by (simp_all add: g_def f2_def f1_def SetFileDescriptorMode_def SetStatInfo_def split: option.split)
  have "\<exists>sb. sys_fstatat (m_os dt) (root_descriptor dt) (clean_up_path p) True = Some sb \<and> st_mode sb = S_IFREG
      \<and> m_open_flags g = file_flags \<and> m_size g = st_size sb \<and> m_block_size g = st_blksize sb"
    if reg: "m_file_type f1 = FT_REG"
  proof (cases "sys_fstatat (m_os dt) (root_descriptor dt) (clean_up_path p) True")
    case None
    then show ?thesis using reg by (simp add: f1_def)
  next
    case (Some sb)
    then have "st_mode sb = S_IFREG" using reg by (simp add: f1_def SetStatInfo_def split: st_mode.splits)
    with Some reg show ?thesis
      by (simp add: g_def f2_def SetFileDescriptorMode_def file_flags_def or.commute) (simp add: f1_def SetStatInfo_def)
  qed
  then show thesis using gf by (intro that[of g]) (auto simp: sh')
qed

definition start_files :: "dir_tree \<Rightarrow> (string \<Rightarrow> string option) \<Rightarrow> shared \<Rightarrow> bool" where
  "start_files dt content sh \<longleftrightarrow>
     taken sh = [] \<and> finished_dirs sh = [] \<and> distinct (m_underlying_queue (m_out_queue sh))
     \<and> set (m_underlying_queue (m_out_queue sh)) \<inter> insert 0 (set (m_underlying_queue (m_dir_queue sh))) = {}
     \<and> (\<forall>i \<in> set (m_underlying_queue (m_out_queue sh)). to_scan (m_os dt) (m_heap sh) i (content (path_of i (m_heap sh))))"

lemma scan_path_files:
  assumes s: "scanning dt roots files sh" and sf: "start_files dt content sh" and sp: "scan_path dt p sh = Some sh'"
    and sv: "start_type dt p = Some S_IFREG \<Longrightarrow> serves (m_os dt) (clean_up_path p) (content (clean_up_path p))"
    and ft: "\<And>sb. sys_fstatat (m_os dt) (root_descriptor dt) (clean_up_path p) True = Some sb \<Longrightarrow> st_mode sb = S_IFREG
      \<Longrightarrow> fits (content (clean_up_path p)) sb"
  shows "start_files dt content sh'"
proof -
  let ?h = "m_heap sh" and ?i = "length (m_heap sh)"
  let ?q = "m_underlying_queue (m_out_queue sh)" and ?d = "m_underlying_queue (m_dir_queue sh)"
  have inv: "traversal_inv dt roots files [Exited] sh" and p0: "path_of 0 ?h = ''.''"
    and t0: "m_temp_dir_file_descriptor (?h ! 0) = root_descriptor dt"
    using s by (simp_all add: scanning_def)
  note iv = inv[unfolded traversal_inv_def]
  have w: "world ?h" and cl: "\<not> m_closed (m_dir_queue sh)" "\<not> m_closed (m_out_queue sh)" using iv by blast+
  have len: "0 < ?i" by (rule worldD(2)[OF w])
  obtain f where f: "m_heap sh' = ?h @ [f]" "m_at_dir f = Some 0" "m_basename f = clean_up_path p" "m_path f = m_path (start_file p)"
    "m_file_descriptor f = -987" "m_valid_bits f = V_UUID OR V_STATINFO OR V_TYPE"
    and same: "taken sh' = taken sh" "finished_dirs sh' = finished_dirs sh"
    and dq: "m_dir_queue sh' = m_dir_queue sh \<or> m_dir_queue sh' = snd (push_back ?i (m_dir_queue sh))"
    and oq: "m_out_queue sh' = m_out_queue sh
      \<or> (\<exists>sb. sys_fstatat (m_os dt) (root_descriptor dt) (clean_up_path p) True = Some sb \<and> st_mode sb = S_IFREG
            \<and> m_dir_queue sh' = m_dir_queue sh \<and> m_out_queue sh' = snd (push_back ?i (m_out_queue sh))
            \<and> m_open_flags f = file_flags \<and> m_size f = st_size sb \<and> m_block_size f = st_blksize sb)"
    by (rule scan_path_heap[OF t0 len sp])
  have pn: "path_of ?i (?h @ [f]) = clean_up_path p"
    using path_of_append_last[of f 0 ?h] len p0 f(2,3) by (simp add: entry_path_def join_path_def)
  have vp: "(V_UUID OR V_STATINFO OR V_TYPE) AND V_PATH = 0" "(V_UUID OR V_STATINFO OR V_TYPE) AND V_FILE_DESC = 0"
    by (simp_all add: valid_defs)
  have "file_ok ?i (?h @ [f])" using len pn f vp start_file_fields(3) by (auto simp: file_ok_def)
  then have ev: "evolves {} ?h (m_heap sh')" using evolves_append[OF w] f(1,2) by simp
  have k: "keeps ?i ?h (m_heap sh')" by (simp add: f(1) keeps_append)
  have lt: "set ?q \<subseteq> {..<?i}" "set ?d \<subseteq> {0<..<?i}" using iv by (auto simp: dir_ids_def file_ids_def delivered_def)
  have old: "to_scan (m_os dt) (m_heap sh') i (content (path_of i (m_heap sh')))" if i: "i \<in> set ?q" for i
  proof -
    have "i < ?i" using i lt(1) by auto
    with keeps_to_scan[OF k ev, of i "m_os dt"] sf i evolves_path[OF ev] show ?thesis by (simp add: start_files_def)
  qed
  have dis: "distinct ?q" "set ?q \<inter> insert 0 (set ?d) = {}" using sf by (simp_all add: start_files_def)
  from oq show ?thesis
  proof (elim disjE exE conjE)
    assume e: "m_out_queue sh' = m_out_queue sh"
    have "set (m_underlying_queue (m_dir_queue sh')) \<subseteq> insert ?i (set ?d)" using dq push_back_open(1)[OF cl(1), of ?i] by auto
    then show ?thesis using sf dis lt(1) old by (fastforce simp: start_files_def e same)
  next
    fix sb assume sb: "sys_fstatat (m_os dt) (root_descriptor dt) (clean_up_path p) True = Some sb" "st_mode sb = S_IFREG"
      and e: "m_dir_queue sh' = m_dir_queue sh" "m_out_queue sh' = snd (push_back ?i (m_out_queue sh))"
      and g: "m_open_flags f = file_flags" "m_size f = st_size sb" "m_block_size f = st_blksize sb"
    have "start_type dt p = Some S_IFREG" using sb by (simp add: start_type_def)
    then have "to_scan (m_os dt) (m_heap sh') ?i (content (clean_up_path p))" unfolding f(1)
      using sv ft[OF sb] f g vp pn len by (intro ready_file) auto
    then have new: "to_scan (m_os dt) (m_heap sh') ?i (content (path_of ?i (m_heap sh')))" by (simp add: f(1) pn)
    have "?i \<notin> set ?q" "?i \<notin> insert 0 (set ?d)" using lt len by auto
    then show ?thesis using sf dis old new by (auto simp: start_files_def e push_back_open[OF cl(2)] same)
  qed
qed

lemma scan_paths_files:
  assumes "\<And>p. p \<in> set ps \<Longrightarrow> start_type dt p = Some S_IFREG \<Longrightarrow> serves (m_os dt) (clean_up_path p) (content (clean_up_path p))"
    and "\<And>p sb. p \<in> set ps \<Longrightarrow> sys_fstatat (m_os dt) (root_descriptor dt) (clean_up_path p) True = Some sb \<Longrightarrow> st_mode sb = S_IFREG
      \<Longrightarrow> fits (content (clean_up_path p)) sb"
    and "scanning dt roots files sh" and "start_files dt content sh" and "scan_paths dt ps sh = Some sh'"
  shows "start_files dt content sh'"
  using assms
proof (induction ps arbitrary: roots files sh)
  case (Cons p ps)
  obtain sh1 where 1: "scan_path dt p sh = Some sh1"
    "scanning dt (roots \<union> named S_IFDIR dt [p]) (files \<union> named S_IFREG dt [p]) sh1"
    by (rule scan_path_scanning[OF Cons.prems(3)])
  have "start_files dt content sh1"
    by (rule scan_path_files[OF Cons.prems(3,4) 1(1)]) (use Cons.prems(1,2)[of p] in simp_all)
  from Cons.IH[OF _ _ 1(2) this] Cons.prems 1(1) show ?case by simp
qed simp

lemma start_search_inv:
  assumes hon: "honest_paths dt ps content" and jobs: "0 < jobs"
  obtains s where "start_search dt ps dirjobs jobs mem = Some s"
    and "search_inv dt (named S_IFDIR dt ps) (named S_IFREG dt ps) content good ctx s"
    and "s_workers s = replicate dirjobs (Pulling stats_init)"
proof -
  let ?R = "named S_IFDIR dt ps" and ?F = "named S_IFREG dt ps"
  obtain ws sh where sc: "Scandir dt ps dirjobs sync_queue_init = Some (ws, sh)" and inv: "traversal_inv dt ?R ?F ws sh"
    and ws: "ws = replicate dirjobs (Pulling stats_init)"
    by (rule Scandir_starts)
  obtain sh0 where sh0: "scan_paths dt ps (shared_init dt sync_queue_init) = Some sh0" "sh = sh0\<lparr>m_heap := CloseDir 0 (m_heap sh0)\<rparr>"
    using sc by (auto simp: Scandir_def)
  have i0: "start_files dt content (shared_init dt sync_queue_init)"
    by (simp add: start_files_def shared_init_def sync_queue_init_def)
  have sf: "start_files dt content sh0"
  proof (rule scan_paths_files[OF _ _ shared_init_scanning i0 sh0(1)])
    fix p assume p: "p \<in> set ps" "start_type dt p = Some S_IFREG"
    then have "DirTraversal.found dt ?R ?F (clean_up_path p)" by (auto intro!: DirTraversal.found.named simp: named_def)
    then show "serves (m_os dt) (clean_up_path p) (content (clean_up_path p))"
      using hon unfolding honest_paths_def honest_def by blast
  qed (use hon in \<open>auto simp: honest_paths_def\<close>)
  have sn: "scanning dt ({} \<union> ?R) ({} \<union> ?F) sh0"
    using scan_paths_scanning[OF shared_init_scanning, of dt ps] sh0(1) by auto
  have w0: "world (m_heap sh0)" and lt: "set (m_underlying_queue (m_out_queue sh0)) \<subseteq> {..<length (m_heap sh0)}"
    using sn unfolding scanning_def traversal_inv_def by (blast, auto simp: file_ids_def delivered_def)
  have ev: "evolves {0} (m_heap sh0) (m_heap sh)" using CloseDir_evolves[OF w0] by (simp add: sh0(2))
  have k: "keeps 0 (m_heap sh0) (m_heap sh)" by (simp add: sh0(2) CloseDir_def keeps_update)
  have q: "m_underlying_queue (m_out_queue sh) = m_underlying_queue (m_out_queue sh0)" by (simp add: sh0(2))
  have scan: "to_scan (m_os dt) (m_heap sh) i (content (path_of i (m_heap sh)))" if i: "i \<in> set (m_underlying_queue (m_out_queue sh))" for i
  proof -
    have "i \<noteq> 0" "i < length (m_heap sh0)" "to_scan (m_os dt) (m_heap sh0) i (content (path_of i (m_heap sh0)))"
      using i sf lt by (auto simp: q start_files_def)
    with keeps_to_scan[OF k ev] evolves_path[OF ev] show ?thesis by simp
  qed
  define s where "s = \<lparr>s_workers = ws, s_shared = sh, s_scanners = replicate jobs (new_scanner mem), s_matches = sync_queue_init,
      s_output = \<lparr>first_matchlist_printed = False, cout = [], m_total_matched_lines = 0\<rparr>, s_printed = []\<rparr>"
  have loc: "concat (map local_of ws) = []" "concat (map dir_of ws) = []" by (simp_all add: ws)
  have held: "held (replicate jobs (new_scanner mem)) = []" by (simp add: held_def new_scanner_def)
  have files: "s_files s = m_underlying_queue (m_out_queue sh)" "pending s = m_underlying_queue (m_out_queue sh)"
    using sf loc held by (simp_all add: files_of_def pending_def waiting_def pool_of_def start_files_def s_def sh0(2))
  have dirs: "dir_ids ws sh = set (m_underlying_queue (m_dir_queue sh0))"
    using sf loc by (simp add: dir_ids_def start_files_def sh0(2))
  have "array_ok ResizableArray_init" by (simp add: ResizableArray_init_def array_ok_def)
  then have scs: "scanners_ok (s_scanners s)" "s_scanners s \<noteq> []" "\<not> m_closed (s_matches s)"
    using jobs by (simp_all add: s_def scanners_ok_def new_scanner_def MatchList_init_def sync_queue_init_def)
  have ac: "accounted good content (s_heap s) {#} (mset (s_printed s) + mset (m_underlying_queue (s_matches s)))"
    by (simp add: accounted_def reports_def s_def sync_queue_init_def)
  have "traversal_inv dt ?R ?F (s_workers s) (s_shared s)" using inv by (simp add: s_def)
  moreover have "dir_ids (s_workers s) (s_shared s) = set (m_underlying_queue (m_dir_queue sh0))" by (simp add: s_def dirs)
  then have "distinct (s_files s)" "set (s_files s) \<inter> dir_ids (s_workers s) (s_shared s) = {}"
    using sf by (auto simp: files(1) q start_files_def)
  moreover have "\<forall>i \<in> set (pending s). to_scan (m_os dt) (s_heap s) i (content (path_of i (s_heap s)))"
    using scan unfolding files by (simp add: s_def)
  moreover have "s_output s = fold (output_one ctx) (s_printed s) \<lparr>first_matchlist_printed = False, cout = [], m_total_matched_lines = 0\<rparr>"
    by (simp add: s_def)
  moreover have "mset (s_files s) = mset (pending s) + {#}" by (simp add: files)
  ultimately have "search_inv dt ?R ?F content good ctx s"
    unfolding search_inv_def using scs ac by (intro conjI exI[of _ "{#}"])
  with that[of s] sc ws show thesis by (simp add: start_search_def threads_started_def s_def)
qed

subsection \<open>What is reported\<close>

lemma accounted_out:
  assumes "accounted good content h fin out" and "ml \<in># out"
  obtains i where "i \<in># fin" and "m_filename ml = path_of i h" and "m_match_list ml \<noteq> []"
    and "outcome good (content (path_of i h)) (m_match_list ml)"
proof -
  obtain ms where ms: "\<forall>i \<in># fin. outcome good (content (path_of i h)) (ms i)" "out = reports h ms fin"
    using assms(1) by (auto simp: accounted_def)
  from assms(2) ms(2) obtain i where i: "i \<in># fin" "ml \<in> set (report h i (ms i))" by (auto simp: reports_def)
  with that[OF i(1)] ms(1) show thesis by (auto simp: report_def split: if_splits)
qed

lemma accounted_in:
  assumes "accounted good content h fin out" and "i \<in># fin"
  obtains ms where "outcome good (content (path_of i h)) ms"
    and "ms \<noteq> [] \<Longrightarrow> \<lparr>m_filename = path_of i h, m_match_list = ms\<rparr> \<in># out"
proof -
  obtain ms where ms: "\<forall>i \<in># fin. outcome good (content (path_of i h)) (ms i)" "out = reports h ms fin"
    using assms(1) by (auto simp: accounted_def)
  have "\<lparr>m_filename = path_of i h, m_match_list = ms i\<rparr> \<in># out" if "ms i \<noteq> []"
  proof -
    have "\<lparr>m_filename = path_of i h, m_match_list = ms i\<rparr> \<in># mset (report h i (ms i))" using that by (simp add: report_def)
    with assms(2) show ?thesis unfolding ms(2) reports_def by (auto intro!: bexI[of _ i])
  qed
  with that[of "ms i"] ms(1) assms(2) show thesis by blast
qed

text \<open>All the threads wait, and nothing is left for them.\<close>

definition at_rest :: "search \<Rightarrow> bool" where
  "at_rest s \<longleftrightarrow> idle (s_workers s) (s_shared s) \<and> waiting (pool_of s) = [] \<and> m_underlying_queue (s_matches s) = []"

lemma at_rest_pending: "at_rest s \<Longrightarrow> pending s = []"
proof -
  assume r: "at_rest s"
  then have "local_of w = []" if "w \<in> set (s_workers s)" for w using that by (auto simp: at_rest_def)
  with r show ?thesis by (simp add: pending_def at_rest_def)
qed

definition reported_ok ::
    "dir_tree \<Rightarrow> string set \<Rightarrow> string set \<Rightarrow> (string \<Rightarrow> string option) \<Rightarrow> (string \<Rightarrow> match_line list \<Rightarrow> bool) \<Rightarrow>
     match_list \<Rightarrow> bool" where
  "reported_ok dt roots files content good ml \<longleftrightarrow>
     DirTraversal.found dt roots files (m_filename ml) \<and> m_match_list ml \<noteq> []
     \<and> outcome good (content (m_filename ml)) (m_match_list ml)"

lemma search_inv_reports:
  assumes inv: "search_inv dt roots files content good ctx s" and ml: "ml \<in> set (s_printed s) \<union> set (m_underlying_queue (s_matches s))"
  shows "reported_ok dt roots files content good ml"
proof -
  note sv = search_invD[OF inv]
  obtain fin where fin: "mset (s_files s) = mset (pending s) + fin"
    "accounted good content (s_heap s) fin (mset (s_printed s) + mset (m_underlying_queue (s_matches s)))" using sv(8) by blast
  have "ml \<in># mset (s_printed s) + mset (m_underlying_queue (s_matches s))" using ml by simp
  from accounted_out[OF fin(2) this] obtain i where i: "i \<in># fin" "m_filename ml = path_of i (s_heap s)" "m_match_list ml \<noteq> []"
    "outcome good (content (path_of i (s_heap s))) (m_match_list ml)" by blast
  have "i \<in> set (s_files s)" using i(1) arg_cong[OF fin(1), of set_mset] by auto
  then have "path_of i (s_heap s) \<in> paths (s_heap s) (file_ids (s_workers s) (s_shared s))" by (auto simp: files_of_ids paths_def)
  with inv_found[OF sv(1)] i(2-4) show ?thesis by (auto simp: reported_ok_def)
qed

lemma search_inv_complete:
  assumes inv: "search_inv dt roots files content good ctx s" and rest: "at_rest s" and nf: "\<not> m_follow_symlinks dt"
    and p: "DirTraversal.found dt roots files p"
  shows "\<exists>ms. outcome good (content p) ms \<and> (ms \<noteq> [] \<longrightarrow> \<lparr>m_filename = p, m_match_list = ms\<rparr> \<in> set (s_printed s))"
proof -
  note sv = search_invD[OF inv]
  obtain fin where fin: "mset (s_files s) = mset (pending s) + fin"
    "accounted good content (s_heap s) fin (mset (s_printed s) + mset (m_underlying_queue (s_matches s)))" using sv(8) by blast
  have f: "fin = mset (s_files s)" using fin(1) at_rest_pending[OF rest] by simp
  have q: "m_underlying_queue (s_matches s) = []" using rest by (simp add: at_rest_def)
  have "idle (s_workers s) (s_shared s)" using rest by (simp add: at_rest_def)
  from idle_complete(2)[OF sv(1) this nf p] obtain i where i: "i \<in> delivered (s_shared s)" "p = path_of i (s_heap s)"
    by (auto simp: paths_def)
  have "i \<in># fin" unfolding f using i(1) by (simp add: files_of_def delivered_def Un_commute)
  from accounted_in[OF fin(2) this] show ?thesis using i(2) q by (metis empty_neutral(2) mset.simps(1) set_mset_mset)
qed

subsection \<open>The search ends\<close>

definition backlog :: "search \<Rightarrow> nat" where
  "backlog s = 3 * length (m_underlying_queue (m_out_queue (s_shared s))) + 2 * length (held (s_scanners s))
     + length (m_underlying_queue (s_matches s))"

definition search_measure :: "(string \<Rightarrow> nat) \<Rightarrow> search \<Rightarrow> (nat \<times> nat \<times> nat) multiset \<times> nat" where
  "search_measure rank s = (traversal_measure rank (s_workers s) (s_shared s), backlog s)"

abbreviation search_less :: "(((nat \<times> nat \<times> nat) multiset \<times> nat) \<times> ((nat \<times> nat \<times> nat) multiset \<times> nat)) set" where
  "search_less \<equiv> mult triple_less <*lex*> less_than"

lemma wf_search_less: "wf search_less"
  by (intro wf_lex_prod wf_mult) simp_all

lemma traversal_measure_paths:
  assumes q: "m_dir_queue sh' = m_dir_queue sh"
    and p: "\<And>d. d \<in> set (m_underlying_queue (m_dir_queue sh)) \<union> set (concat (map dir_of ws)) \<Longrightarrow>
      path_of d (m_heap sh') = path_of d (m_heap sh)"
  shows "traversal_measure rank ws sh' = traversal_measure rank ws sh"
proof -
  have "worker_measure rank (m_heap sh') w = worker_measure rank (m_heap sh) w" if w: "w \<in> set ws" for w
  proof (cases w)
    case (Reading st d todo local)
    have "d \<in> set (concat (map dir_of ws))" using w Reading by force
    with p[of d] Reading show ?thesis by (simp add: worker_measure_def)
  qed (simp_all add: worker_measure_def)
  then have m: "map (worker_measure rank (m_heap sh')) ws = map (worker_measure rank (m_heap sh)) ws" by (rule map_cong[OF refl])
  have qm: "queue_measure rank (m_heap sh') (m_underlying_queue (m_dir_queue sh)) = queue_measure rank (m_heap sh) (m_underlying_queue (m_dir_queue sh))"
    unfolding queue_measure_def using p by (intro arg_cong[where f = mset] map_cong) auto
  show ?thesis unfolding traversal_measure_def q m qm ..
qed

text \<open>The threads of the globber; none ends before its queue is closed.\<close>

definition globber_threads :: "nat \<Rightarrow> search \<Rightarrow> bool" where
  "globber_threads n s \<longleftrightarrow> length (s_workers s) = n \<and> Exited \<notin> set (s_workers s)"

lemma ReaddirLoop_goes_on:
  assumes cl: "\<not> m_closed (m_dir_queue sh)" and step: "ReaddirLoop dt w sh = Some (w', sh')"
  shows "w' \<noteq> Exited"
proof (cases w)
  case (Pulling st)
  then show ?thesis using step pull_front_open[OF cl] by (fastforce simp: ReaddirLoop_def split: sum.splits prod.splits option.splits)
next
  case (Reading st d todo local)
  then show ?thesis using step by (cases todo) (auto simp: ReaddirLoop_def)
qed (use step in \<open>simp add: ReaddirLoop_def\<close>)

lemma search_step_threads:
  assumes inv: "search_inv dt roots files content good ctx s" and th: "globber_threads n s"
    and step: "search_step dt alloc scan ctx s s'"
  shows "globber_threads n s'"
  using step
proof (cases rule: search_step_elim[consumes 1, case_names globber scanner printer])
  case (globber t w sh')
  have "\<not> m_closed (m_dir_queue (s_shared s))" using search_invD(1)[OF inv] unfolding traversal_inv_def by blast
  from ReaddirLoop_goes_on[OF this globber(3)] th globber(1) set_update_subset_insert[of "s_workers s" t w] show ?thesis
    by (auto simp: globber_threads_def)
qed (use th in \<open>simp_all add: globber_threads_def\<close>)

context content_scanner begin

lemma search_step_decreases:
  assumes junk: "quiet_junk dt" and nf: "\<not> m_follow_symlinks dt" and rank: "tree_ranked dt rank"
    and al: "\<forall>a n. alloc a n \<noteq> None" and inv: "search_inv dt roots files content good ctx s"
    and step: "search_step dt alloc scan ctx s s'"
  shows "(search_measure rank s', search_measure rank s) \<in> search_less"
  using step
proof (cases rule: search_step_elim[consumes 1, case_names globber scanner printer])
  case (globber t w sh')
  let ?a = "take t (s_workers s)" and ?b = "drop (Suc t) (s_workers s)"
  have e: "s_workers s = ?a @ s_workers s ! t # ?b" "(s_workers s)[t := w] = ?a @ w # ?b"
    using globber(2) by (simp_all add: id_take_nth_drop upd_conv_take_nth_drop)
  have i: "traversal_inv dt roots files (?a @ s_workers s ! t # ?b) (s_shared s)" using search_invD(1)[OF inv] e(1) by simp
  have "(traversal_measure rank (?a @ w # ?b) sh', traversal_measure rank (?a @ s_workers s ! t # ?b) (s_shared s)) \<in> mult triple_less"
    by (rule worker_decreases[OF junk nf rank i globber(3)])
  then show ?thesis using e by (simp add: search_measure_def globber(1))
next
  case (scanner p)
  note i0 = pool_ready_inv[OF search_pool_ready[OF inv], of good]
  have trav: "traversal_inv dt roots files (s_workers s) (s_shared s)" by (rule search_invD(1)[OF inv])
  then have cl: "\<not> m_closed (m_out_queue (s_shared s))" and ids: "dir_ids (s_workers s) (s_shared s) \<subseteq> {..<length (s_heap s)}"
    unfolding traversal_inv_def by auto
  have "traversal_measure rank (s_workers s) (s_shared (with_pool p s)) = traversal_measure rank (s_workers s) (s_shared s)
      \<and> backlog (with_pool p s) < backlog s"
  proof (cases rule: pool_step_heap[OF scanner(2) i0 al])
    case (1 t i q)
    then have pf: "pull_front (m_out_queue (s_shared s)) = Inr ((success, Some i), q)" by (simp add: pool_of_def)
    from pull_front_open[OF cl pf] have q: "m_underlying_queue (m_out_queue (s_shared s)) = i # m_underlying_queue q" by auto
    have t: "t < length (s_scanners s)" "w_file (s_scanners s ! t) = None" using 1(3,4) by (simp_all add: pool_of_def)
    have ws: "p_workers p = (s_scanners s)[t := (s_scanners s ! t)\<lparr>w_file := Some i\<rparr>]" by (simp add: 1(1) take_file_def pool_of_def)
    have "mset (held (p_workers p)) = add_mset i (mset (held (s_scanners s)))"
      unfolding ws by (rule held_update(1)[OF t]) simp
    from arg_cong[OF this, of size] have "length (held (p_workers p)) = Suc (length (held (s_scanners s)))" by simp
    moreover have "p_out p = s_matches s" by (simp add: 1(1) take_file_def pool_of_def)
    ultimately show ?thesis by (simp add: backlog_def with_pool_pull[OF q 1(1)] q traversal_measure_def)
  next
    case (2 t i st)
    have t: "t < length (s_scanners s)" "w_file (s_scanners s ! t) = Some i" using 2(3,4) by (simp_all add: pool_of_def)
    define w where "w = \<lparr>w_file = None, w_storage = b_storage (t_buffers st), w_memory = b_memory (t_buffers st), w_ml = t_ml st, w_error = None\<rparr>"
    have ws: "p_workers p = (s_scanners s)[t := w]" by (simp add: 2(1) finish_file_def pool_of_def w_def)
    have "add_mset i (mset (held (p_workers p))) = mset (held (s_scanners s))"
      unfolding ws by (rule held_update(2)[OF t]) (simp add: w_def)
    from arg_cong[OF this, of size] have l: "Suc (length (held (p_workers p))) = length (held (s_scanners s))" by simp
    have u: "undisturbed i (s_heap s) (p_heap p)" using 2(2) by (simp add: pool_of_def)
    have "traversal_measure rank (s_workers s) (s_shared (with_pool p s)) = traversal_measure rank (s_workers s) (s_shared s)"
    proof (rule traversal_measure_paths)
      show "m_dir_queue (s_shared (with_pool p s)) = m_dir_queue (s_shared s)" by (simp add: with_pool_deal[OF 2(1)])
      fix d assume "d \<in> set (m_underlying_queue (m_dir_queue (s_shared s))) \<union> set (concat (map dir_of (s_workers s)))"
      then have "d < length (s_heap s)" using ids by (auto simp: dir_ids_def)
      then show "path_of d (s_heap (with_pool p s)) = path_of d (s_heap s)" using undisturbed_path[OF u] by simp
    qed
    moreover have "length (m_underlying_queue (p_out p)) \<le> Suc (length (m_underlying_queue (s_matches s)))"
      using 2(5) by (simp add: pool_of_def)
    ultimately show ?thesis using l by (simp add: backlog_def with_pool_deal[OF 2(1)])
  qed
  then show ?thesis by (simp add: search_measure_def scanner(1))
next
  case (printer ml q)
  from pull_front_open[OF search_invD(4)[OF inv] printer(2)] have "m_underlying_queue (s_matches s) = ml # m_underlying_queue q" by auto
  then show ?thesis by (simp add: search_measure_def printer(1) backlog_def)
qed

lemma search_progress:
  assumes junk: "quiet_junk dt" and al: "\<forall>a n. alloc a n \<noteq> None" and inv: "search_inv dt roots files content good ctx s"
    and th: "globber_threads n s" "0 < n" and busy: "\<not> at_rest s"
  shows "\<exists>s'. search_step dt alloc scan ctx s s'"
proof -
  note sv = search_invD[OF inv]
  have glob: "\<exists>s'. search_step dt alloc scan ctx s s'" if "w \<in> set (s_workers s)" "ReaddirLoop dt w (s_shared s) \<noteq> None" for w
  proof -
    from that(1) obtain t where t: "t < length (s_workers s)" "s_workers s ! t = w" by (auto simp: in_set_conv_nth)
    from that(2) obtain w' sh' where "ReaddirLoop dt w (s_shared s) = Some (w', sh')" by auto
    with t show ?thesis by (metis search_step.globber)
  qed
  show ?thesis
  proof (cases "idle (s_workers s) (s_shared s)")
    case True
    show ?thesis
    proof (cases "waiting (pool_of s) = []")
      case True
      with busy \<open>idle (s_workers s) (s_shared s)\<close> have "m_underlying_queue (s_matches s) \<noteq> []" by (auto simp: at_rest_def)
      then obtain ml mls where "m_underlying_queue (s_matches s) = ml # mls" by (cases "m_underlying_queue (s_matches s)") auto
      from search_step.printer[OF pull_front_Cons[OF this]] show ?thesis by blast
    next
      case False
      note ready = search_pool_ready[OF inv]
      have d: "distinct (waiting (pool_of s))" "p_workers (pool_of s) \<noteq> []" using ready by (simp_all add: pool_ready_def)
      from pool_progress[OF pool_ready_inv[OF ready] d(1) al d(2) False] show ?thesis by (metis search_step.scanner)
    qed
  next
    case False
    show ?thesis
    proof (cases "\<exists>st d todo local. Reading st d todo local \<in> set (s_workers s)")
      case True
      then obtain st d todo local where r: "Reading st d todo local \<in> set (s_workers s)" by blast
      from glob[OF r reading_steps[OF junk sv(1) r]] show ?thesis .
    next
      case nr: False
      have p: "set (s_workers s) \<subseteq> range Pulling"
      proof
        fix w assume w: "w \<in> set (s_workers s)"
        have "Exited \<notin> set (s_workers s)" using th(1) by (simp add: globber_threads_def)
        then have "w \<noteq> Exited" "\<nexists>st d todo local. w = Reading st d todo local" using w nr by blast+
        then show "w \<in> range Pulling" by (cases w) auto
      qed
      with False obtain d ds where q: "m_underlying_queue (m_dir_queue (s_shared s)) = d # ds"
        by (cases "m_underlying_queue (m_dir_queue (s_shared s))") auto
      have "s_workers s \<noteq> []" using th by (auto simp: globber_threads_def)
      then obtain st where "Pulling st \<in> set (s_workers s)" using p by (metis hd_in_set imageE subsetD)
      moreover have "ReaddirLoop dt (Pulling st) (s_shared s) \<noteq> None"
        using pull_front_Cons[OF q] by (auto simp: ReaddirLoop_def split: option.split prod.split)
      ultimately show ?thesis by (rule glob)
    qed
  qed
qed

text \<open>No search goes on for ever, and one that cannot go on is at rest; so every search can be brought to rest.\<close>

lemma search_comes_to_rest:
  assumes junk: "quiet_junk dt" and nf: "\<not> m_follow_symlinks dt" and rank: "tree_ranked dt rank" and hon: "honest dt roots files content"
    and al: "\<forall>a n. alloc a n \<noteq> None"
  shows "search_inv dt roots files content good ctx s \<Longrightarrow> globber_threads n s \<Longrightarrow> 0 < n \<Longrightarrow>
    \<exists>s'. (search_step dt alloc scan ctx)\<^sup>*\<^sup>* s s' \<and> at_rest s'"
proof (induction s rule: wf_induct_rule[OF wf_inv_image[OF wf_search_less, of "search_measure rank"]])
  case (1 s)
  show ?case
  proof (cases "at_rest s")
    case False
    then obtain s1 where s1: "search_step dt alloc scan ctx s s1" using search_progress[OF junk al 1(2-4)] by blast
    have "(s1, s) \<in> inv_image search_less (search_measure rank)"
      using search_step_decreases[OF junk nf rank al 1(2) s1] by (simp add: inv_image_def)
    from 1(1)[OF this search_step_inv[OF junk hon al 1(2) s1] search_step_threads[OF 1(2,3) s1] 1(4)]
    show ?thesis using s1 by (meson converse_rtranclp_into_rtranclp)
  qed blast
qed

end

subsection \<open>Properties\<close>

text \<open>The search with the scanner of a configuration.\<close>

abbreviation configured_step ::
    "dir_tree \<Rightarrow> (nat \<Rightarrow> nat \<Rightarrow> nat option) \<Rightarrow> bool \<Rightarrow> pattern_info \<Rightarrow> bool \<Rightarrow> bool \<Rightarrow> bool \<Rightarrow> string \<Rightarrow> subject_match \<Rightarrow>
     output_context \<Rightarrow> search \<Rightarrow> search \<Rightarrow> bool" where
  "configured_step dt alloc sse info ic wr lit regex pm ctx \<equiv>
     search_step dt alloc (configured_scan sse info ic wr lit regex pm) ctx"

text \<open>
  C2. The globber's threads, the scanner threads and the output thread run together, in any order of their steps:
  no thread ends with an exception, and whatever has been printed or waits to be printed is a list that is right
  for the content of a file the specification of the traversal finds. When all threads have come to rest and
  symbolic links are not followed, every such file has been dealt with: a list that is right for its content has
  been printed under its path, unless it is empty. Right is what \<open>right_matches\<close> says: the lines of matches, in order, with
  every line on which a match starts at an offset that is not \<open>hidden\<close>, that is, not among UTF-8 continuation bytes at
  the beginning of a line after an empty match at the end of the line before.

  Conditions: the library is as documented, the pattern is not empty and has no newline or zero byte, its table of
  first bytes has at most 16 entries, memory does not run out, the file system is honest (\<open>honest_paths\<close>: sizes agree with
  contents and one call of \<open>read\<close> delivers a file), and a failed \<open>fstatat\<close> does not leave the description of a file or directory.
\<close>

theorem search_reports_found:
  assumes "pcre2_library pm info ic wr lit regex" and "plain regex"
    and "m_end_fpcu_table (m_tables (AnalyzeRegex info ic wr lit regex scanner_init)) \<le> 16"
    and "quiet_junk dt" and "honest_paths dt ps content" and "\<forall>a n. alloc a n \<noteq> None" and "0 < jobs"
    and "start_search dt ps dirjobs jobs mem = Some s0"
    and "(configured_step dt alloc sse info ic wr lit regex pm ctx)\<^sup>*\<^sup>* s0 s"
  shows "(\<forall>w \<in> set (s_scanners s). w_error w = None)
    \<and> (\<forall>ml \<in> set (s_printed s) \<union> set (m_underlying_queue (s_matches s)).
         reported_ok dt (named S_IFDIR dt ps) (named S_IFREG dt ps) content (reported_matches info ic wr lit regex pm) ml)
    \<and> (at_rest s \<and> \<not> m_follow_symlinks dt \<longrightarrow>
         (\<forall>p. DirTraversal.found dt (named S_IFDIR dt ps) (named S_IFREG dt ps) p \<longrightarrow>
            (\<exists>ms. outcome (reported_matches info ic wr lit regex pm) (content p) ms
                \<and> (ms \<noteq> [] \<longrightarrow> \<lparr>m_filename = p, m_match_list = ms\<rparr> \<in> set (s_printed s)))))"
proof -
  let ?good = "reported_matches info ic wr lit regex pm" and ?R = "named S_IFDIR dt ps" and ?F = "named S_IFREG dt ps"
  have i0: "search_inv dt ?R ?F content ?good ctx s0"
    using start_search_inv[OF assms(5,7), where dirjobs = dirjobs and mem = mem and good = ?good and ctx = ctx] assms(8)
    by (metis option.inject)
  have "honest dt ?R ?F content" using assms(5) by (simp add: honest_paths_def)
  from content_scanner.search_steps_inv[OF configured[OF assms(1-3)] assms(4) this assms(6) i0 assms(9)]
  have inv: "search_inv dt ?R ?F content ?good ctx s" .
  show ?thesis
  proof (intro conjI impI allI ballI)
    show "w_error w = None" if "w \<in> set (s_scanners s)" for w
      using search_invD(2)[OF inv] that by (simp add: scanners_ok_def)
    show "reported_ok dt ?R ?F content ?good ml" if "ml \<in> set (s_printed s) \<union> set (m_underlying_queue (s_matches s))" for ml
      by (rule search_inv_reports[OF inv that])
    fix p assume r: "at_rest s \<and> \<not> m_follow_symlinks dt" and p: "DirTraversal.found dt ?R ?F p"
    show "\<exists>ms. outcome ?good (content p) ms \<and> (ms \<noteq> [] \<longrightarrow> \<lparr>m_filename = p, m_match_list = ms\<rparr> \<in> set (s_printed s))"
      by (rule search_inv_complete[OF inv conjunct1[OF r] conjunct2[OF r] p])
  qed
qed

text \<open>
  C4. When symbolic links are not followed and directories are not nested for ever, no search goes on for ever,
  in whatever order the threads take their steps; and a search that cannot go on has come to rest, with every
  thread waiting and both queues empty. This needs a pattern that is not empty (the scan for an empty literal never returns), has
  no newline or zero byte, and whose table of first bytes has at most 16 entries, a library that behaves as documented, and the
  honest file system of the previous theorem.
\<close>

theorem search_terminates:
  assumes "pcre2_library pm info ic wr lit regex" and "plain regex"
    and "m_end_fpcu_table (m_tables (AnalyzeRegex info ic wr lit regex scanner_init)) \<le> 16"
    and "quiet_junk dt" and "honest_paths dt ps content" and "\<forall>a n. alloc a n \<noteq> None" and "0 < jobs" and "0 < dirjobs"
    and "\<not> m_follow_symlinks dt" and "tree_ranked dt rank"
    and "start_search dt ps dirjobs jobs mem = Some (f 0)"
  shows "\<not> (\<forall>k. configured_step dt alloc sse info ic wr lit regex pm ctx (f k) (f (Suc k)))
    \<and> ((\<forall>j<k. configured_step dt alloc sse info ic wr lit regex pm ctx (f j) (f (Suc j)))
        \<and> (\<nexists>s'. configured_step dt alloc sse info ic wr lit regex pm ctx (f k) s') \<longrightarrow> at_rest (f k))"
proof -
  let ?good = "reported_matches info ic wr lit regex pm" and ?R = "named S_IFDIR dt ps" and ?F = "named S_IFREG dt ps"
  let ?step = "configured_step dt alloc sse info ic wr lit regex pm ctx"
  obtain s where s: "start_search dt ps dirjobs jobs mem = Some s" "search_inv dt ?R ?F content ?good ctx s"
    "s_workers s = replicate dirjobs (Pulling stats_init)"
    by (rule start_search_inv[OF assms(5,7), where dirjobs = dirjobs and mem = mem and good = ?good and ctx = ctx])
  have i0: "search_inv dt ?R ?F content ?good ctx (f 0)" "globber_threads dirjobs (f 0)"
    using s assms(11) by (simp_all add: globber_threads_def)
  have hon: "honest dt ?R ?F content" using assms(5) by (simp add: honest_paths_def)
  note cs = configured[OF assms(1-3), of sse]
  have inv: "search_inv dt ?R ?F content ?good ctx (f k) \<and> globber_threads dirjobs (f k)"
    if "\<forall>j<k. ?step (f j) (f (Suc j))" for k
    using that
  proof (induction k)
    case (Suc k)
    then have st: "?step (f k) (f (Suc k))" and ih: "search_inv dt ?R ?F content ?good ctx (f k)" "globber_threads dirjobs (f k)"
      by simp_all
    show ?case
      using content_scanner.search_step_inv[OF cs assms(4) hon assms(6) ih(1) st] search_step_threads[OF ih st] by blast
  qed (use i0 in simp)
  have "\<not> (\<forall>k. ?step (f k) (f (Suc k)))"
  proof
    assume run: "\<forall>k. ?step (f k) (f (Suc k))"
    have "(search_measure rank (f (Suc k)), search_measure rank (f k)) \<in> search_less" for k
    proof -
      have "\<forall>j<k. ?step (f j) (f (Suc j))" by (intro allI impI) (rule run[rule_format])
      note i = conjunct1[OF inv[OF this]]
      show ?thesis by (rule content_scanner.search_step_decreases[OF cs assms(4,9,10,6) i run[rule_format]])
    qed
    then have "\<exists>g. \<forall>k. (g (Suc k), g k) \<in> search_less" by (intro exI[of _ "\<lambda>k. search_measure rank (f k)"] allI)
    moreover have "\<not> (\<exists>g. \<forall>k. (g (Suc k), g k) \<in> search_less)"
      using wf_search_less by (simp only: wf_iff_no_infinite_down_chain) simp
    ultimately show False by contradiction
  qed
  moreover have "at_rest (f k)" if "\<forall>j<k. ?step (f j) (f (Suc j))" "\<nexists>s'. ?step (f k) s'"
  proof (rule ccontr)
    assume busy: "\<not> at_rest (f k)"
    note i = inv[OF that(1)]
    from content_scanner.search_progress[OF cs assms(4,6) conjunct1[OF i] conjunct2[OF i] assms(8) busy] that(2)
    show False by simp
  qed
  ultimately show ?thesis by blast
qed

subsection \<open>An instance\<close>

text \<open>The small tree of the theory DirTraversal, with one file that can be opened.\<close>

definition search_os :: os where
  "search_os = tiny_os
     \<lparr>sys_open := (\<lambda>p fl. if p = ''d/a.c'' then 7 else sys_open tiny_os p fl),
      sys_fstat := (\<lambda>fd. if fd = 7 then Some \<lparr>st_mode = S_IFREG, st_dev = 1, st_ino = 3, st_size = 3, st_blksize = 4096, st_blocks = 1\<rparr>
        else None),
      sys_read := (\<lambda>fd. if fd = 7 then [''abc''] else [])\<rparr>"

definition search_tree :: dir_tree where
  "search_tree = DirTree_ctor (\<lambda>name. name \<noteq> ''x.o'') (DirShouldBeExcluded {}) True False search_os (tiny_junk S_IFOTHER)"

definition search_content :: "string \<Rightarrow> string option" where
  "search_content p = (if p = ''d/a.c'' then Some ''abc'' else None)"

lemma search_tree_entries: "entries search_tree p = Some des \<Longrightarrow> p = ''d'' \<or> p = ''d/s''"
  by (simp add: entries_def search_tree_def DirTree_ctor_def search_os_def tiny_os_def split: if_splits)

lemma search_tree_named:
  "named S_IFDIR search_tree [''./d/''] = {''d''}" "named S_IFREG search_tree [''./d/''] = {}"
proof -
  have "start_type search_tree ''./d/'' = Some S_IFDIR" "clean_up_path ''./d/'' = ''d''" by code_simp+
  then show "named S_IFDIR search_tree [''./d/''] = {''d''}" "named S_IFREG search_tree [''./d/''] = {}"
    by (auto simp: named_def)
qed

lemma search_tree_dirs:
  "entries search_tree p = Some des \<Longrightarrow> de \<in> set des \<Longrightarrow> wanted_dir search_tree p de \<Longrightarrow>
     p = ''d'' \<and> entry_path p (dirent_get_name de) = ''d/s''"
proof -
  have l: "list_all (\<lambda>de. wanted_dir search_tree ''d'' de \<longrightarrow> entry_path ''d'' (dirent_get_name de) = ''d/s'') (the (entries search_tree ''d''))"
    "list_all (\<lambda>de. \<not> wanted_dir search_tree ''d/s'' de) (the (entries search_tree ''d/s''))"
    by code_simp+
  assume e: "entries search_tree p = Some des" "de \<in> set des" "wanted_dir search_tree p de"
  then show ?thesis using search_tree_entries[OF e(1)] l by (auto simp: list_all_iff)
qed

lemma search_tree_files:
  "entries search_tree p = Some des \<Longrightarrow> de \<in> set des \<Longrightarrow> wanted_file search_tree p de \<Longrightarrow>
     p = ''d'' \<and> de = \<lparr>d_name = ''a.c'', d_type = DT_REG, d_ino = 3\<rparr> \<or> entry_path p (dirent_get_name de) = ''d/s/b.c''"
proof -
  have l: "list_all (\<lambda>de. wanted_file search_tree ''d'' de \<longrightarrow> de = \<lparr>d_name = ''a.c'', d_type = DT_REG, d_ino = 3\<rparr>) (the (entries search_tree ''d''))"
    "list_all (\<lambda>de. wanted_file search_tree ''d/s'' de \<longrightarrow> entry_path ''d/s'' (dirent_get_name de) = ''d/s/b.c'') (the (entries search_tree ''d/s''))"
    by code_simp+
  assume e: "entries search_tree p = Some des" "de \<in> set des" "wanted_file search_tree p de"
  then show ?thesis using search_tree_entries[OF e(1)] l by (auto simp: list_all_iff)
qed

lemma search_tree_honest: "honest_paths search_tree [''./d/''] search_content"
proof -
  let ?dt = search_tree
  have a: "entry_path ''d'' (dirent_get_name \<lparr>d_name = ''a.c'', d_type = DT_REG, d_ino = 3\<rparr>) = ''d/a.c''"
    "sys_fstatat (m_os ?dt) (sys_open (m_os ?dt) ''d'' dir_open_flags) (dirent_get_name \<lparr>d_name = ''a.c'', d_type = DT_REG, d_ino = 3\<rparr>)
       (m_follow_symlinks ?dt) = None" by code_simp+
  have sa: "serves (m_os ?dt) ''d/a.c'' (search_content ''d/a.c'')"
  proof -
    have "is_power_of_2 (of_nat (nat (clamp 4096 0x20000 0x100000)) :: 64 word)" by (simp add: is_power_of_2_def clamp_def)
    then show ?thesis
      by (simp add: serves_def search_content_def fits_def search_tree_def DirTree_ctor_def) (simp add: search_os_def)
  qed
  have sb: "serves (m_os ?dt) ''d/s/b.c'' (search_content ''d/s/b.c'')"
    by (simp add: serves_def search_content_def search_tree_def DirTree_ctor_def search_os_def tiny_os_def)
  have f: "serves (m_os ?dt) p (search_content p)" if "DirTraversal.found ?dt {''d''} {} p" for p
    using that
  proof cases
    case (inside q des de)
    from search_tree_files[OF inside(3-5)] show ?thesis using sa sb a(1) inside(1) by auto
  qed simp
  have st: "fits (search_content (entry_path p (dirent_get_name de))) sb"
    if e: "entries ?dt p = Some des" "de \<in> set des" "wanted_file ?dt p de"
      "sys_fstatat (m_os ?dt) (sys_open (m_os ?dt) p dir_open_flags) (dirent_get_name de) (m_follow_symlinks ?dt) = Some sb" for p des de sb
    using search_tree_files[OF e(1-3)] e(4) a(2) by (auto simp: search_content_def fits_def)
  have "\<forall>sb. sys_fstatat (m_os ?dt) (root_descriptor ?dt) (clean_up_path ''./d/'') True = Some sb \<longrightarrow> st_mode sb \<noteq> S_IFREG"
  proof -
    have "start_type ?dt ''./d/'' = Some S_IFDIR" by code_simp
    then show ?thesis by (auto simp: start_type_def)
  qed
  then show ?thesis using f st unfolding honest_paths_def honest_def search_tree_named by simp
qed

lemma search_tree_ranked: "tree_ranked search_tree (\<lambda>p. if p = ''d'' then 1 else 0)"
proof -
  have "(if q = ''d'' then 1 else 0 :: nat) < (if p = ''d'' then 1 else 0)" if "p = ''d'' \<and> q = ''d/s''" for p q :: string
    using that by simp
  with search_tree_dirs show ?thesis unfolding tree_ranked_def by blast
qed

lemma search_tree_quiet: "quiet_junk search_tree" "\<not> m_follow_symlinks search_tree"
  by (simp_all add: quiet_junk_def search_tree_def DirTree_ctor_def tiny_junk_def)

abbreviation sample_start :: search where
  "sample_start \<equiv> the (start_search search_tree [''./d/''] 2 2 (\<lambda>_. NUL))"

abbreviation sample_step :: "search \<Rightarrow> search \<Rightarrow> bool" where
  "sample_step \<equiv> configured_step search_tree (\<lambda>a n. Some 4096) True (literal_info ''b'') False False True ''b'' (literal_pm ''b'')
     (OutputContext_ctor False False True False False)"

lemma sample_started: "start_search search_tree [''./d/''] 2 2 (\<lambda>_. NUL) = Some sample_start"
  by (rule start_search_inv[OF search_tree_honest, of 2 2 "\<lambda>_. NUL" "\<lambda>_ _. True" "OutputContext_ctor False False True False False"]) simp_all

lemma search_reports_found_witness:
  "\<exists>s ms. sample_step\<^sup>*\<^sup>* sample_start s \<and> at_rest s \<and> 1 \<in> m_line_number ` set ms
     \<and> \<lparr>m_filename = ''d/a.c'', m_match_list = ms\<rparr> \<in> set (s_printed s)"
proof -
  let ?good = "reported_matches (literal_info ''b'') False False True ''b'' (literal_pm ''b'')"
  let ?ctx = "OutputContext_ctor False False True False False"
  note cs = configured[OF literal_lib.pcre2_library_axioms sample_config, of True]
  obtain s0 where s0: "start_search search_tree [''./d/''] 2 2 (\<lambda>_. NUL) = Some s0"
    "search_inv search_tree (named S_IFDIR search_tree [''./d/'']) (named S_IFREG search_tree [''./d/'']) search_content ?good ?ctx s0"
    "s_workers s0 = replicate 2 (Pulling stats_init)"
    by (rule start_search_inv[OF search_tree_honest, where jobs = 2 and dirjobs = 2]) simp_all
  have hon: "honest search_tree (named S_IFDIR search_tree [''./d/'']) (named S_IFREG search_tree [''./d/'']) search_content"
    using search_tree_honest by (simp add: honest_paths_def)
  have th: "globber_threads 2 s0" by (simp add: globber_threads_def s0(3))
  have al: "\<forall>a n. (\<lambda>a n. Some (4096 :: nat)) a n \<noteq> None" by simp
  obtain s where s: "sample_step\<^sup>*\<^sup>* s0 s" "at_rest s"
    using content_scanner.search_comes_to_rest[OF cs search_tree_quiet search_tree_ranked hon al s0(2) th] by auto
  have f: "DirTraversal.found search_tree (named S_IFDIR search_tree [''./d/'']) (named S_IFREG search_tree [''./d/'']) ''d/a.c''"
  proof -
    have e: "entries search_tree ''d'' = Some (the (entries search_tree ''d''))" "wanted_file search_tree ''d'' \<lparr>d_name = ''a.c'', d_type = DT_REG, d_ino = 3\<rparr>"
      "list_ex (\<lambda>de. de = \<lparr>d_name = ''a.c'', d_type = DT_REG, d_ino = 3\<rparr>) (the (entries search_tree ''d''))"
      "entry_path ''d'' (dirent_get_name \<lparr>d_name = ''a.c'', d_type = DT_REG, d_ino = 3\<rparr>) = ''d/a.c''" by code_simp+
    have "reached search_tree (named S_IFDIR search_tree [''./d/'']) ''d''" by (simp add: search_tree_named reached.root)
    from DirTraversal.found.inside[OF this e(1) _ e(2)] e(3,4) show ?thesis by (auto simp: list_ex_iff)
  qed
  from search_reports_found[OF literal_lib.pcre2_library_axioms sample_config search_tree_quiet(1) search_tree_honest al _ s0(1) s(1)] s(2) f
    search_tree_quiet(2)
  obtain ms where ms: "outcome ?good (search_content ''d/a.c'') ms" "ms \<noteq> [] \<longrightarrow> \<lparr>m_filename = ''d/a.c'', m_match_list = ms\<rparr> \<in> set (s_printed s)"
    by (metis zero_less_numeral)
  then have r: "right_matches (AnalyzeRegex (literal_info ''b'') False False True ''b'' scanner_init) (literal_pm ''b'') ''abc'' ms"
    by (simp add: outcome_def search_content_def)
  have "starts_at (AnalyzeRegex (literal_info ''b'') False False True ''b'' scanner_init) (literal_pm ''b'') ''abc'' 1"
    by (simp add: starts_at_def AnalyzeRegex_def analyze_literal_def literal_at_def)
  moreover have "content_line ''abc'' 1 = 1" by (simp add: content_line_def)
  ultimately have one: "1 \<in> m_line_number ` set ms" using right_matches_complete[OF r, of 1] not_hidden[of "''abc''" 1] by (auto simp: continuation_def of_char_def)
  then have "ms \<noteq> []" by auto
  with ms(2) s s0(1) one show ?thesis by auto
qed

lemma search_terminates_witness:
  "\<not> sample_step sample_start sample_start \<and> (\<exists>s'. sample_step sample_start s')"
proof -
  have al: "\<forall>a n. (\<lambda>a n. Some (4096 :: nat)) a n \<noteq> None" by simp
  have "\<not> at_rest sample_start"
  proof -
    have "m_underlying_queue (m_dir_queue (s_shared sample_start)) \<noteq> []" by code_simp
    then show ?thesis by (simp add: at_rest_def)
  qed
  with search_terminates[where f = "\<lambda>_. sample_start" and k = 0 and sse = True
        and ctx = "OutputContext_ctor False False True False False",
      OF literal_lib.pcre2_library_axioms sample_config search_tree_quiet(1) search_tree_honest al _ _ search_tree_quiet(2)
        search_tree_ranked sample_started]
  show ?thesis by simp
qed

end
