(* ===== verification/Program.thy ===== *)
theory Program
  imports Search Engines Options Platform
begin

text \<open>
  \<open>main\<close> of \<open>src/main.cpp\<close>: the command line is parsed, the tables of types and excluded directories are
  compiled, the scanner is made, the threads run, the queues are closed and the number of matched lines
  gives the exit status. An exception that leaves one of these steps is turned into a status, or ends the
  program by \<open>abort\<close>; one that leaves a thread function ends it in the same way.
\<close>

subsection \<open>What the program is given\<close>

text \<open>
  The argument parser's surroundings; \<open>fnmatch\<close>; what an uninitialised \<open>struct stat\<close> and fresh memory hold;
  the processor; and the regex libraries: libpcre's constructor, and of libpcre2 the
  compiler, the JIT compiler, the number of callouts, the pattern information and the matcher.
\<close>

record ('code, 'code1, 'extra) program_env =
  g_parse :: parse_env
  g_fnmatch :: "string \<Rightarrow> string \<Rightarrow> bool"
  g_junk :: stat_buf
  g_memory :: memory
  g_cpu :: processor
  g_pcre :: "string \<Rightarrow> bool \<Rightarrow> bool \<Rightarrow> bool \<Rightarrow> create_exception + ('code1 \<times> 'extra)"
  g_compile :: "string \<Rightarrow> bool \<Rightarrow> (int \<times> nat) + 'code"
  g_jit_compile :: "'code \<Rightarrow> int"
  g_num_callouts :: "'code \<Rightarrow> nat"
  g_info :: "'code \<Rightarrow> pattern_info"
  g_match :: "'code \<Rightarrow> subject_match"

subsection \<open>From the command line to the threads\<close>

text \<open>How the program ends: with an exit status, or by \<open>abort\<close>.\<close>

datatype main_end = Ended int | Aborted

text \<open>
  The handlers of \<open>main\<close>. A \<open>std::runtime_error\<close>, which \<open>FileException\<close> and \<open>std::system_error\<close> are, gives 255;
  \<open>std::out_of_range\<close> and \<open>std::bad_alloc\<close> are none and fall to the last handler, which aborts.
\<close>

definition parse_failure :: "parse_error \<Rightarrow> main_end" where
  "parse_failure e =
     (case e of
        ArgError _ \<Rightarrow> Ended 255
      | ConfigFailed (RCText _) \<Rightarrow> Ended 255
      | ConfigFailed (RCFile (FileIDError _)) \<Rightarrow> Ended 255
      | ConfigFailed (RCFile BadDescriptor) \<Rightarrow> Ended 255
      | ConfigFailed (RCFile BadAlloc) \<Rightarrow> Aborted
      | ConfigFailed (RCFile Terminated) \<Rightarrow> Aborted
      | NumberOutOfRange \<Rightarrow> Aborted)"

text \<open>What the threads are started with.\<close>

record 'code run =
  r_settings :: arg_parse
  r_globber :: globber
  r_context :: output_context
  r_code :: 'code
  r_scanner :: scanner

definition make_globber :: "arg_parse \<Rightarrow> type_manager \<Rightarrow> string set \<Rightarrow> globber" where
  "make_globber a tm excluded =
     \<lparr>m_start_paths = a_paths a, m_type_manager = tm, m_excluded_dirs = excluded, m_recurse_subdirs = a_recurse a,
      m_follow = a_follow_symlinks a, m_dirjobs = nat (a_dirjobs a)\<rparr>"

definition main_start :: "('code, 'code1, 'extra) program_env \<Rightarrow> string list \<Rightarrow> main_end + 'code run" where
  "main_start g argv =
     (case Parse (g_parse g) argv TypeManager_ctor of
        Exit status \<Rightarrow> Inl (Ended status)
      | Throw e \<Rightarrow> Inl (parse_failure e)
      | Parsed a tm \<Rightarrow>
          (let excluded = AddExclusions (a_excludes a) {};
               tm = CompileTypeTables tm;
               excluded = CompileExclusionTables excluded;
               globber = make_globber a tm excluded;
               ctx = OutputContext_ctor (a_color a) (a_prefix_file a) (a_line_number a) (a_column a) (a_nullsep a)
           in case Create (g_pcre g) (FileScannerPCRE2_ctor (g_compile g) (g_jit_compile g) (g_num_callouts g) (g_info g))
                     (a_pattern a) (a_ignore_case a) (a_word_regexp a) (a_pattern_is_literal a) PCRE2 of
                Inr (PCRE2Object base code sc) \<Rightarrow>
                  Inr \<lparr>r_settings = a, r_globber = globber, r_context = ctx, r_code = code, r_scanner = sc\<rparr>
              | _ \<Rightarrow> Inl (Ended 255)))"

text \<open>The threads: the scanners, and those the globber starts when it runs. \<open>None\<close> is a getter that ends the program.\<close>

definition main_threads :: "('code, 'code1, 'extra) program_env \<Rightarrow> 'code run \<Rightarrow> search option" where
  "main_threads g r =
     map_option (threads_started (nat (a_jobs (r_settings r))) (g_memory g))
       (Globber_Run (g_fnmatch g) (pe_os (g_parse g)) (g_junk g) (r_globber r) sync_queue_init)"

text \<open>The tree the globber walks, and the \<open>ScanFile\<close> of the scanner.\<close>

definition run_tree :: "('code, 'code1, 'extra) program_env \<Rightarrow> 'code run \<Rightarrow> dir_tree" where
  "run_tree g r =
     (let gl = r_globber r
      in DirTree_ctor (FileShouldBeScanned (g_fnmatch g) (m_type_manager gl)) (DirShouldBeExcluded (m_excluded_dirs gl))
           (m_recurse_subdirs gl) (m_follow gl) (pe_os (g_parse g)) (g_junk g))"

definition run_scan :: "('code, 'code1, 'extra) program_env \<Rightarrow> 'code run \<Rightarrow> scan_fun" where
  "run_scan g r =
     (case resolved (g_cpu g) of
        (version, sse4_2) \<Rightarrow> pcre2_scan sse4_2 (r_scanner r) (g_match g (r_code r)) (count_code version))"

abbreviation run_step :: "('code, 'code1, 'extra) program_env \<Rightarrow> 'code run \<Rightarrow> search \<Rightarrow> search \<Rightarrow> bool" where
  "run_step g r \<equiv> search_step (run_tree g r) (pe_alloc (g_parse g)) (run_scan g r) (r_context r)"

text \<open>
  Closing the queues when nothing is left: a thread that waits is told so and returns, and the output
  thread has printed everything. The status depends on the number of matched lines.
\<close>

definition queues_closed :: "search \<Rightarrow> search" where
  "queues_closed s = s\<lparr>s_shared := (s_shared s)\<lparr>m_dir_queue := close (m_dir_queue (s_shared s)), m_out_queue := close (m_out_queue (s_shared s))\<rparr>,
     s_matches := close (s_matches s)\<rparr>"

definition exit_status :: "search \<Rightarrow> int" where
  "exit_status s = (if m_total_matched_lines (s_output s) = 0 then 1 else 0)"

text \<open>The program: how it ends, and what the output thread has printed.\<close>

inductive main_ends :: "('code, 'code1, 'extra) program_env \<Rightarrow> string list \<Rightarrow> main_end \<Rightarrow> string \<Rightarrow> bool" for g argv where
  early: "main_start g argv = Inl e \<Longrightarrow> main_ends g argv e []"
| terminated: "main_start g argv = Inr r \<Longrightarrow> main_threads g r = None \<Longrightarrow> main_ends g argv Aborted []"
| completed: "main_start g argv = Inr r \<Longrightarrow> main_threads g r = Some s0 \<Longrightarrow> (run_step g r)\<^sup>*\<^sup>* s0 s \<Longrightarrow> at_rest s \<Longrightarrow>
    main_ends g argv (Ended (exit_status (queues_closed s))) (cout (s_output (queues_closed s)))"
| scanner_dies: "main_start g argv = Inr r \<Longrightarrow> main_threads g r = Some s0 \<Longrightarrow> (run_step g r)\<^sup>*\<^sup>* s0 s \<Longrightarrow>
    w \<in> set (s_scanners s) \<Longrightarrow> w_error w \<noteq> None \<Longrightarrow> main_ends g argv Aborted (cout (s_output s))"
| globber_dies: "main_start g argv = Inr r \<Longrightarrow> main_threads g r = Some s0 \<Longrightarrow> (run_step g r)\<^sup>*\<^sup>* s0 s \<Longrightarrow>
    Reading st d todo local \<in> set (s_workers s) \<Longrightarrow> ReaddirLoop (run_tree g r) (Reading st d todo local) (s_shared s) = None \<Longrightarrow>
    main_ends g argv Aborted (cout (s_output s))"

inductive_cases main_ends_elim: "main_ends g argv e out"

subsection \<open>The run\<close>

lemma main_threads_start:
  "main_threads g r = start_search (run_tree g r) (m_start_paths (r_globber r)) (m_dirjobs (r_globber r))
     (nat (a_jobs (r_settings r))) (g_memory g)"
  by (simp add: main_threads_def Globber_Run_def start_search_def run_tree_def Let_def)

lemma main_start_run:
  assumes "main_start g argv = Inr r"
  obtains tm where "Parse (g_parse g) argv TypeManager_ctor = Parsed (r_settings r) tm"
    and "r_globber r = make_globber (r_settings r) (CompileTypeTables tm) (CompileExclusionTables (AddExclusions (a_excludes (r_settings r)) {}))"
    and "r_context r = OutputContext_ctor (a_color (r_settings r)) (a_prefix_file (r_settings r)) (a_line_number (r_settings r))
           (a_column (r_settings r)) (a_nullsep (r_settings r))"
    and "r_scanner r = AnalyzeRegex (g_info g (r_code r)) (a_ignore_case (r_settings r)) (a_word_regexp (r_settings r))
           (a_pattern_is_literal (r_settings r)) (a_pattern (r_settings r)) scanner_init"
  using assms that
  by (auto simp: main_start_def Let_def Create_def FileScannerPCRE2_ctor_def
      split: parse_outcome.splits sum.splits engine_object.splits prod.splits if_splits)

text \<open>What the surroundings have to be like: the regex library, and the file system, with the content of its files.\<close>

definition library_ok :: "('code, 'code1, 'extra) program_env \<Rightarrow> 'code run \<Rightarrow> bool" where
  "library_ok g r \<longleftrightarrow>
     (let a = r_settings r in
      pcre2_library (g_match g (r_code r)) (g_info g (r_code r)) (a_ignore_case a) (a_word_regexp a) (a_pattern_is_literal a) (a_pattern a)
      \<and> plain (a_pattern a) \<and> m_end_fpcu_table (m_tables (r_scanner r)) \<le> 16)"

definition files_ok :: "('code, 'code1, 'extra) program_env \<Rightarrow> 'code run \<Rightarrow> (string \<Rightarrow> string option) \<Rightarrow> bool" where
  "files_ok g r content \<longleftrightarrow>
     quiet_junk (run_tree g r) \<and> honest_paths (run_tree g r) (a_paths (r_settings r)) content
     \<and> (\<forall>a n. pe_alloc (g_parse g) a n \<noteq> None) \<and> 0 \<le> pe_hardware_concurrency (g_parse g)"

text \<open>The files to search, and the match lists that are right for a content.\<close>

definition run_found :: "('code, 'code1, 'extra) program_env \<Rightarrow> 'code run \<Rightarrow> string \<Rightarrow> bool" where
  "run_found g r = DirTraversal.found (run_tree g r) (named S_IFDIR (run_tree g r) (a_paths (r_settings r)))
     (named S_IFREG (run_tree g r) (a_paths (r_settings r)))"

abbreviation run_good :: "('code, 'code1, 'extra) program_env \<Rightarrow> 'code run \<Rightarrow> string \<Rightarrow> match_line list \<Rightarrow> bool" where
  "run_good g r \<equiv> right_matches (r_scanner r) (g_match g (r_code r))"

lemma run_scanner:
  assumes "main_start g argv = Inr r" and "library_ok g r"
  shows "content_scanner (run_scan g r) (run_good g r)"
proof -
  obtain tm where sc: "r_scanner r = AnalyzeRegex (g_info g (r_code r)) (a_ignore_case (r_settings r)) (a_word_regexp (r_settings r))
           (a_pattern_is_literal (r_settings r)) (a_pattern (r_settings r)) scanner_init"
    by (rule main_start_run[OF assms(1)])
  have s: "run_scan g r = pcre2_scan (has_sse4_2 (g_cpu g)) (r_scanner r) (g_match g (r_code r))
      (resolve_CountLinesSinceLastMatch (has_sse4_2 (g_cpu g)) (has_popcnt (g_cpu g)) (has_sse2 (g_cpu g)))"
    unfolding run_scan_def case_prod_unfold count_version_code by (simp add: resolved_known)
  from pcre2_library.analysed_scanner[of "g_match g (r_code r)" "g_info g (r_code r)"] assms(2) show ?thesis
    by (simp add: library_ok_def s sc Let_def)
qed

lemma run_threads_start:
  assumes ms: "main_start g argv = Inr r" and ok: "files_ok g r content"
  obtains s0 where "main_threads g r = Some s0"
    and "search_inv (run_tree g r) (named S_IFDIR (run_tree g r) (a_paths (r_settings r)))
           (named S_IFREG (run_tree g r) (a_paths (r_settings r))) content good (r_context r) s0"
    and "globber_threads (nat (a_dirjobs (r_settings r))) s0" and "0 < nat (a_dirjobs (r_settings r))"
proof -
  let ?a = "r_settings r"
  obtain tm where p: "Parse (g_parse g) argv TypeManager_ctor = Parsed ?a tm"
    "r_globber r = make_globber ?a (CompileTypeTables tm) (CompileExclusionTables (AddExclusions (a_excludes ?a) {}))"
    by (rule main_start_run[OF ms])
  have "0 \<le> pe_hardware_concurrency (g_parse g)" using ok by (simp add: files_ok_def)
  from settings_parts(1,2)[OF p(1) this] have j: "0 < nat (a_jobs ?a)" "0 < nat (a_dirjobs ?a)" by simp_all
  have gl: "m_start_paths (r_globber r) = a_paths ?a" "m_dirjobs (r_globber r) = nat (a_dirjobs ?a)" by (simp_all add: p(2) make_globber_def)
  have hon: "honest_paths (run_tree g r) (a_paths ?a) content" using ok by (simp add: files_ok_def)
  obtain s0 where s: "start_search (run_tree g r) (a_paths ?a) (nat (a_dirjobs ?a)) (nat (a_jobs ?a)) (g_memory g) = Some s0"
    "search_inv (run_tree g r) (named S_IFDIR (run_tree g r) (a_paths ?a)) (named S_IFREG (run_tree g r) (a_paths ?a)) content good (r_context r) s0"
    "s_workers s0 = replicate (nat (a_dirjobs ?a)) (Pulling stats_init)"
    by (rule start_search_inv[OF hon j(1)])
  have th: "globber_threads (nat (a_dirjobs ?a)) s0" by (simp add: globber_threads_def s(3))
  show thesis by (rule that[OF _ s(2) th j(2)]) (simp add: main_threads_start gl s(1))
qed

text \<open>How such a run ends: always by coming to rest.\<close>

lemma run_ends:
  assumes ms: "main_start g argv = Inr r" and lib: "library_ok g r" and ok: "files_ok g r content" and me: "main_ends g argv e out"
  obtains s where "search_inv (run_tree g r) (named S_IFDIR (run_tree g r) (a_paths (r_settings r)))
           (named S_IFREG (run_tree g r) (a_paths (r_settings r))) content (run_good g r) (r_context r) s"
    and "at_rest s" and "e = Ended (exit_status s)" and "out = cout (s_output s)"
proof -
  let ?dt = "run_tree g r" and ?ps = "a_paths (r_settings r)"
  note cs = run_scanner[OF ms lib]
  have q: "quiet_junk ?dt" and hon: "honest ?dt (named S_IFDIR ?dt ?ps) (named S_IFREG ?dt ?ps) content"
    and al: "\<forall>a n. pe_alloc (g_parse g) a n \<noteq> None"
    using ok by (simp_all add: files_ok_def honest_paths_def)
  obtain s0 where s0: "main_threads g r = Some s0"
    "search_inv ?dt (named S_IFDIR ?dt ?ps) (named S_IFREG ?dt ?ps) content (run_good g r) (r_context r) s0"
    by (rule run_threads_start[OF ms ok])
  have inv: "search_inv ?dt (named S_IFDIR ?dt ?ps) (named S_IFREG ?dt ?ps) content (run_good g r) (r_context r) s"
    if "(run_step g r)\<^sup>*\<^sup>* s0 s" for s
    by (rule content_scanner.search_steps_inv[OF cs q hon al s0(2) that])
  from me show thesis
  proof (cases rule: main_ends_elim[consumes 1, case_names early terminated completed scanner globber])
    case (completed r' s0' s)
    then have "r' = r" "s0' = s0" using ms s0(1) by auto
    with completed that[of s] inv[of s] show thesis by (simp add: queues_closed_def exit_status_def)
  next
    case (scanner r' s0' s w)
    then have "r' = r" "s0' = s0" using ms s0(1) by auto
    with scanner search_invD(2)[OF inv[of s]] show thesis by (simp add: scanners_ok_def)
  next
    case (globber r' s0' s st d todo local)
    then have "r' = r" "s0' = s0" using ms s0(1) by auto
    with globber reading_steps[OF q search_invD(1)[OF inv[of s]]] show thesis by simp
  qed (use ms s0(1) in auto)
qed

lemma printed_output:
  "cout (fold (output_one ctx) mls \<lparr>first_matchlist_printed = False, cout = [], m_total_matched_lines = 0\<rparr>) = printed_groups ctx mls"
  "m_total_matched_lines (fold (output_one ctx) mls \<lparr>first_matchlist_printed = False, cout = [], m_total_matched_lines = 0\<rparr>)
     = sum_list (map GetNumberOfMatchedLines mls)"
  by (cases mls; simp add: fold_output_one output_one_def printed_groups_Cons)+

lemma run_reports:
  assumes ms: "main_start g argv = Inr r" and lib: "library_ok g r" and ok: "files_ok g r content"
    and nf: "\<not> a_follow_symlinks (r_settings r)" and me: "main_ends g argv e out"
  obtains mls where "out = printed_groups (r_context r) mls" and "e = Ended (if mls = [] then 1 else 0)"
    and "\<And>ml. ml \<in> set mls \<Longrightarrow> run_found g r (m_filename ml) \<and> m_match_list ml \<noteq> []
      \<and> outcome (run_good g r) (content (m_filename ml)) (m_match_list ml)"
    and "\<And>p. run_found g r p \<Longrightarrow> \<exists>m. outcome (run_good g r) (content p) m \<and> (m \<noteq> [] \<longrightarrow> \<lparr>m_filename = p, m_match_list = m\<rparr> \<in> set mls)"
proof -
  obtain s where s: "search_inv (run_tree g r) (named S_IFDIR (run_tree g r) (a_paths (r_settings r)))
           (named S_IFREG (run_tree g r) (a_paths (r_settings r))) content (run_good g r) (r_context r) s"
    "at_rest s" "e = Ended (exit_status s)" "out = cout (s_output s)"
    by (rule run_ends[OF ms lib ok me])
  have rep: "run_found g r (m_filename ml) \<and> m_match_list ml \<noteq> [] \<and> outcome (run_good g r) (content (m_filename ml)) (m_match_list ml)"
    if "ml \<in> set (s_printed s)" for ml
    using search_inv_reports[OF s(1), of ml] that by (simp add: reported_ok_def run_found_def)
  obtain tm where "r_globber r = make_globber (r_settings r) (CompileTypeTables tm) (CompileExclusionTables (AddExclusions (a_excludes (r_settings r)) {}))"
    by (rule main_start_run[OF ms])
  then have nf': "\<not> m_follow_symlinks (run_tree g r)" using nf by (simp add: run_tree_def make_globber_def DirTree_ctor_def Let_def)
  have all: "\<exists>m. outcome (run_good g r) (content p) m \<and> (m \<noteq> [] \<longrightarrow> \<lparr>m_filename = p, m_match_list = m\<rparr> \<in> set (s_printed s))"
    if "run_found g r p" for p
    by (rule search_inv_complete[OF s(1,2) nf']) (use that in \<open>simp add: run_found_def\<close>)
  have out: "out = printed_groups (r_context r) (s_printed s)" unfolding s(4) search_invD(9)[OF s(1)] printed_output ..
  have "sum_list (map GetNumberOfMatchedLines (s_printed s)) = 0 \<longleftrightarrow> s_printed s = []"
    using rep by (cases "s_printed s") (auto simp: GetNumberOfMatchedLines_def)
  then have "exit_status s = (if s_printed s = [] then 1 else 0)"
    unfolding exit_status_def search_invD(9)[OF s(1)] printed_output by simp
  with that[OF out _ rep all] s(3) show thesis by simp
qed

lemma run_finishes:
  assumes "main_start g argv = Inr r" and "library_ok g r" and "files_ok g r content"
    and "\<not> a_follow_symlinks (r_settings r)" and "tree_ranked (run_tree g r) rank"
    and "main_threads g r = Some s0" and "(run_step g r)\<^sup>*\<^sup>* s0 s"
  shows "\<exists>s' status. (run_step g r)\<^sup>*\<^sup>* s s' \<and> status \<in> {0, 1} \<and> main_ends g argv (Ended status) (cout (s_output s'))"
proof -
  let ?dt = "run_tree g r" and ?ps = "a_paths (r_settings r)"
  note cs = run_scanner[OF assms(1,2)]
  have q: "quiet_junk ?dt" and hon: "honest ?dt (named S_IFDIR ?dt ?ps) (named S_IFREG ?dt ?ps) content"
    and al: "\<forall>a n. pe_alloc (g_parse g) a n \<noteq> None"
    using assms(3) by (simp_all add: files_ok_def honest_paths_def)
  have s0: "search_inv ?dt (named S_IFDIR ?dt ?ps) (named S_IFREG ?dt ?ps) content (run_good g r) (r_context r) s0"
    "globber_threads (nat (a_dirjobs (r_settings r))) s0" "0 < nat (a_dirjobs (r_settings r))"
    using run_threads_start[OF assms(1,3), where good = "run_good g r"] assms(6) by (metis option.inject)+
  obtain tm where "r_globber r = make_globber (r_settings r) (CompileTypeTables tm) (CompileExclusionTables (AddExclusions (a_excludes (r_settings r)) {}))"
    by (rule main_start_run[OF assms(1)])
  then have nf: "\<not> m_follow_symlinks ?dt" using assms(4) by (simp add: run_tree_def make_globber_def DirTree_ctor_def Let_def)
  have st: "search_inv ?dt (named S_IFDIR ?dt ?ps) (named S_IFREG ?dt ?ps) content (run_good g r) (r_context r) s
      \<and> globber_threads (nat (a_dirjobs (r_settings r))) s"
    using assms(7)
  proof (induction rule: rtranclp_induct)
    case (step s s1)
    then show ?case
      using content_scanner.search_step_inv[OF cs q hon al, of _ s s1] search_step_threads[of ?dt _ _ content "run_good g r" "r_context r" s] by blast
  qed (use s0 in simp)
  obtain s' where s': "(run_step g r)\<^sup>*\<^sup>* s s'" "at_rest s'"
    using content_scanner.search_comes_to_rest[OF cs q nf assms(5) hon al conjunct1[OF st] conjunct2[OF st] s0(3)] by blast
  have "main_ends g argv (Ended (exit_status (queues_closed s'))) (cout (s_output (queues_closed s')))"
    by (rule main_ends.completed[OF assms(1,6) rtranclp_trans[OF assms(7) s'(1)] s'(2)])
  then show ?thesis using s'(1) by (intro exI[of _ s'] exI[of _ "exit_status s'"]) (simp add: queues_closed_def exit_status_def)
qed

subsection \<open>Properties\<close>

text \<open>
  C1. What the program prints and how it ends, once its command line has been accepted and its threads started,
  whatever the threads do in between: the groups of some list of match lists; each of them is right for a file
  to search, and every file to search for which a list that is right is not empty is among them. The exit status
  is 0 if anything was printed, otherwise 1; it never aborts. A list is right if its lines are lines of matches, in
  order, and it has every line on which a match starts, except where matches of that line start only at offsets
  the scan steps over (\<open>hidden\<close>: UTF-8 continuation bytes at the beginning of a line, after an empty match at the end of the line before).

  Conditions: symbolic links are not followed; libpcre2 behaves as documented (\<open>pcre2_library\<close>); the pattern is not empty
  and has no newline or zero byte, and its table of first bytes has at most 16 entries, beyond which matches can be
  skipped (\<open>library_ok\<close>); and the surroundings are as \<open>files_ok\<close> says: memory does not run out, what \<open>stat\<close> says of a file
  agrees with its content, which one call of \<open>read\<close> delivers, its block size is one the buffer can be aligned to, and
  a failed \<open>fstatat\<close> does not leave the description of a file or directory.
\<close>

theorem main_reports_and_exits:
  assumes "main_start g argv = Inr r" and "library_ok g r" and "files_ok g r content"
    and "\<not> a_follow_symlinks (r_settings r)" and "main_ends g argv e out"
  shows "\<exists>mls. out = printed_groups (r_context r) mls \<and> e = Ended (if mls = [] then 1 else 0)
    \<and> (\<forall>ml \<in> set mls. run_found g r (m_filename ml) \<and> m_match_list ml \<noteq> []
         \<and> outcome (run_good g r) (content (m_filename ml)) (m_match_list ml))
    \<and> (\<forall>p. run_found g r p \<longrightarrow> (\<exists>ms. outcome (run_good g r) (content p) ms
         \<and> (ms \<noteq> [] \<longrightarrow> \<lparr>m_filename = p, m_match_list = ms\<rparr> \<in> set mls)))"
  by (rule run_reports[OF assms]) blast

text \<open>
  C3. The exit status tells whether there is a match, under the conditions of \<open>library_ok\<close> (documented library, plain
  pattern, at most 16 possible first bytes) and \<open>files_ok\<close> and with symbolic links not followed: it is 1 or 0; with status
  1 no match of the pattern starts anywhere in the files to search, except at offsets the scan steps over (UTF-8
  continuation bytes at the beginning of a line, after an empty match at the end of the line before); and with status 0
  one of the files has a match.
\<close>

theorem exit_status_means_match:
  assumes "main_start g argv = Inr r" and "library_ok g r" and "files_ok g r content"
    and "\<not> a_follow_symlinks (r_settings r)" and "main_ends g argv e out"
  shows "e = Ended 1 \<and> (\<forall>p c s. run_found g r p \<and> content p = Some c \<and> s < length c
              \<and> starts_at (r_scanner r) (g_match g (r_code r)) c s
            \<longrightarrow> hidden (r_scanner r) (g_match g (r_code r)) c s)
    \<or> e = Ended 0 \<and> (\<exists>p c s n. run_found g r p \<and> content p = Some c
            \<and> match_at (r_scanner r) (g_match g (r_code r)) c s n)"
proof -
  obtain mls where e: "e = Ended (if mls = [] then 1 else 0)"
    and rep: "\<And>ml. ml \<in> set mls \<Longrightarrow> run_found g r (m_filename ml) \<and> m_match_list ml \<noteq> []
      \<and> outcome (run_good g r) (content (m_filename ml)) (m_match_list ml)"
    and all: "\<And>p. run_found g r p \<Longrightarrow> \<exists>m. outcome (run_good g r) (content p) m \<and> (m \<noteq> [] \<longrightarrow> \<lparr>m_filename = p, m_match_list = m\<rparr> \<in> set mls)"
    using run_reports[OF assms(1-5)] by metis
  show ?thesis
  proof (cases mls)
    case Nil
    have "hidden (r_scanner r) (g_match g (r_code r)) c s"
      if p: "run_found g r p" "content p = Some c" "s < length c" and st: "starts_at (r_scanner r) (g_match g (r_code r)) c s" for p c s
    proof (rule ccontr)
      assume h: "\<not> hidden (r_scanner r) (g_match g (r_code r)) c s"
      have "outcome (run_good g r) (Some c) []" using all[OF p(1)] p(2) Nil by auto
      then have "run_good g r c []" using p(3) by (auto simp: outcome_def split: if_splits)
      from right_matches_complete[OF this p(3) st h] show False by simp
    qed
    then show ?thesis using e Nil by (intro disjI1 conjI allI impI) auto
  next
    case (Cons ml rest)
    have ml: "run_found g r (m_filename ml)" "m_match_list ml \<noteq> []" "outcome (run_good g r) (content (m_filename ml)) (m_match_list ml)"
      using rep[of ml] Cons by simp_all
    then obtain c where c: "content (m_filename ml) = Some c" "run_good g r c (m_match_list ml)"
      by (auto simp: outcome_def split: option.splits if_splits)
    obtain m where "m \<in> set (m_match_list ml)" using ml(2) by (metis last_in_set)
    then obtain s n where "match_at (r_scanner r) (g_match g (r_code r)) c s n" using right_matches_sound[OF c(2)] by blast
    then show ?thesis using e Cons ml(1) c(1) by auto
  qed
qed

text \<open>
  C20. A program whose threads have been started ends with status 0 or 1, if symbolic links are not followed,
  directories are not nested for ever, and \<open>library_ok\<close> and \<open>files_ok\<close> hold (so the pattern is not empty, its table of
  first bytes has at most 16 entries, and files can be read): from every state its threads can reach they can
  come to rest.
\<close>

theorem main_comes_to_an_end:
  assumes "main_start g argv = Inr r" and "library_ok g r" and "files_ok g r content"
    and "\<not> a_follow_symlinks (r_settings r)" and "tree_ranked (run_tree g r) rank"
    and "main_threads g r = Some s0" and "(run_step g r)\<^sup>*\<^sup>* s0 s"
  shows "\<exists>s' status. (run_step g r)\<^sup>*\<^sup>* s s' \<and> status \<in> {0, 1} \<and> main_ends g argv (Ended status) (cout (s_output s'))"
  by (rule run_finishes[OF assms])

text \<open>
  C39. A pattern that libpcre2 does not compile ends the program with status 255: nothing is printed and no thread
  has been started.
\<close>

theorem bad_pattern_ends_early:
  assumes "Parse (g_parse g) argv TypeManager_ctor = Parsed a tm"
    and "g_compile g (wrapped_pattern (a_pattern a) (a_word_regexp a) (a_pattern_is_literal a)) (a_ignore_case a) = Inl err"
  shows "main_ends g argv e out \<longleftrightarrow> e = Ended 255 \<and> out = []"
proof -
  have "main_start g argv = Inl (Ended 255)"
    using assms by (cases err) (simp add: main_start_def Create_def FileScannerPCRE2_ctor_def Let_def)
  then show ?thesis by (auto elim: main_ends_elim intro: main_ends.early)
qed

subsection \<open>An instance\<close>

definition prog_os :: os where
  "prog_os = tiny_os
     \<lparr>sys_open := (\<lambda>p fl. if p = ''a.c'' then 7 else if p = ''.'' then 3 else -1),
      sys_fstat := (\<lambda>fd. if fd = 7 then Some \<lparr>st_mode = S_IFREG, st_dev = 1, st_ino = 3, st_size = 3, st_blksize = 4096, st_blocks = 1\<rparr>
        else None),
      sys_fstatat := (\<lambda>fd p b. if fd = 103 \<and> p = ''a.c''
        then Some \<lparr>st_mode = S_IFREG, st_dev = 1, st_ino = 3, st_size = 3, st_blksize = 4096, st_blocks = 1\<rparr> else None),
      sys_read := (\<lambda>fd. if fd = 7 then [''aBc''] else [])\<rparr>"

definition prog_parse_env :: parse_env where
  "prog_parse_env = sample_parse_env
     \<lparr>pe_os := prog_os, pe_environment := \<lparr>env_HOME = Some ''/h'', env_pw_dir = None, env_cwd = Some ''/h''\<rparr>\<rparr>"

definition prog_env :: "(unit, unit, unit) program_env" where
  "prog_env =
     \<lparr>g_parse = prog_parse_env, g_fnmatch = (\<lambda>_ _. False), g_junk = tiny_junk S_IFOTHER, g_memory = (\<lambda>_. NUL), g_cpu = \<lparr>cpuid = (\<lambda>_. None), xgetbv = (\<lambda>_. 0)\<rparr>,
      g_pcre = (\<lambda>_ _ _ _. Inl (StudyFailed NUL)), g_compile = (\<lambda>_ _. Inr ()), g_jit_compile = (\<lambda>_. 0), g_num_callouts = (\<lambda>_. 1),
      g_info = (\<lambda>_. literal_info ''B''), g_match = (\<lambda>_. literal_pm ''B'')\<rparr>"

definition prog_argv :: "string list" where
  "prog_argv = [''ucg'', ''-Q'', ''B'', ''a.c'']"

definition prog_occs :: "option_occ list" where
  "prog_occs = [\<lparr>oc_index = OPT_LITERAL, oc_type = 0, oc_arg = None\<rparr>]"

definition prog_settings :: arg_parse where
  "prog_settings = ArgParse_init\<lparr>a_pattern := ''B'', a_pattern_is_literal := True, a_paths := [''a.c''], a_jobs := 8, a_dirjobs := 4\<rparr>"

lemma prog_types: "HandleTYPELogic prog_argv tm = Inr (prog_argv, tm)"
  by (simp add: prog_argv_def handle_arg_def)

lemma prog_config: "FindAndParseConfigFiles (pe_alloc prog_parse_env) (pe_os prog_parse_env) (pe_environment prog_parse_env) False = Inr ([], [])"
  by code_simp

lemma prog_command_line: "command_line prog_parse_env prog_argv tm = Inr (prog_occs, [''B'', ''a.c''], tm)"
proof -
  have n: "''--noenv'' \<notin> set (before_double_dash prog_argv)" "''--test-noenv-user'' \<notin> set (before_double_dash prog_argv)"
    "combined_argv prog_argv ([], []) = prog_argv" by code_simp+
  have "workhorse (dynamic_usage (f_raw_options (pe_bug_address prog_parse_env))) (tl prog_argv) = Some (prog_occs, [''B'', ''a.c''])"
    by code_simp
  then show ?thesis using n by (simp add: command_line_def prog_types prog_config)
qed

lemma prog_Parse: "Parse prog_parse_env prog_argv tm = Parsed prog_settings tm"
proof -
  have "apply_options (pe_isatty prog_parse_env) (pe_hardware_concurrency prog_parse_env) prog_occs [''B'', ''a.c'']
      (ArgParse_init\<lparr>a_test_noenv_user := (''--test-noenv-user'' \<in> set (before_double_dash prog_argv))\<rparr>) tm = Parsed prog_settings tm"
    by code_simp
  then show ?thesis by (simp add: Parse_def prog_command_line)
qed

definition prog_run :: "unit run" where
  "prog_run =
     \<lparr>r_settings = prog_settings,
      r_globber = make_globber prog_settings (CompileTypeTables TypeManager_ctor) (CompileExclusionTables (AddExclusions {} {})),
      r_context = OutputContext_ctor True False True False False, r_code = (),
      r_scanner = AnalyzeRegex (literal_info ''B'') False False True ''B'' scanner_init\<rparr>"

lemma prog_start: "main_start prog_env prog_argv = Inr prog_run"
proof -
  have g: "g_parse prog_env = prog_parse_env" "g_compile prog_env = (\<lambda>_ _. Inr ())" "g_jit_compile prog_env = (\<lambda>_. 0)"
    "g_num_callouts prog_env = (\<lambda>_. 1)" "g_info prog_env = (\<lambda>_. literal_info ''B'')" by (simp_all add: prog_env_def)
  have a: "a_pattern prog_settings = ''B''" "a_ignore_case prog_settings = False" "a_word_regexp prog_settings = False"
    "a_pattern_is_literal prog_settings = True" "a_excludes prog_settings = {}" "a_color prog_settings = True" "a_prefix_file prog_settings = False"
    "a_line_number prog_settings = True" "a_column prog_settings = False" "a_nullsep prog_settings = False"
    by (simp_all add: prog_settings_def ArgParse_init_def)
  show ?thesis
    by (simp add: main_start_def g prog_Parse a Create_def FileScannerPCRE2_ctor_def Let_def prog_run_def)
qed

lemma prog_library: "library_ok prog_env prog_run"
proof -
  have "plain ''B''" "m_end_fpcu_table (m_tables (AnalyzeRegex (literal_info ''B'') False False True ''B'' scanner_init)) \<le> 16"
    by (simp_all add: plain_def AnalyzeRegex_def analyze_literal_def analyze_first_units_def literal_info_def m_end_fpcu_table_def)
  then show ?thesis
    by (simp add: library_ok_def prog_run_def prog_env_def prog_settings_def ArgParse_init_def literal_lib.pcre2_library_axioms)
qed

text \<open>The one file, which the command line names.\<close>

definition prog_content :: "string \<Rightarrow> string option" where
  "prog_content p = (if p = ''a.c'' then Some ''aBc'' else None)"

lemma prog_tree_os: "m_os (run_tree prog_env prog_run) = prog_os" "m_junk (run_tree prog_env prog_run) = tiny_junk S_IFOTHER"
  "\<not> m_follow_symlinks (run_tree prog_env prog_run)"
  by (simp_all add: run_tree_def DirTree_ctor_def Let_def prog_env_def prog_parse_env_def prog_run_def make_globber_def
      prog_settings_def ArgParse_init_def)

lemma prog_named: "named S_IFDIR (run_tree prog_env prog_run) [''a.c''] = {}" "named S_IFREG (run_tree prog_env prog_run) [''a.c''] = {''a.c''}"
proof -
  have c: "clean_up_path ''a.c'' = ''a.c''" by code_simp
  have "start_type (run_tree prog_env prog_run) ''a.c'' = Some S_IFREG"
    by (simp add: start_type_def root_descriptor_def prog_tree_os c Let_def) (simp add: prog_tree_os prog_os_def tiny_os_def)
  with c show "named S_IFDIR (run_tree prog_env prog_run) [''a.c''] = {}" "named S_IFREG (run_tree prog_env prog_run) [''a.c''] = {''a.c''}"
    by (auto simp: named_def)
qed

lemma prog_paths: "a_paths (r_settings prog_run) = [''a.c'']"
  by (simp add: prog_run_def prog_settings_def)

lemma prog_found: "run_found prog_env prog_run p \<longleftrightarrow> p = ''a.c''"
proof -
  have "\<not> reached (run_tree prog_env prog_run) {} q" for q
  proof
    assume "reached (run_tree prog_env prog_run) {} q"
    then show False by (induction rule: reached.induct) simp_all
  qed
  then show ?thesis by (auto simp: run_found_def prog_paths prog_named elim: DirTraversal.found.cases intro: DirTraversal.found.named)
qed

lemma prog_files: "files_ok prog_env prog_run prog_content"
proof -
  let ?dt = "run_tree prog_env prog_run"
  have nr: "\<not> reached ?dt {} q" for q
  proof
    assume "reached ?dt {} q"
    then show False by (induction rule: reached.induct) simp_all
  qed
  have "is_power_of_2 (of_nat (nat (clamp 4096 0x20000 0x100000)) :: 64 word)" by (simp add: is_power_of_2_def clamp_def)
  then have sv: "serves (m_os ?dt) ''a.c'' (prog_content ''a.c'')" and ft: "\<And>fd p b sb. sys_fstatat prog_os fd p b = Some sb \<Longrightarrow> fits (Some ''aBc'') sb"
    unfolding prog_tree_os by (simp_all add: serves_def prog_content_def fits_def prog_os_def split: if_splits) fastforce?
  have f: "DirTraversal.found ?dt {} {''a.c''} p \<Longrightarrow> p = ''a.c''" for p
    by (erule DirTraversal.found.cases) (simp_all add: nr)
  have "clean_up_path ''a.c'' = ''a.c''" by code_simp
  then have hp: "honest_paths ?dt [''a.c''] prog_content"
    unfolding honest_paths_def honest_def prog_named using f sv nr ft by (auto simp: prog_tree_os prog_content_def)
  have "quiet_junk ?dt" by (simp add: quiet_junk_def prog_tree_os tiny_junk_def)
  with hp show ?thesis by (simp add: files_ok_def prog_paths) (simp add: prog_env_def prog_parse_env_def sample_parse_env_def)
qed

lemma prog_no_links: "\<not> a_follow_symlinks (r_settings prog_run)"
  by (simp add: prog_run_def prog_settings_def ArgParse_init_def)

lemma prog_ranked: "tree_ranked (run_tree prog_env prog_run) (\<lambda>_. 0)"
proof -
  have "entries (run_tree prog_env prog_run) p = None" for p
    by (simp add: entries_def prog_tree_os prog_os_def tiny_os_def)
  then show ?thesis by (simp add: tree_ranked_def)
qed

lemma prog_matches: "starts_at (r_scanner prog_run) (g_match prog_env (r_code prog_run)) ''aBc'' 1"
  by (simp add: prog_run_def starts_at_def AnalyzeRegex_def analyze_literal_def literal_at_def)

lemma prog_reports:
  assumes "outcome (run_good prog_env prog_run) (prog_content ''a.c'') ms"
  shows "1 \<in> m_line_number ` set ms"
proof -
  have r: "run_good prog_env prog_run ''aBc'' ms" using assms by (simp add: outcome_def prog_content_def)
  have "content_line ''aBc'' 1 = 1" by (simp add: content_line_def)
  then show ?thesis using right_matches_complete[OF r _ prog_matches] not_hidden[of "''aBc''" 1] by (auto simp: continuation_def of_char_def)
qed

lemma prog_ends: "\<exists>out. main_ends prog_env prog_argv (Ended 0) out"
proof -
  obtain s0 where s0: "main_threads prog_env prog_run = Some s0"
    by (rule run_threads_start[OF prog_start prog_files, where good = "\<lambda>_ _. True"])
  from run_finishes[OF prog_start prog_library prog_files prog_no_links prog_ranked s0 rtranclp.rtrancl_refl]
  obtain status out where e: "main_ends prog_env prog_argv (Ended status) out" by blast
  obtain mls where "Ended status = Ended (if mls = [] then 1 else 0)"
    "\<And>p. run_found prog_env prog_run p \<Longrightarrow> \<exists>m. outcome (run_good prog_env prog_run) (prog_content p) m
       \<and> (m \<noteq> [] \<longrightarrow> \<lparr>m_filename = p, m_match_list = m\<rparr> \<in> set mls)"
    using run_reports[OF prog_start prog_library prog_files prog_no_links e] by metis
  moreover from this(2)[of "''a.c''"] have "mls \<noteq> []" using prog_reports by (fastforce simp: prog_found)
  ultimately show ?thesis using e by auto
qed

lemma main_comes_to_an_end_witness:
  "\<exists>s0 s status. main_threads prog_env prog_run = Some s0 \<and> (run_step prog_env prog_run)\<^sup>*\<^sup>* s0 s
     \<and> main_ends prog_env prog_argv (Ended status) (cout (s_output s))"
proof -
  obtain s0 where s0: "main_threads prog_env prog_run = Some s0"
    by (rule run_threads_start[OF prog_start prog_files, where good = "\<lambda>_ _. True"])
  from main_comes_to_an_end[OF prog_start prog_library prog_files prog_no_links prog_ranked s0 rtranclp.rtrancl_refl] s0
  show ?thesis by blast
qed

lemma exit_status_means_match_witness:
  "\<exists>out p c s n. main_ends prog_env prog_argv (Ended 0) out \<and> run_found prog_env prog_run p \<and> prog_content p = Some c
     \<and> match_at (r_scanner prog_run) (g_match prog_env (r_code prog_run)) c s n"
proof -
  obtain out where out: "main_ends prog_env prog_argv (Ended 0) out" using prog_ends by blast
  from exit_status_means_match[OF prog_start prog_library prog_files prog_no_links out] out show ?thesis by auto
qed

lemma main_reports_and_exits_witness:
  "\<exists>out mls ms. main_ends prog_env prog_argv (Ended 0) out \<and> out = printed_groups (r_context prog_run) mls
     \<and> \<lparr>m_filename = ''a.c'', m_match_list = ms\<rparr> \<in> set mls \<and> 1 \<in> m_line_number ` set ms"
proof -
  obtain out where out: "main_ends prog_env prog_argv (Ended 0) out" using prog_ends by blast
  from main_reports_and_exits[OF prog_start prog_library prog_files prog_no_links out]
  obtain mls where m: "out = printed_groups (r_context prog_run) mls"
    "\<forall>p. run_found prog_env prog_run p \<longrightarrow> (\<exists>ms. outcome (run_good prog_env prog_run) (prog_content p) ms
         \<and> (ms \<noteq> [] \<longrightarrow> \<lparr>m_filename = p, m_match_list = ms\<rparr> \<in> set mls))" by auto
  have "run_found prog_env prog_run ''a.c''" by (simp add: prog_found)
  with m(2) obtain ms where ms: "outcome (run_good prog_env prog_run) (prog_content ''a.c'') ms"
    "ms \<noteq> [] \<longrightarrow> \<lparr>m_filename = ''a.c'', m_match_list = ms\<rparr> \<in> set mls" by blast
  note one = prog_reports[OF ms(1)]
  then have "ms \<noteq> []" by auto
  with ms(2) have "\<lparr>m_filename = ''a.c'', m_match_list = ms\<rparr> \<in> set mls" by blast
  with one m(1) out show ?thesis by blast
qed

lemma bad_pattern_ends_early_witness:
  "main_ends (prog_env\<lparr>g_compile := \<lambda>_ _. Inl (101, 0)\<rparr>) prog_argv (Ended 255) []"
proof -
  have "g_parse (prog_env\<lparr>g_compile := \<lambda>_ _. Inl (101, 0)\<rparr>) = prog_parse_env" by (simp add: prog_env_def)
  with prog_Parse have "Parse (g_parse (prog_env\<lparr>g_compile := \<lambda>_ _. Inl (101, 0)\<rparr>)) prog_argv TypeManager_ctor
      = Parsed prog_settings TypeManager_ctor" by simp
  from bad_pattern_ends_early[OF this, of "(101, 0)"] show ?thesis by simp
qed

end
