(* ===== verification/FileDesc.thy ===== *)
theory FileDesc
  imports Prelude
begin

text \<open>
  \<open>src/libext/FileDescriptor.hpp\<close>: objects that own a POSIX file descriptor. The state is the set of the
  process's open descriptors and the value each living object holds. Each operation runs with the mutexes it
  takes, alone. What is shown is that no descriptor ever has two owners, is closed twice or is leaked, and
  that the copy and move constructors make empty objects.
\<close>

subsection \<open>Descriptors and objects\<close>

text \<open>
  \<open>foreign\<close> and \<open>bad_closes\<close> are histories: the open descriptors that are the business of the rest of the
  program, and the calls of \<open>close\<close> on a descriptor that is not open.
\<close>

record fds =
  open_fds :: "int set"
  fd_objects :: "nat \<Rightarrow> int option"
  foreign :: "int set"
  bad_closes :: nat

definition cm_invalid_file_descriptor :: int where
  "cm_invalid_file_descriptor = -987"

text \<open>\<open>dup\<close>, on what the system has for a new descriptor, and \<open>close\<close>.\<close>

definition dup :: "(int set \<Rightarrow> int option) \<Rightarrow> int \<Rightarrow> fds \<Rightarrow> int \<times> fds" where
  "dup fresh fd s =
     (if fd \<in> open_fds s then
        (case fresh (open_fds s) of
           None \<Rightarrow> (-1, s)
         | Some n \<Rightarrow> (n, s\<lparr>open_fds := insert n (open_fds s)\<rparr>))
      else (-1, s))"

definition close_fd :: "int \<Rightarrow> fds \<Rightarrow> fds" where
  "close_fd fd s =
     (if fd \<in> open_fds s then s\<lparr>open_fds := open_fds s - {fd}\<rparr> else s\<lparr>bad_closes := bad_closes s + 1\<rparr>)"

definition GetFD :: "nat \<Rightarrow> fds \<Rightarrow> int" where
  "GetFD this s = (case fd_objects s this of None \<Rightarrow> cm_invalid_file_descriptor | Some v \<Rightarrow> v)"

definition store_fd :: "nat \<Rightarrow> int \<Rightarrow> fds \<Rightarrow> fds" where
  "store_fd this v s = s\<lparr>fd_objects := (fd_objects s)(this := Some v)\<rparr>"

definition unlocked_empty :: "nat \<Rightarrow> fds \<Rightarrow> bool" where
  "unlocked_empty this s \<longleftrightarrow> GetFD this s < 0"

subsection \<open>The operations\<close>

definition FileDescriptor_default :: "nat \<Rightarrow> fds \<Rightarrow> fds" where
  "FileDescriptor_default this s = store_fd this cm_invalid_file_descriptor s"

definition FileDescriptor_explicit :: "nat \<Rightarrow> int \<Rightarrow> fds \<Rightarrow> fds" where
  "FileDescriptor_explicit this fd s = store_fd this fd (FileDescriptor_default this s)"

text \<open>\<open>DoubleCheckedLock\<close> on the descriptor of \<open>wrap\<close>: the factory runs, and its result is stored there, if that one is invalid.\<close>

definition lock_and_fill :: "nat \<Rightarrow> (fds \<Rightarrow> int \<times> fds) \<Rightarrow> fds \<Rightarrow> fds" where
  "lock_and_fill wrap factory s =
     (if GetFD wrap s = cm_invalid_file_descriptor then (case factory s of (v, s) \<Rightarrow> store_fd wrap v s) else s)"

definition FileDescriptor_copy :: "(int set \<Rightarrow> int option) \<Rightarrow> nat \<Rightarrow> nat \<Rightarrow> fds \<Rightarrow> fds" where
  "FileDescriptor_copy fresh this other s =
     lock_and_fill other
       (\<lambda>s. if \<not> unlocked_empty other s then dup fresh (GetFD other s) s else (GetFD other s, s))
       (FileDescriptor_default this s)"

definition FileDescriptor_move :: "nat \<Rightarrow> nat \<Rightarrow> fds \<Rightarrow> fds" where
  "FileDescriptor_move this other s =
     lock_and_fill other
       (\<lambda>s. (GetFD other s, if \<not> unlocked_empty other s then store_fd other cm_invalid_file_descriptor s else s))
       (FileDescriptor_default this s)"

definition FileDescriptor_destroy :: "nat \<Rightarrow> fds \<Rightarrow> fds" where
  "FileDescriptor_destroy this s =
     (let s = (if \<not> unlocked_empty this s
               then store_fd this cm_invalid_file_descriptor (close_fd (GetFD this s) s) else s)
      in s\<lparr>fd_objects := (fd_objects s)(this := None)\<rparr>)"

definition copy_assign :: "(int set \<Rightarrow> int option) \<Rightarrow> nat \<Rightarrow> nat \<Rightarrow> fds \<Rightarrow> fds" where
  "copy_assign fresh this other s =
     (if this \<noteq> other then
        (let s = (if \<not> unlocked_empty this s then close_fd (GetFD this s) s else s)
         in if unlocked_empty other s then store_fd this (GetFD other s) s
            else (case dup fresh (GetFD other s) s of (v, s) \<Rightarrow> store_fd this v s))
      else s)"

definition move_assign :: "nat \<Rightarrow> nat \<Rightarrow> fds \<Rightarrow> fds" where
  "move_assign this other s =
     (if this \<noteq> other then
        (let s = (if \<not> unlocked_empty this s then close_fd (GetFD this s) s else s);
             s = store_fd this (GetFD other s) s
         in store_fd other cm_invalid_file_descriptor s)
      else s)"

definition GetDupFD :: "(int set \<Rightarrow> int option) \<Rightarrow> nat \<Rightarrow> fds \<Rightarrow> int \<times> fds" where
  "GetDupFD fresh this s = dup fresh (GetFD this s) s"

definition empty_fd :: "nat \<Rightarrow> fds \<Rightarrow> bool" where
  "empty_fd this s \<longleftrightarrow> GetFD this s < 0"

text \<open>The object it returns is constructed in place.\<close>

definition make_shared_fd :: "nat \<Rightarrow> int \<Rightarrow> fds \<Rightarrow> fds" where
  "make_shared_fd this fd s = FileDescriptor_explicit this fd s"

subsection \<open>The program's use of them\<close>

text \<open>
  An object is made before it is used and destroyed once; a descriptor handed to an object is open and the
  caller's own, or invalid. The rest of the program opens and closes descriptors of its own.
\<close>

inductive fd_step :: "(int set \<Rightarrow> int option) \<Rightarrow> fds \<Rightarrow> fds \<Rightarrow> bool" for fresh where
  default: "fd_objects s i = None \<Longrightarrow> fd_step fresh s (FileDescriptor_default i s)"
| explicit: "fd_objects s i = None \<Longrightarrow> fd \<in> foreign s \<or> fd < 0 \<Longrightarrow>
    fd_step fresh s ((make_shared_fd i fd s)\<lparr>foreign := foreign s - {fd}\<rparr>)"
| copy: "fd_objects s i = None \<Longrightarrow> fd_objects s j = Some v \<Longrightarrow> fd_step fresh s (FileDescriptor_copy fresh i j s)"
| move: "fd_objects s i = None \<Longrightarrow> fd_objects s j = Some v \<Longrightarrow> fd_step fresh s (FileDescriptor_move i j s)"
| assign: "fd_objects s i = Some u \<Longrightarrow> fd_objects s j = Some v \<Longrightarrow> fd_step fresh s (copy_assign fresh i j s)"
| move_assign: "fd_objects s i = Some u \<Longrightarrow> fd_objects s j = Some v \<Longrightarrow> fd_step fresh s (move_assign i j s)"
| destroy: "fd_objects s i = Some v \<Longrightarrow> fd_step fresh s (FileDescriptor_destroy i s)"
| dup_fd: "fd_objects s i = Some v \<Longrightarrow> GetDupFD fresh i s = (n, s') \<Longrightarrow>
    fd_step fresh s (s'\<lparr>foreign := foreign s' \<union> (if n < 0 then {} else {n})\<rparr>)"
| opens: "0 \<le> n \<Longrightarrow> n \<notin> open_fds s \<Longrightarrow> fd_step fresh s (s\<lparr>open_fds := insert n (open_fds s), foreign := insert n (foreign s)\<rparr>)"
| closes: "n \<in> foreign s \<Longrightarrow> fd_step fresh s ((close_fd n s)\<lparr>foreign := foreign s - {n}\<rparr>)"

inductive_cases fd_step_elim: "fd_step fresh s s'"

text \<open>The system gives out descriptors that are not in use.\<close>

definition fresh_ok :: "(int set \<Rightarrow> int option) \<Rightarrow> bool" where
  "fresh_ok fresh \<longleftrightarrow> (\<forall>S n. fresh S = Some n \<longrightarrow> 0 \<le> n \<and> n \<notin> S)"

text \<open>The descriptors that objects own; each has one owner, and the open ones are these and the foreign ones.\<close>

definition owns :: "fds \<Rightarrow> nat \<Rightarrow> int \<Rightarrow> bool" where
  "owns s i v \<longleftrightarrow> fd_objects s i = Some v \<and> 0 \<le> v"

definition fd_inv :: "fds \<Rightarrow> bool" where
  "fd_inv s \<longleftrightarrow>
     (\<forall>v. v \<in> open_fds s \<longleftrightarrow> v \<in> foreign s \<or> (\<exists>i. owns s i v))
     \<and> (\<forall>i v. owns s i v \<longrightarrow> v \<notin> foreign s) \<and> (\<forall>i j v. owns s i v \<longrightarrow> owns s j v \<longrightarrow> i = j)
     \<and> (\<forall>v \<in> foreign s. 0 \<le> v) \<and> bad_closes s = 0"

lemma fd_invI:
  assumes "\<And>v. v \<in> open_fds s \<longleftrightarrow> v \<in> foreign s \<or> (\<exists>i. owns s i v)" and "\<And>i v. owns s i v \<Longrightarrow> v \<notin> foreign s"
    and "\<And>i j v. owns s i v \<Longrightarrow> owns s j v \<Longrightarrow> i = j" and "\<And>v. v \<in> foreign s \<Longrightarrow> 0 \<le> v" and "bad_closes s = 0"
  shows "fd_inv s"
  unfolding fd_inv_def using assms by blast

lemma fd_invD:
  assumes "fd_inv s"
  shows "v \<in> open_fds s \<longleftrightarrow> v \<in> foreign s \<or> (\<exists>i. owns s i v)" and "owns s i v \<Longrightarrow> v \<notin> foreign s"
    and "owns s i v \<Longrightarrow> owns s j v \<Longrightarrow> i = j" and "v \<in> foreign s \<Longrightarrow> 0 \<le> v" and "bad_closes s = 0"
  using assms unfolding fd_inv_def by blast+

lemmas fd_defs = FileDescriptor_default_def FileDescriptor_explicit_def make_shared_fd_def store_fd_def GetFD_def unlocked_empty_def
  cm_invalid_file_descriptor_def

subsection \<open>Ownership\<close>

text \<open>The constructors from another object store into that object what it holds already.\<close>

lemma construct_from_other:
  assumes "fd_objects s j = Some v" and "fd_objects s i = None"
  shows "FileDescriptor_copy fresh i j s = FileDescriptor_default i s" and "FileDescriptor_move i j s = FileDescriptor_default i s"
proof -
  have n: "i \<noteq> j" using assms by auto
  then have e: "((fd_objects s)(i := Some (- 987)))(j := Some (-987)) = (fd_objects s)(i := Some (-987))" if "v = -987"
    using assms(1) that by (auto simp: fun_eq_iff)
  show "FileDescriptor_copy fresh i j s = FileDescriptor_default i s" "FileDescriptor_move i j s = FileDescriptor_default i s"
    using assms n e by (simp_all add: FileDescriptor_copy_def FileDescriptor_move_def lock_and_fill_def fd_defs)
qed

text \<open>The parts of the state a store leaves.\<close>

lemma store_fd_sel [simp]:
  "open_fds (store_fd i w s) = open_fds s" "foreign (store_fd i w s) = foreign s" "bad_closes (store_fd i w s) = bad_closes s"
  "fd_objects (store_fd i w s) = (fd_objects s)(i := Some w)"
  by (simp_all add: store_fd_def)

lemma store_store [simp]: "store_fd i v (store_fd i w s) = store_fd i v s"
  by (simp add: store_fd_def)

text \<open>What matters of a state: the three sets and the descriptors owned.\<close>

lemma fd_inv_cong:
  assumes "fd_inv s" and "open_fds s' = open_fds s" and "foreign s' = foreign s" and "bad_closes s' = bad_closes s"
    and "\<And>k v. owns s' k v = owns s k v"
  shows "fd_inv s'"
  using assms(1) unfolding fd_inv_def assms(2-5) .

lemma fd_inv_store:
  assumes "fd_inv s" and "\<And>v. \<not> owns s i v" and "w < 0"
  shows "fd_inv (store_fd i w s)"
  by (rule fd_inv_cong[OF assms(1)]) (use assms(2,3) in \<open>auto simp: owns_def\<close>)

text \<open>An object that gives up its descriptor closes it.\<close>

lemma fd_inv_release:
  assumes inv: "fd_inv s" and i: "fd_objects s i = Some v"
  defines "s1 \<equiv> (if \<not> unlocked_empty i s then close_fd (GetFD i s) s else s)"
  shows "fd_inv (store_fd i (-987) s1)" and "fd_objects s1 = fd_objects s" and "foreign s1 = foreign s"
    and "open_fds s1 = open_fds s - (if v < 0 then {} else {v})"
proof -
  note iv = fd_invD[OF inv]
  have o: "v \<in> open_fds s" if "0 \<le> v" using iv(1) i that by (auto simp: owns_def)
  then show s1: "fd_objects s1 = fd_objects s" "foreign s1 = foreign s" "open_fds s1 = open_fds s - (if v < 0 then {} else {v})"
    using i by (auto simp: s1_def unlocked_empty_def GetFD_def close_fd_def)
  have b: "bad_closes s1 = 0" using o i iv(5) by (auto simp: s1_def unlocked_empty_def GetFD_def close_fd_def)
  have ow: "owns (store_fd i (-987) s1) k u \<longleftrightarrow> owns s k u \<and> k \<noteq> i" for k u by (auto simp: owns_def s1(1))
  have iu: "owns s i u \<longleftrightarrow> u = v \<and> 0 \<le> v" for u using i by (auto simp: owns_def)
  have "u \<in> open_fds s1 \<longleftrightarrow> u \<in> foreign s \<or> (\<exists>k. owns s k u \<and> k \<noteq> i)" for u
  proof (cases "0 \<le> v \<and> u = v")
    case True
    then have o: "owns s i u" using iu by simp
    have "u \<notin> open_fds s1" using s1(3) True by simp
    moreover have "u \<notin> foreign s" by (rule iv(2)[OF o])
    moreover have "\<not> (\<exists>k. owns s k u \<and> k \<noteq> i)" using iv(3)[OF _ o] by blast
    ultimately show ?thesis by simp
  next
    case False
    then have "u \<in> open_fds s1 \<longleftrightarrow> u \<in> open_fds s" "\<not> owns s i u" using s1(3) iu by auto
    then show ?thesis using iv(1)[of u] by metis
  qed
  note open1 = this
  show "fd_inv (store_fd i (-987) s1)"
  proof (rule fd_invI)
    show "u \<in> open_fds (store_fd i (-987) s1) \<longleftrightarrow> u \<in> foreign (store_fd i (-987) s1) \<or> (\<exists>k. owns (store_fd i (-987) s1) k u)" for u
      unfolding ow using open1 by (simp add: s1(2))
    show "u \<notin> foreign (store_fd i (-987) s1)" if "owns (store_fd i (-987) s1) k u" for k u
      using that iv(2)[of k u] by (simp add: ow s1(2))
    show "k = l" if "owns (store_fd i (-987) s1) k u" "owns (store_fd i (-987) s1) l u" for k l u
      using that iv(3) by (simp add: ow) blast
  qed (use iv(4) b s1(2) in simp_all)
qed

text \<open>An object that holds none takes over one that is no other's.\<close>

lemma fd_inv_take:
  assumes inv: "fd_inv s" and ni: "\<And>v. \<not> owns s i v" and f: "n \<notin> open_fds s \<or> n \<in> foreign s" "0 \<le> n"
  shows "fd_inv (store_fd i n (s\<lparr>open_fds := insert n (open_fds s), foreign := foreign s - {n}\<rparr>))"
proof -
  let ?s = "store_fd i n (s\<lparr>open_fds := insert n (open_fds s), foreign := foreign s - {n}\<rparr>)"
  note iv = fd_invD[OF inv]
  have no: "\<not> owns s k n" for k using f iv(1,2) by blast
  have ow: "owns ?s k u \<longleftrightarrow> (if k = i then u = n else owns s k u)" for k u using f(2) by (auto simp: owns_def)
  show ?thesis
  proof (rule fd_invI)
    show "u \<in> open_fds ?s \<longleftrightarrow> u \<in> foreign ?s \<or> (\<exists>k. owns ?s k u)" for u
    proof (cases "u = n")
      case True
      then show ?thesis using ow[of i n] by auto
    next
      case False
      then have "(\<exists>k. owns ?s k u) \<longleftrightarrow> (\<exists>k. owns s k u)" using ow ni by metis
      then show ?thesis using False iv(1)[of u] by simp
    qed
    show "u \<notin> foreign ?s" if "owns ?s k u" for k u using that iv(2)[of k u] by (auto simp: ow split: if_splits)
    show "k = l" if "owns ?s k u" "owns ?s l u" for k l u using that iv(3) no unfolding ow by (metis (no_types))
  qed (use iv(4,5) in auto)
qed

text \<open>One object takes over what another holds.\<close>

lemma fd_inv_transfer:
  assumes inv: "fd_inv s" and ni: "\<And>v. \<not> owns s i v" and j: "fd_objects s j = Some v" "i \<noteq> j"
  shows "fd_inv (store_fd j (-987) (store_fd i v s))"
proof -
  let ?s = "store_fd j (-987) (store_fd i v s)"
  note iv = fd_invD[OF inv]
  have ow: "owns ?s k u \<longleftrightarrow> (if k = i then owns s j u else if k = j then False else owns s k u)" for k u
    using j by (auto simp: owns_def)
  show ?thesis
  proof (rule fd_invI)
    have "(\<exists>k. owns ?s k u) \<longleftrightarrow> (\<exists>k. owns s k u)" for u using ow ni j(2) by metis
    then show "u \<in> open_fds ?s \<longleftrightarrow> u \<in> foreign ?s \<or> (\<exists>k. owns ?s k u)" for u using iv(1)[of u] by simp
    show "u \<notin> foreign ?s" if "owns ?s k u" for k u using that iv(2) by (simp add: ow split: if_splits)
    show "k = l" if "owns ?s k u" "owns ?s l u" for k l u using that iv(3) ow by metis
  qed (use iv(4,5) in simp_all)
qed

lemma fd_inv_dup:
  assumes inv: "fd_inv s" and fr: "fresh_ok fresh" and d: "dup fresh fd s = (n, s')"
  shows "n = -1 \<and> s' = s \<or> 0 \<le> n \<and> n \<notin> open_fds s \<and> s' = s\<lparr>open_fds := insert n (open_fds s)\<rparr>"
  using d fr by (auto simp: dup_def fresh_ok_def split: if_splits option.splits)

lemma fd_inv_foreign:
  assumes inv: "fd_inv s"
  shows "0 \<le> n \<Longrightarrow> n \<notin> open_fds s \<Longrightarrow> fd_inv (s\<lparr>open_fds := insert n (open_fds s), foreign := insert n (foreign s)\<rparr>)"
    and "n \<in> foreign s \<Longrightarrow> fd_inv (s\<lparr>open_fds := open_fds s - {n}, foreign := foreign s - {n}\<rparr>)"
proof -
  note iv = fd_invD[OF inv]
  have ow: "owns (s\<lparr>open_fds := A, foreign := B\<rparr>) k u = owns s k u" for A B k u by (simp add: owns_def)
  show "0 \<le> n \<Longrightarrow> n \<notin> open_fds s \<Longrightarrow> fd_inv (s\<lparr>open_fds := insert n (open_fds s), foreign := insert n (foreign s)\<rparr>)"
    by (rule fd_invI) (use iv in \<open>auto simp: ow\<close>)
  show "n \<in> foreign s \<Longrightarrow> fd_inv (s\<lparr>open_fds := open_fds s - {n}, foreign := foreign s - {n}\<rparr>)"
    by (rule fd_invI) (use iv in \<open>auto simp: ow\<close>)
qed

lemma fd_step_inv:
  assumes fr: "fresh_ok fresh" and step: "fd_step fresh s s'" and inv: "fd_inv s"
  shows "fd_inv s'"
proof -
  have none: "\<not> owns s i v" if "fd_objects s i = None" for i v using that by (simp add: owns_def)
  have new: "fd_inv (FileDescriptor_default i s)" if "fd_objects s i = None" for i
    unfolding FileDescriptor_default_def cm_invalid_file_descriptor_def by (rule fd_inv_store[OF inv none[OF that]]) simp
  from step show ?thesis
  proof (cases rule: fd_step_elim[consumes 1, case_names default explicit copy move assign move_assign destroy dup_fd opens closes])
    case (default i)
    then show ?thesis using new by simp
  next
    case (explicit i fd)
    have s': "s' = store_fd i fd (s\<lparr>foreign := foreign s - {fd}\<rparr>)"
      by (simp add: explicit(1) make_shared_fd_def FileDescriptor_explicit_def FileDescriptor_default_def store_fd_def)
    show ?thesis
    proof (cases "fd < 0")
      case True
      then have "foreign s - {fd} = foreign s" using fd_invD(4)[OF inv] by force
      then show ?thesis using fd_inv_store[OF inv none[OF explicit(2)] True] by (simp add: s')
    next
      case False
      then have f: "fd \<in> foreign s" using explicit(3) by simp
      then have "insert fd (open_fds s) = open_fds s" using fd_invD(1)[OF inv] by blast
      then show ?thesis using fd_inv_take[OF inv none[OF explicit(2)] disjI2[OF f]] False by (simp add: s')
    qed
  next
    case (copy i j v)
    then show ?thesis using new construct_from_other by simp
  next
    case (move i j v)
    then show ?thesis using new construct_from_other by simp
  next
    case (assign i u j v)
    show ?thesis
    proof (cases "i = j")
      case True
      then show ?thesis using inv by (simp add: assign(1) copy_assign_def)
    next
      case False
      define s1 where "s1 = (if \<not> unlocked_empty i s then close_fd (GetFD i s) s else s)"
      note r = fd_inv_release[OF inv assign(2), folded s1_def]
      have ni: "\<not> owns (store_fd i (-987) s1) i x" for x by (simp add: owns_def)
      have gj: "GetFD j s1 = v" by (simp add: GetFD_def r(2) assign(3))
      have eq: "s' = (if unlocked_empty j s1 then store_fd i (GetFD j s1) s1 else (case dup fresh (GetFD j s1) s1 of (x, s) \<Rightarrow> store_fd i x s))"
        unfolding assign(1) copy_assign_def s1_def Let_def using False by simp
      show ?thesis
      proof (cases "v < 0")
        case True
        then show ?thesis using False fd_inv_store[OF r(1) ni True]
          by (simp add: eq unlocked_empty_def gj)
      next
        case nv: False
        obtain n s2 where d: "dup fresh v s1 = (n, s2)" by fastforce
        have s': "s' = store_fd i n s2"
          using nv d by (simp add: eq unlocked_empty_def gj)
        have "n = -1 \<and> s2 = s1 \<or> 0 \<le> n \<and> n \<notin> open_fds s1 \<and> s2 = s1\<lparr>open_fds := insert n (open_fds s1)\<rparr>"
          using d fr by (auto simp: dup_def fresh_ok_def split: if_splits option.splits)
        then show ?thesis
        proof (elim disjE conjE)
          assume "n = -1" "s2 = s1"
          then show ?thesis using fd_inv_store[OF r(1) ni, of "-1"] by (simp add: s')
        next
          assume n: "0 \<le> n" "n \<notin> open_fds s1" "s2 = s1\<lparr>open_fds := insert n (open_fds s1)\<rparr>"
          have nf: "n \<notin> foreign s1" using fd_invD(1)[OF r(1), of n] n(2) by simp
          have "fd_inv (store_fd i n ((store_fd i (-987) s1)\<lparr>open_fds := insert n (open_fds s1), foreign := foreign s1 - {n}\<rparr>))"
            using fd_inv_take[OF r(1) ni, of n] n(1,2) by simp
          moreover have "store_fd i n ((store_fd i (-987) s1)\<lparr>open_fds := insert n (open_fds s1), foreign := foreign s1 - {n}\<rparr>) = store_fd i n s2"
            using nf by (simp add: n(3) store_fd_def)
          ultimately show ?thesis by (simp add: s')
        qed
      qed
    qed
  next
    case (move_assign i u j v)
    show ?thesis
    proof (cases "i = j")
      case True
      then show ?thesis using inv by (simp add: move_assign(1) move_assign_def)
    next
      case False
      define s1 where "s1 = (if \<not> unlocked_empty i s then close_fd (GetFD i s) s else s)"
      note r = fd_inv_release[OF inv move_assign(2), folded s1_def]
      have ni: "\<not> owns (store_fd i (-987) s1) i x" for x by (simp add: owns_def)
      have gj: "GetFD j s1 = v" by (simp add: GetFD_def r(2) move_assign(3))
      have "s' = store_fd j (-987) (store_fd i (GetFD j s1) s1)"
        unfolding move_assign(1) move_assign_def s1_def Let_def cm_invalid_file_descriptor_def using False by simp
      then have "s' = store_fd j (-987) (store_fd i v s1)" by (simp only: gj)
      moreover have "fd_objects (store_fd i (-987) s1) j = Some v" using False by (simp add: r(2) move_assign(3))
      from fd_inv_transfer[OF r(1) ni this False] have "fd_inv (store_fd j (-987) (store_fd i v s1))" by simp
      ultimately show ?thesis by simp
    qed
  next
    case (destroy i v)
    define s1 where "s1 = (if \<not> unlocked_empty i s then close_fd (GetFD i s) s else s)"
    note r = fd_inv_release[OF inv destroy(2), folded s1_def]
    have "s' = s1\<lparr>fd_objects := (fd_objects s1)(i := None)\<rparr>"
      by (simp add: destroy(1) FileDescriptor_destroy_def Let_def s1_def store_fd_def)
    then show ?thesis by (intro fd_inv_cong[OF r(1)]) (auto simp: owns_def)
  next
    case (dup_fd i v n t)
    from fd_inv_dup[OF inv fr dup_fd(3)[unfolded GetDupFD_def]] show ?thesis
    proof (elim disjE conjE)
      assume "n = -1" "t = s"
      then show ?thesis using inv by (simp add: dup_fd(1))
    next
      assume n: "0 \<le> n" "n \<notin> open_fds s" "t = s\<lparr>open_fds := insert n (open_fds s)\<rparr>"
      then show ?thesis using fd_inv_foreign(1)[OF inv n(1,2)] by (simp add: dup_fd(1))
    qed
  next
    case (opens n)
    then show ?thesis using fd_inv_foreign(1)[OF inv] by simp
  next
    case (closes n)
    then have "n \<in> open_fds s" using fd_invD(1)[OF inv] by blast
    then show ?thesis using fd_inv_foreign(2)[OF inv closes(2)] by (simp add: closes(1) close_fd_def)
  qed
qed

definition fds_init :: "int set \<Rightarrow> fds" where
  "fds_init S = \<lparr>open_fds = S, fd_objects = (\<lambda>_. None), foreign = S, bad_closes = 0\<rparr>"

lemma fd_reachable_inv:
  assumes "fresh_ok fresh" and "\<forall>v \<in> S. 0 \<le> v" and "(fd_step fresh)\<^sup>*\<^sup>* (fds_init S) s"
  shows "fd_inv s"
  using assms(3)
proof (induction rule: rtranclp_induct)
  case base
  show ?case using assms(2) by (simp add: fd_inv_def fds_init_def owns_def)
next
  case (step s s')
  then show ?case using fd_step_inv[OF assms(1)] by blast
qed

subsection \<open>Properties\<close>

text \<open>
  C19. However objects are made, assigned, moved and destroyed: no descriptor is closed that is not open, none has
  two owners, each one an object owns is open, and none leaks: the open descriptors are those of the objects
  and those of the rest of the program.
\<close>

theorem descriptors_owned_once:
  assumes "fresh_ok fresh" and "\<forall>v \<in> S. 0 \<le> v" and "(fd_step fresh)\<^sup>*\<^sup>* (fds_init S) s"
  shows "bad_closes s = 0 \<and> (\<forall>i j. 0 \<le> GetFD i s \<and> GetFD i s = GetFD j s \<longrightarrow> i = j)
    \<and> open_fds s = foreign s \<union> {v. 0 \<le> v \<and> (\<exists>i. GetFD i s = v)} \<and> (\<forall>i. GetFD i s \<notin> foreign s)"
proof -
  note iv = fd_invD[OF fd_reachable_inv[OF assms]]
  have o: "owns s i v \<longleftrightarrow> 0 \<le> v \<and> GetFD i s = v" for i v
    by (auto simp: owns_def GetFD_def cm_invalid_file_descriptor_def split: option.splits)
  have "i = j" if "0 \<le> GetFD i s" "GetFD i s = GetFD j s" for i j using iv(3)[of i "GetFD i s" j] that by (simp add: o)
  moreover have "GetFD i s \<notin> foreign s" for i using iv(2)[of i "GetFD i s"] iv(4)[of "GetFD i s"] by (auto simp: o)
  moreover have "open_fds s = foreign s \<union> {v. 0 \<le> v \<and> (\<exists>i. GetFD i s = v)}" using iv(1) by (auto simp: o)
  ultimately show ?thesis using iv(5) by blast
qed

text \<open>
  C40. The copy constructor does not duplicate and the move constructor does not take over anything: the new object
  holds no descriptor, the other one keeps its own, and no descriptor is opened or closed.
\<close>

theorem construction_from_other_is_empty:
  assumes "fd_objects s j = Some v" and "fd_objects s i = None"
  shows "GetFD i (FileDescriptor_copy fresh i j s) = -987 \<and> GetFD j (FileDescriptor_copy fresh i j s) = v
    \<and> GetFD i (FileDescriptor_move i j s) = -987 \<and> GetFD j (FileDescriptor_move i j s) = v
    \<and> open_fds (FileDescriptor_copy fresh i j s) = open_fds s \<and> open_fds (FileDescriptor_move i j s) = open_fds s"
proof -
  have "i \<noteq> j" using assms by auto
  then show ?thesis
    unfolding construct_from_other[OF assms] using assms(1)
    by (simp add: FileDescriptor_default_def GetFD_def cm_invalid_file_descriptor_def)
qed

subsection \<open>Instances\<close>

definition some_fresh :: "int set \<Rightarrow> int option" where
  "some_fresh S = find (\<lambda>n. n \<notin> S) [3, 4, 5, 6]"

lemma some_fresh_ok: "fresh_ok some_fresh"
  by (auto simp: fresh_ok_def some_fresh_def split: if_splits)

lemma descriptors_owned_once_witness:
  "\<exists>s. (fd_step some_fresh)\<^sup>*\<^sup>* (fds_init {0, 1, 2, 3}) s \<and> GetFD 0 s = 3 \<and> GetFD 1 s = 4 \<and> bad_closes s = 0"
proof -
  define s1 where "s1 = (make_shared_fd 0 3 (fds_init {0, 1, 2, 3}))\<lparr>foreign := foreign (fds_init {0, 1, 2, 3}) - {3}\<rparr>"
  define s2 where "s2 = FileDescriptor_default 1 s1"
  define s3 where "s3 = copy_assign some_fresh 1 0 s2"
  have v1: "fd_objects s1 = (\<lambda>_. None)(0 := Some 3)" "open_fds s1 = {0, 1, 2, 3}"
    by (simp_all add: s1_def make_shared_fd_def FileDescriptor_explicit_def FileDescriptor_default_def fds_init_def)
  have v2: "fd_objects s2 = (\<lambda>_. None)(0 := Some 3, 1 := Some (-987))" "open_fds s2 = {0, 1, 2, 3}"
    by (simp_all add: s2_def FileDescriptor_default_def cm_invalid_file_descriptor_def v1)
  have "fd_step some_fresh (fds_init {0, 1, 2, 3}) s1"
    unfolding s1_def by (rule fd_step.explicit) (simp_all add: fds_init_def)
  moreover have "fd_step some_fresh s1 s2" unfolding s2_def by (rule fd_step.default) (simp add: v1)
  moreover have "fd_step some_fresh s2 s3" unfolding s3_def by (rule fd_step.assign[of _ _ "-987" _ 3]) (simp_all add: v2)
  ultimately have r: "(fd_step some_fresh)\<^sup>*\<^sup>* (fds_init {0, 1, 2, 3}) s3" by (meson converse_rtranclp_into_rtranclp rtranclp.rtrancl_refl)
  have "GetFD 0 s3 = 3" "GetFD 1 s3 = 4"
    by (simp_all add: s3_def copy_assign_def unlocked_empty_def GetFD_def v2 dup_def some_fresh_def)
  with r descriptors_owned_once[OF some_fresh_ok _ r] show ?thesis by auto
qed

lemma construction_from_other_is_empty_witness:
  "GetFD 1 (FileDescriptor_copy some_fresh 1 0 (FileDescriptor_explicit 0 3 (fds_init {3}))) = -987"
  using construction_from_other_is_empty[of "FileDescriptor_explicit 0 3 (fds_init {3})" 0 3 1 some_fresh]
  by (simp add: FileDescriptor_explicit_def FileDescriptor_default_def fds_init_def)

end
