(* ===== verification/Spec2Isabelle.thy ===== *)
theory Spec2Isabelle
  imports Prelude StringUtil Integers Microstring Containers TypeManager SyncQueue MatchOutput
    LineCount CodeUnits LiteralSearch Scan TypeArgs DoubleChecked DirTraversal File ScanRun FileScanning Engines ConfigFiles OptionParser Options
    Platform Search Program FileDesc
begin

text \<open>
  A model of ucg, a recursive source-code search tool, and what is proved about it. All file names are below
  \<open>src/\<close> of the repository unless they begin with \<open>third_party\<close> or are \<open>main.cpp\<close>.

  The program. \<open>ArgParse\<close> turns the configuration files and the command line into settings and sets up the
  \<open>TypeManager\<close>, which decides by name which files are scanned, and the directory filter. \<open>Globber\<close> and
  \<open>DirTree\<close> walk the directories with several threads and put a \<open>FileID\<close> for every file to be scanned into a
  \<open>sync_queue\<close>. The threads of \<open>FileScanner\<close> take files off that queue, read each into a buffer (\<open>File\<close>), look
  for matches with the regex library and with literal and first-byte searches, and put the \<open>MatchList\<close> of
  each file into a second queue, which \<open>OutputTask\<close> prints. The number of lines printed makes the exit status.

  The theories, from the bottom up:

  \<^item> \<open>Prelude\<close>: byte strings, the searches of the standard library on them, occurrences of a string in
    another, and the named collections the proofs use.
  \<^item> \<open>StringUtil\<close> (\<open>libext/string.hpp\<close>), \<open>Integers\<close> (\<open>libext/integer.hpp\<close>), \<open>Microstring\<close>
    (\<open>libext/microstring.hpp\<close>): splitting and joining, bit tricks at the width of the code, strings of up
    to eight bytes kept in one integer; round trip and order of the latter.
  \<^item> \<open>Containers\<close>: ordered maps and binary search, with the interface of a map as a locale.
  \<^item> \<open>TypeManager\<close> (\<open>TypeManager.cpp\<close>): the built-in types, the operations behind the type options, the
    compilation of the active types into tables, and \<open>FileShouldBeScanned\<close>. The lemmas show that the tables
    decide as the configured types and globs say.
  \<^item> \<open>SyncQueue\<close> (\<open>sync_queue.h\<close>): the critical sections as functions, and around them a step relation of any
    number of threads with waiting, notification and spurious wake-ups; order, conservation, no lost wake-up,
    and that completion means that nothing is left to do.
  \<^item> \<open>Filesystem\<close> (\<open>libext/filesystem.hpp\<close>), \<open>FileID\<close> (\<open>libext/FileID.cpp\<close>, \<open>.h\<close>): path names, the operating
    system as a record of functions, and files whose path, descriptor and stat information are found out
    lazily, as objects of a heap; \<open>path_of\<close> specifies the path. \<open>DoubleChecked\<close>
    (\<open>libext/DoubleCheckedLock.hpp\<close>) is the locking under which these caches are filled.
  \<^item> \<open>DirTree\<close>, \<open>DirTraversal\<close> (\<open>libext/DirTree.cpp\<close>, \<open>Globber.cpp\<close>, \<open>DirInclusionManager.cpp\<close>): the
    traversal as a step relation of its threads, and the files it delivers compared with the predicate
    \<open>found\<close> on path names; termination.
  \<^item> \<open>LineCount\<close>, \<open>CodeUnits\<close>, \<open>LiteralSearch\<close> (\<open>FileScanner.cpp\<close>, \<open>FileScanner_sse4_2.cpp\<close>,
    \<open>libext/memory.hpp\<close>, \<open>ResizableArray.h\<close>): counting newlines, the first-byte tables and the literal
    searches, in their plain and vectorised versions, on a memory of bytes. Each version is an
    interpretation of the contract its callers use.
  \<^item> \<open>Scan\<close> (\<open>FileScannerPCRE2.cpp\<close>): the analysis of the pattern and \<open>ScanFile\<close>, the loop over the matches of
    one file. libpcre2 is a parameter with the laws of the locale \<open>regex_engine\<close>. The scan misses no line on which a
    match starts, but for matches only at the offsets of \<open>stepped_over\<close>: after an empty match the code goes over bytes
    from 0x80 to 0xBF as over the rest of a UTF-8 character.
  \<^item> \<open>File\<close> (\<open>File.cpp\<close>), \<open>ScanRun\<close> (\<open>FileScanner::Run\<close>), \<open>FileScanning\<close>, \<open>Engines\<close> (\<open>FileScanner::Create\<close>,
    \<open>FileScannerPCRE.cpp\<close>, \<open>FileScannerCpp11.cpp\<close>): reading files, the thread function, several threads on the
    same queues, and the scanners on the two versions of libpcre as what the threads call. A virtual function
    is a parameter with the contract \<open>content_scanner\<close>.
  \<^item> \<open>MatchOutput\<close> (\<open>Match.cpp\<close>, \<open>MatchList.cpp\<close>, \<open>OutputContext.h\<close>, \<open>OutputTask.cpp\<close>): the line around a match,
    match lists, and what is printed.
  \<^item> \<open>TypeArgs\<close>, \<open>ConfigFiles\<close>, \<open>OptionTable\<close>, \<open>OptionParser\<close>, \<open>Options\<close> (\<open>ArgParse.cpp\<close>, \<open>ArgParse.h\<close> and
    \<open>third_party/optionparser-1.7/src/optionparser.h\<close>): the pass over the type options, the configuration
    files, the table of options, the parser of the library, and the settings \<open>Parse\<close> ends with.
  \<^item> \<open>Platform\<close> (\<open>libext/cpuidex.cpp\<close>, \<open>libext/multiversioning.hpp\<close>, \<open>libext/Terminal.cpp\<close>): the features the
    processor reports, the resolvers that choose the versions of the counting and literal search functions by
    them, and the width of the terminal. A version is chosen only if the processor reports its instructions.
  \<^item> \<open>Search\<close>, \<open>Program\<close> (\<open>main.cpp\<close>): the threads of the traversal, of the scanners and of the output
    running together on one heap and the two queues, as one step relation, and \<open>main\<close> around it: what the
    threads are started with, the exit status, and the handlers of its exceptions. The theorems compose those of
    the components: what is printed is the matching lines of the files to search, in groups by file, the
    threads come to rest, and the exit status says whether there was a match. They are about file systems whose
    names, descriptors and contents agree with each other (\<open>Search\<close> states this as a predicate), about patterns that are
    not empty and have at most 16 possible first bytes, and, where all files are to be reported, about runs that do not
    follow symbolic links; what goes wrong otherwise is proved where the code does it (\<open>long_table_search_skips\<close>,
    \<open>empty_literal_never_returns\<close>, \<open>failed_stat_delivers_junk\<close>, \<open>short_reads_overwrite\<close>). A queue is closed
    when nothing is left to do, since pulling from a queue that has elements does not depend on it.
  \<^item> \<open>FileDesc\<close> (\<open>libext/FileDescriptor.hpp\<close>): objects that own a descriptor. The header is included, but no other
    part of the program makes such objects.

  How the code is translated. A class is a record with the names of its members and an operation a function
  that returns the changed record; what can be thrown is the left side of a sum, and \<open>None\<close> of an option is a
  run that does not return or ends the program, as said at each definition. Integers are words where
  their width matters. Pointers into a buffer are offsets or addresses. Loops are recursive functions: those
  that need not end are partial functions with the value \<open>None\<close>, so that a theorem that gives \<open>Some\<close> says that
  they return. There is no fuel, and no bound on the length of inputs other than the ones in the statements.
  Threads are step relations: what one step covers is said at each relation, and everything proved about
  reachable states holds for any interleaving.

  What the code relies on. libpcre2 and libpcre: the locales \<open>regex_engine\<close> and \<open>pcre2_library\<close>, interpreted on
  an engine for literals. The operating system: the record \<open>os\<close>, whose answers do not change during a run. POSIX
  \<open>fnmatch\<close> and memory allocation: parameters. The SSE instructions are written out as documented.

  Not modelled. Logging (\<open>libext/Logger\<close>), the text printed by \<open>--version\<close> (\<open>build_info.h\<close>,
  \<open>future/CompileTimeInfo.cpp\<close>) and the layout of \<open>--help\<close>, thread names and timing: output without a result.
  \<open>libext/FileDescriptorCache\<close>: no member but an empty constructor and destructor. The backports in
  \<open>future/\<close>, the macros of \<open>libext/hints.hpp\<close>, \<open>exception.hpp\<close> and \<open>static_diagnostics.hpp\<close>, and those that make the
  names of function versions: they have no behaviour of their own. The part of \<open>FileScannerCpp11.cpp\<close> behind
  \<open>USE_CXX11_REGEX\<close>, which does not compile. Memory mapping of files is never switched on (see \<open>Options\<close>) and
  its branch is left out.
\<close>

end
